(* ===== verification/Klauss_Prelude.thy ===== *)
theory Klauss_Prelude
  imports Main "HOL-Library.Word"
begin

unbundle bit_operations_syntax

text \<open>
  What the components share: the machine integer types of the C sources, signed 32-bit
  wrap-around, little-endian fields, the search loops over fixed tables, two generic interfaces (a transition
  system with an invariant, a table of slots addressed by key) and their lemmas.
\<close>

section \<open>Machine integers\<close>

type_synonym u8 = "8 word"
type_synonym u16 = "16 word"
type_synonym u32 = "32 word"
type_synonym u64 = "64 word"

text \<open>
  A C \<^verbatim>\<open>int\<close> is a mathematical integer; an arithmetic result that is stored is written
  \<open>s32 (\<dots>)\<close>, the two's complement wrap to 32 bits that the core performs.
\<close>

definition s32 :: "int \<Rightarrow> int" where
  "s32 i = signed_take_bit 31 i"

lemma s32_id [simp]: "- 2147483648 \<le> i \<Longrightarrow> i < 2147483648 \<Longrightarrow> s32 i = i"
  by (simp add: s32_def signed_take_bit_int_eq_self)

lemma s32_range: "- 2147483648 \<le> s32 i \<and> s32 i < 2147483648"
  using signed_take_bit_int_greater_eq_minus_exp [of 31 i]
    signed_take_bit_int_less_exp [of 31 i]
  by (simp add: s32_def)

section \<open>Little-endian fields\<close>

definition ld_le :: "u8 list \<Rightarrow> 'l::len word" where
  "ld_le p = foldr (\<lambda>b v. ucast b OR push_bit 8 v) p 0"

definition st_le :: "nat \<Rightarrow> 'l::len word \<Rightarrow> u8 list" where
  "st_le n v = map (\<lambda>i. ucast (drop_bit (8 * i) v)) [0..<n]"

lemma bit_ld_le: "bit (ld_le p :: 'l::len word) n \<longleftrightarrow> n < LENGTH('l) \<and> n div 8 < length p \<and> bit (p ! (n div 8)) (n mod 8)"
proof (induction p arbitrary: n)
  case (Cons b p)
  have e: "ld_le (b # p) = (ucast b OR push_bit 8 (ld_le p) :: 'l word)" by (simp add: ld_le_def)
  show ?case
  proof (cases "n < 8")
    case True
    then show ?thesis unfolding e by (auto simp: bit_simps)
  next
    case False
    then have d: "n div 8 = Suc ((n - 8) div 8)" "n mod 8 = (n - 8) mod 8" by (simp_all add: le_div_geq le_mod_geq)
    have "\<not> bit b n" using False by (simp add: bit_imp_le_length impossible_bit)
    then show ?thesis unfolding e using False Cons.IH [of "n - 8"] by (auto simp: bit_simps d)
  qed
qed (simp add: ld_le_def)

lemma length_st_le [simp]: "length (st_le n v) = n"
  by (simp add: st_le_def)

lemma ld_st_le: "LENGTH('l) = 8 * n \<Longrightarrow> ld_le (st_le n v) = (v :: 'l::len word)"
  by (rule bit_word_eqI) (auto simp: bit_ld_le st_le_def bit_simps less_mult_imp_div_less mult.commute)

lemma st_ld_le: "LENGTH('l) = 8 * length p \<Longrightarrow> st_le (length p) (ld_le p :: 'l::len word) = p"
proof (rule nth_equalityI)
  fix i assume l: "LENGTH('l) = 8 * length p" and "i < length (st_le (length p) (ld_le p :: 'l word))"
  then have i: "i < length p" by simp
  show "st_le (length p) (ld_le p :: 'l word) ! i = p ! i"
  proof (rule bit_word_eqI)
    fix n assume "n < LENGTH(8)"
    then have n: "n < 8" by simp
    then have "(8 * i + n) div 8 = i" "(8 * i + n) mod 8 = n" "8 * i + n < 8 * length p" using i by simp_all
    then show "bit (st_le (length p) (ld_le p :: 'l word) ! i) n = bit (p ! i) n"
      using i n l by (simp add: st_le_def bit_simps bit_ld_le)
  qed
qed simp

section \<open>Search loops over a table\<close>

text \<open>
  \<open>first_idx P xs\<close> is the loop \<^verbatim>\<open>for (i = 0; i < n; i++) if (P(tab[i])) return i;\<close>.
\<close>

fun first_idx :: "('a \<Rightarrow> bool) \<Rightarrow> 'a list \<Rightarrow> nat option" where
  "first_idx P [] = None"
| "first_idx P (x # xs) = (if P x then Some 0 else map_option Suc (first_idx P xs))"

lemma first_idx_None [simp]: "first_idx P xs = None \<longleftrightarrow> (\<forall>x \<in> set xs. \<not> P x)"
  by (induction xs) auto

lemma first_idx_Some:
  "first_idx P xs = Some i \<longleftrightarrow> i < length xs \<and> P (xs ! i) \<and> (\<forall>j < i. \<not> P (xs ! j))"
proof (induction xs arbitrary: i)
  case Nil
  then show ?case by simp
next
  case (Cons x xs)
  show ?case
  proof (cases i)
    case 0
    then show ?thesis by (auto split: option.splits)
  next
    case (Suc k)
    then show ?thesis
      by (auto simp: Cons.IH less_Suc_eq_0_disj)
  qed
qed

lemma first_idx_less: "first_idx P xs = Some i \<Longrightarrow> i < length xs"
  by (simp add: first_idx_Some)

lemma first_idx_holds: "first_idx P xs = Some i \<Longrightarrow> P (xs ! i)"
  by (simp add: first_idx_Some)

lemma nth_upd: "j < length xs \<Longrightarrow> xs[i := v] ! j = (if i = j then v else xs ! j)"
  by (simp add: nth_list_update)

lemma first_idx_cong:
  assumes "length xs = length ys" and "\<And>j. j < length ys \<Longrightarrow> P (xs ! j) = Q (ys ! j)"
  shows "first_idx P xs = first_idx Q ys"
  using assms
proof (induction xs ys rule: list_induct2)
  case Nil
  then show ?case by simp
next
  case (Cons x xs y ys)
  have "P x = Q y" using Cons.prems [of 0] by simp
  moreover have "first_idx P xs = first_idx Q ys"
    using Cons.prems [of "Suc j" for j] by (intro Cons.IH) simp
  ultimately show ?case by simp
qed

lemma length_filter_cong:
  assumes "length xs = length ys" and "\<And>i. i < length xs \<Longrightarrow> P (xs ! i) = P (ys ! i)"
  shows "length (filter P xs) = length (filter P ys)"
  using assms by (auto simp: length_filter_conv_card intro!: arg_cong [where f = card])

lemma length_filter_update:
  "i < length xs \<Longrightarrow> int (length (filter P (xs[i := v]))) =
     int (length (filter P xs)) - of_bool (P (xs ! i)) + of_bool (P v)"
proof (induction xs arbitrary: i)
  case (Cons x xs)
  then show ?case by (cases i) auto
qed simp

section \<open>Transition systems\<close>

text \<open>
  The contract between a component and its callers: an invariant that the initial states
  satisfy and that every step keeps. What follows for any sequence of steps is proved once.
\<close>

locale invariant_system =
  fixes start :: "'s \<Rightarrow> bool"
    and step :: "'s \<Rightarrow> 's \<Rightarrow> bool"
    and invar :: "'s \<Rightarrow> bool"
  assumes start_invar: "start s \<Longrightarrow> invar s"
    and step_invar: "step s t \<Longrightarrow> invar s \<Longrightarrow> invar t"
begin

lemma steps_invar: "step\<^sup>*\<^sup>* s t \<Longrightarrow> invar s \<Longrightarrow> invar t"
  by (induction rule: rtranclp_induct) (auto intro: step_invar)

lemma reachable_invar: "start s \<Longrightarrow> step\<^sup>*\<^sup>* s t \<Longrightarrow> invar t"
  by (blast intro: steps_invar start_invar)

end

section \<open>Tables of slots\<close>

text \<open>
  Several components keep a fixed array of slots, each free or occupied under a key:
  a slot is taken by writing a key into the first free one, found by key, and given back.
  \<open>put\<close> and \<open>clear\<close> are the two writes; the contract is what they do to one slot.
\<close>

locale slot_table =
  fixes occupied :: "'s \<Rightarrow> bool"
    and key :: "'s \<Rightarrow> 'k"
    and put :: "'k \<Rightarrow> 'v \<Rightarrow> 's \<Rightarrow> 's"
    and clear :: "'s \<Rightarrow> 's"
    and valid :: "'k \<Rightarrow> bool"
  assumes occupied_put [simp]: "valid k \<Longrightarrow> occupied (put k v s)"
    and key_put [simp]: "valid k \<Longrightarrow> key (put k v s) = k"
    and occupied_clear [simp]: "\<not> occupied (clear s)"
begin

definition lookup :: "'k \<Rightarrow> 's list \<Rightarrow> nat option" where
  "lookup k tab = first_idx (\<lambda>s. occupied s \<and> key s = k) tab"

definition free_slot :: "'s list \<Rightarrow> nat option" where
  "free_slot tab = first_idx (\<lambda>s. \<not> occupied s) tab"

definition unique_keys :: "'s list \<Rightarrow> bool" where
  "unique_keys tab \<longleftrightarrow>
     (\<forall>i < length tab. \<forall>j < length tab.
        occupied (tab ! i) \<longrightarrow> occupied (tab ! j) \<longrightarrow> key (tab ! i) = key (tab ! j) \<longrightarrow> i = j)"

lemma unique_keysD:
  "unique_keys tab \<Longrightarrow> i < length tab \<Longrightarrow> j < length tab \<Longrightarrow> occupied (tab ! i) \<Longrightarrow>
   occupied (tab ! j) \<Longrightarrow> key (tab ! i) = key (tab ! j) \<Longrightarrow> i = j"
  by (auto simp: unique_keys_def)

lemma lookup_None: "lookup k tab = None \<longleftrightarrow> (\<forall>j < length tab. occupied (tab ! j) \<longrightarrow> key (tab ! j) \<noteq> k)"
  by (fastforce simp: lookup_def in_set_conv_nth)

lemma unique_keys_put:
  assumes "unique_keys tab" and "lookup k tab = None" and "valid k"
  shows "unique_keys (tab[i := put k v s])"
  using assms
  by (auto simp: unique_keys_def lookup_None nth_upd split: if_splits)

lemma unique_keys_clear: "unique_keys tab \<Longrightarrow> unique_keys (tab[i := clear s])"
  by (auto simp: unique_keys_def nth_upd split: if_splits)

lemma unique_keys_same:
  assumes "unique_keys tab" and "occupied s = occupied (tab ! i)" and "key s = key (tab ! i)"
  shows "unique_keys (tab[i := s])"
  using assms by (auto simp: unique_keys_def nth_upd split: if_splits)

lemma lookup_unique:
  "unique_keys tab \<Longrightarrow> i < length tab \<Longrightarrow> occupied (tab ! i) \<Longrightarrow> lookup (key (tab ! i)) tab = Some i"
  unfolding lookup_def first_idx_Some unique_keys_def by (metis less_trans nat_neq_iff)

lemma lookup_put:
  assumes "unique_keys tab" and "lookup k tab = None" and "free_slot tab = Some i" and "valid k"
  shows "lookup k (tab[i := put k v s]) = Some i"
proof -
  have "i < length tab" using assms(3) by (simp add: free_slot_def first_idx_less)
  then show ?thesis
    using lookup_unique [OF unique_keys_put [OF assms(1,2,4), of i v s], of i] assms(4) by simp
qed

lemma lookup_put_other:
  assumes "unique_keys tab" and "lookup k tab = None" and "free_slot tab = Some i"
    and "valid k" and "k' \<noteq> k"
  shows "lookup k' (tab[i := put k v s]) = lookup k' tab"
proof -
  have i: "i < length tab" and fr: "\<not> occupied (tab ! i)"
    using assms(3) by (auto simp: free_slot_def first_idx_Some)
  have "occupied (tab[i := put k v s] ! j) \<and> key (tab[i := put k v s] ! j) = k'
      \<longleftrightarrow> occupied (tab ! j) \<and> key (tab ! j) = k'" if "j < length tab" for j
    using that i fr assms(4,5) by (auto simp: nth_upd)
  then show ?thesis
    by (auto simp: lookup_def intro!: first_idx_cong)
qed

lemma lookup_clear:
  assumes "unique_keys tab" and "lookup k tab = Some i"
  shows "lookup k (tab[i := clear s]) = None"
proof -
  have "i < length tab" "occupied (tab ! i)" "key (tab ! i) = k"
    using assms(2) by (auto simp: lookup_def first_idx_Some)
  then show ?thesis
    using assms(1) by (auto simp: lookup_None nth_upd dest: unique_keysD)
qed

end

end
