(* ===== verification/Rtos.thy ===== *)
theory Rtos
  imports Klauss_Prelude
begin

unbundle bit_operations_syntax

text \<open>
  The preemptive round-robin kernel of \<^verbatim>\<open>src/rtos.c\<close>, \<^verbatim>\<open>rtos.h\<close> and the scheduling
  part of \<^verbatim>\<open>src/context_switch.S\<close>: the task table, task creation with the initial stack
  frame, the tick, the scheduler, sleeping, counting semaphores, event flags and the stack
  canaries.  The state is explicit; a pointer into the task table is an index, a pointer to
  a semaphore or a flag is an address (0 is \<^verbatim>\<open>NULL\<close>).
\<close>

section \<open>Data\<close>

definition RTOS_MAX_TASKS :: nat where
  "RTOS_MAX_TASKS = 8"

definition RTOS_STACK_WORDS :: nat where
  "RTOS_STACK_WORDS = 2048"

definition RTOS_TICK_CYCLES :: u32 where
  "RTOS_TICK_CYCLES = 1000000"

definition CANARY :: u64 where
  "CANARY = 0xDEADC0DEDEADC0DE"

definition KERNEL_STACK_WORDS :: nat where
  "KERNEL_STACK_WORDS = 128"

datatype task_state = TASK_READY | TASK_RUNNING | TASK_BLOCKED | TASK_DEAD

datatype wait_type = WAIT_NONE | WAIT_TICK | WAIT_SEM | WAIT_FLAG

record tcb =
  t_sp :: u32
  t_stack_base :: u32
  t_stack_top :: u32
  t_state :: task_state
  t_id :: int
  t_name :: string
  t_switches :: u32
  t_wake_tick :: u32
  t_wait_type :: wait_type
  t_wait_obj :: u32

text \<open>
  Addresses the linker chooses: the kernel stack, the array of task stacks, the return
  point of task functions and the timer interrupt stub of \<^verbatim>\<open>context_switch.S\<close>.
\<close>

record link_map =
  kernel_stack_addr :: u32
  stacks_addr :: u32
  task_return_point :: u32
  timer_handler_addr :: u32

text \<open>
  The kernel's variables, the contents of the task stacks, the semaphores and flags in
  memory, and the registers the kernel writes (interrupt enable bit, timer vector, timer
  period).
\<close>

record rtos =
  tasks :: "tcb list"
  stacks :: "u64 list list"
  n_tasks :: nat
  g_current_tcb :: "nat option"
  g_tick_count :: u32
  g_kernel_stack_top :: u32
  sem_count :: "u32 \<Rightarrow> int"
  flag_bits :: "u32 \<Rightarrow> u32"
  irq_enabled :: bool
  int_vec_timer :: u32
  timer_per :: u32

definition upd_task :: "nat \<Rightarrow> (tcb \<Rightarrow> tcb) \<Rightarrow> rtos \<Rightarrow> rtos" where
  "upd_task i f r = r\<lparr>tasks := (tasks r)[i := f (tasks r ! i)]\<rparr>"

section \<open>Operations\<close>

definition rtos_mutex_lock :: "rtos \<Rightarrow> rtos" where
  "rtos_mutex_lock r = r\<lparr>irq_enabled := False\<rparr>"

definition rtos_mutex_unlock :: "rtos \<Rightarrow> rtos" where
  "rtos_mutex_unlock r = r\<lparr>irq_enabled := True\<rparr>"

text \<open>
  The initial contents of a task's stack: the canary in the lowest word; from the top
  downwards a zero, the return address of the entry function, the interrupt frame (entry
  PC and interrupt mask 1 in bits 39..42) and sixteen zero registers.
\<close>

definition initial_stack :: "u32 \<Rightarrow> u32 \<Rightarrow> u64 list \<Rightarrow> u64 list" where
  "initial_stack ret entry sk =
     (let sk1 = sk[0 := CANARY];
          sk2 = sk1[RTOS_STACK_WORDS - 1 := 0];
          sk3 = sk2[RTOS_STACK_WORDS - 2 := ucast ret];
          sk4 = sk3[RTOS_STACK_WORDS - 3 := ucast entry OR push_bit 39 1]
      in take (RTOS_STACK_WORDS - 19) sk4 @ replicate 16 0 @ drop (RTOS_STACK_WORDS - 3) sk4)"

definition task_create :: "link_map \<Rightarrow> string \<Rightarrow> u32 \<Rightarrow> rtos \<Rightarrow> int \<times> rtos" where
  "task_create lm name entry r =
     (if n_tasks r \<ge> RTOS_MAX_TASKS then (-1, r)
      else let n = n_tasks r;
               base = stacks_addr lm + of_nat (n * RTOS_STACK_WORDS * 8);
               r1 = r\<lparr>stacks := (stacks r)[n := initial_stack (task_return_point lm) entry (stacks r ! n)]\<rparr>;
               r2 = upd_task n (\<lambda>t. t\<lparr>t_sp := base + of_nat ((RTOS_STACK_WORDS - 19) * 8),
                                      t_stack_base := base,
                                      t_stack_top := base + of_nat (RTOS_STACK_WORDS * 8),
                                      t_state := TASK_READY,
                                      t_id := int n,
                                      t_name := name,
                                      t_switches := 0\<rparr>) r1
           in (int n, r2\<lparr>n_tasks := n + 1\<rparr>))"

definition tick_wake :: "u32 \<Rightarrow> tcb \<Rightarrow> tcb" where
  "tick_wake tick t =
     (if t_state t = TASK_BLOCKED \<and> t_wait_type t = WAIT_TICK \<and> 0 \<le> sint (tick - t_wake_tick t)
      then t\<lparr>t_state := TASK_READY, t_wait_type := WAIT_NONE\<rparr> else t)"

definition tick_count_update :: "rtos \<Rightarrow> rtos" where
  "tick_count_update r =
     (let tick = g_tick_count r + 1
      in r\<lparr>g_tick_count := tick,
           tasks := map (tick_wake tick) (take (n_tasks r) (tasks r)) @ drop (n_tasks r) (tasks r)\<rparr>)"

text \<open>The order in which the scheduler looks at the tasks, starting behind \<open>cur\<close>.\<close>

definition scan_order :: "int \<Rightarrow> nat \<Rightarrow> nat list" where
  "scan_order cur n = map (\<lambda>i. nat ((cur + int i) mod int n)) [1..<Suc n]"

definition current_id :: "rtos \<Rightarrow> int" where
  "current_id r = (case g_current_tcb r of None \<Rightarrow> -1 | Some c \<Rightarrow> t_id (tasks r ! c))"

definition demote_current :: "rtos \<Rightarrow> rtos" where
  "demote_current r =
     (case g_current_tcb r of
        None \<Rightarrow> r
      | Some c \<Rightarrow> if t_state (tasks r ! c) = TASK_RUNNING
                  then upd_task c (\<lambda>t. t\<lparr>t_state := TASK_READY\<rparr>) r else r)"

definition pick_next_task :: "rtos \<Rightarrow> rtos" where
  "pick_next_task r =
     (let cur = current_id r;
          r1 = demote_current r
      in case find (\<lambda>nx. t_state (tasks r1 ! nx) = TASK_READY) (scan_order cur (n_tasks r)) of
           None \<Rightarrow> r1
         | Some nx \<Rightarrow>
             upd_task nx (\<lambda>t. t\<lparr>t_state := TASK_RUNNING, t_switches := t_switches t + 1\<rparr>)
               (r1\<lparr>g_current_tcb := Some nx\<rparr>))"

text \<open>
  \<^verbatim>\<open>rtos_yield\<close> disables interrupts, schedules, and resumes the chosen task through
  \<^verbatim>\<open>IRET\<close>, which enables them; the timer stub counts the tick first.
\<close>

definition rtos_yield :: "rtos \<Rightarrow> rtos" where
  "rtos_yield r = (pick_next_task (r\<lparr>irq_enabled := False\<rparr>))\<lparr>irq_enabled := True\<rparr>"

definition timer_handler :: "rtos \<Rightarrow> rtos" where
  "timer_handler r = pick_next_task (tick_count_update r)"

definition rtos_init :: "link_map \<Rightarrow> rtos \<Rightarrow> rtos" where
  "rtos_init lm r =
     r\<lparr>g_kernel_stack_top := kernel_stack_addr lm + of_nat (KERNEL_STACK_WORDS * 8),
       n_tasks := 0,
       g_current_tcb := None,
       int_vec_timer := timer_handler_addr lm,
       timer_per := RTOS_TICK_CYCLES\<rparr>"

definition rtos_start :: "rtos \<Rightarrow> rtos" where
  "rtos_start r = (pick_next_task r)\<lparr>irq_enabled := True\<rparr>"

definition rtos_task_switches :: "int \<Rightarrow> rtos \<Rightarrow> u32" where
  "rtos_task_switches i r =
     (if i < 0 \<or> int (n_tasks r) \<le> i then 0 else t_switches (tasks r ! nat i))"

definition rtos_sleep_ticks :: "u32 \<Rightarrow> rtos \<Rightarrow> rtos" where
  "rtos_sleep_ticks ticks r =
     (case g_current_tcb r of
        None \<Rightarrow> r
      | Some c \<Rightarrow>
          let r1 = rtos_mutex_lock r;
              r2 = upd_task c (\<lambda>t. t\<lparr>t_state := TASK_BLOCKED, t_wait_type := WAIT_TICK,
                                     t_wake_tick := g_tick_count r1 + ticks\<rparr>) r1
          in rtos_yield r2)"

definition waits_on :: "u32 \<Rightarrow> wait_type \<Rightarrow> tcb \<Rightarrow> bool" where
  "waits_on obj w t \<longleftrightarrow> t_state t = TASK_BLOCKED \<and> t_wait_type t = w \<and> t_wait_obj t = obj"

definition wake_one :: "u32 \<Rightarrow> wait_type \<Rightarrow> rtos \<Rightarrow> bool \<times> rtos" where
  "wake_one obj w r =
     (case first_idx (waits_on obj w) (take (n_tasks r) (tasks r)) of
        None \<Rightarrow> (False, r)
      | Some i \<Rightarrow> (True, upd_task i (\<lambda>t. t\<lparr>t_state := TASK_READY, t_wait_type := WAIT_NONE,
                                             t_wait_obj := 0\<rparr>) r))"

definition block_on :: "nat \<Rightarrow> wait_type \<Rightarrow> u32 \<Rightarrow> rtos \<Rightarrow> rtos" where
  "block_on c w obj r =
     upd_task c (\<lambda>t. t\<lparr>t_state := TASK_BLOCKED, t_wait_type := w, t_wait_obj := obj\<rparr>) r"

definition rtos_sem_init :: "u32 \<Rightarrow> int \<Rightarrow> rtos \<Rightarrow> rtos" where
  "rtos_sem_init s count r = r\<lparr>sem_count := (sem_count r)(s := count)\<rparr>"

definition rtos_sem_wait :: "u32 \<Rightarrow> rtos \<Rightarrow> rtos" where
  "rtos_sem_wait s r =
     (case g_current_tcb r of
        None \<Rightarrow> r
      | Some c \<Rightarrow>
          let r1 = rtos_mutex_lock r
          in if sem_count r1 s > 0
             then rtos_mutex_unlock (r1\<lparr>sem_count := (sem_count r1)(s := sem_count r1 s - 1)\<rparr>)
             else rtos_yield (block_on c WAIT_SEM s r1))"

definition rtos_sem_signal :: "u32 \<Rightarrow> rtos \<Rightarrow> rtos" where
  "rtos_sem_signal s r =
     (let r1 = rtos_mutex_lock r;
          (woken, r2) = wake_one s WAIT_SEM r1;
          r3 = (if \<not> woken then r2\<lparr>sem_count := (sem_count r2)(s := s32 (sem_count r2 s + 1))\<rparr> else r2)
      in rtos_mutex_unlock r3)"

definition rtos_flag_init :: "u32 \<Rightarrow> rtos \<Rightarrow> rtos" where
  "rtos_flag_init f r = r\<lparr>flag_bits := (flag_bits r)(f := 0)\<rparr>"

definition rtos_flag_set :: "u32 \<Rightarrow> rtos \<Rightarrow> rtos" where
  "rtos_flag_set f r =
     (let r1 = rtos_mutex_lock r;
          (woken, r2) = wake_one f WAIT_FLAG r1;
          r3 = (if \<not> woken then r2\<lparr>flag_bits := (flag_bits r2)(f := 1)\<rparr> else r2)
      in rtos_mutex_unlock r3)"

definition rtos_flag_wait :: "u32 \<Rightarrow> rtos \<Rightarrow> rtos" where
  "rtos_flag_wait f r =
     (case g_current_tcb r of
        None \<Rightarrow> r
      | Some c \<Rightarrow>
          let r1 = rtos_mutex_lock r
          in if flag_bits r1 f \<noteq> 0
             then rtos_mutex_unlock (r1\<lparr>flag_bits := (flag_bits r1)(f := 0)\<rparr>)
             else rtos_yield (block_on c WAIT_FLAG f r1))"

text \<open>
  \<^verbatim>\<open>rtos_task_exit\<close> marks the caller dead and then yields for ever; this is the part up to
  and including the first yield, a later one is \<^term>\<open>rtos_yield\<close>.
\<close>

definition rtos_task_exit :: "rtos \<Rightarrow> rtos" where
  "rtos_task_exit r =
     (case g_current_tcb r of
        None \<Rightarrow> r
      | Some c \<Rightarrow> rtos_yield (upd_task c (\<lambda>t. t\<lparr>t_state := TASK_DEAD\<rparr>) (rtos_mutex_lock r)))"

text \<open>
  The canary check stalls on the first overwritten canary with that task's LED lit and
  \<^verbatim>\<open>0x0EEEEEEE\<close> on the display (\<^term>\<open>Inl (leds, seg)\<close>), or returns.
\<close>

definition check_canaries :: "rtos \<Rightarrow> (u32 \<times> u32) + rtos" where
  "check_canaries r =
     (case first_idx (\<lambda>sk. sk ! 0 \<noteq> CANARY) (take (n_tasks r) (stacks r)) of
        Some i \<Rightarrow> Inl (push_bit i 1, 0x0EEEEEEE)
      | None \<Rightarrow> Inr r)"

section \<open>Steps\<close>

text \<open>
  What can happen once the kernel is initialised: a task (or \<^verbatim>\<open>main\<close>) calls an operation,
  or the timer interrupt fires.
\<close>

datatype rtos_op =
    OpCreate string u32
  | OpStart
  | OpTick
  | OpYield
  | OpSleep u32
  | OpSemInit u32 int
  | OpSemWait u32
  | OpSemSignal u32
  | OpFlagInit u32
  | OpFlagSet u32
  | OpFlagWait u32
  | OpExit

fun rtos_exec :: "link_map \<Rightarrow> rtos_op \<Rightarrow> rtos \<Rightarrow> rtos" where
  "rtos_exec lm (OpCreate name entry) r = snd (task_create lm name entry r)"
| "rtos_exec lm OpStart r = rtos_start r"
| "rtos_exec lm OpTick r = timer_handler r"
| "rtos_exec lm OpYield r = rtos_yield r"
| "rtos_exec lm (OpSleep k) r = rtos_sleep_ticks k r"
| "rtos_exec lm (OpSemInit s c) r = rtos_sem_init s c r"
| "rtos_exec lm (OpSemWait s) r = rtos_sem_wait s r"
| "rtos_exec lm (OpSemSignal s) r = rtos_sem_signal s r"
| "rtos_exec lm (OpFlagInit f) r = rtos_flag_init f r"
| "rtos_exec lm (OpFlagSet f) r = rtos_flag_set f r"
| "rtos_exec lm (OpFlagWait f) r = rtos_flag_wait f r"
| "rtos_exec lm OpExit r = rtos_task_exit r"

fun rtos_run :: "link_map \<Rightarrow> rtos_op list \<Rightarrow> rtos \<Rightarrow> rtos" where
  "rtos_run lm [] r = r"
| "rtos_run lm (p # ps) r = rtos_run lm ps (rtos_exec lm p r)"

text \<open>
  The kernel's invariant: the table and the stacks have their C sizes, entries in use carry
  their own index, the current task is in use, and at most the current task is marked
  running.
\<close>

definition rtos_inv :: "rtos \<Rightarrow> bool" where
  "rtos_inv r \<longleftrightarrow>
     length (tasks r) = RTOS_MAX_TASKS \<and> length (stacks r) = RTOS_MAX_TASKS \<and>
     (\<forall>sk \<in> set (stacks r). length sk = RTOS_STACK_WORDS) \<and>
     n_tasks r \<le> RTOS_MAX_TASKS \<and>
     (\<forall>i < n_tasks r. t_id (tasks r ! i) = int i) \<and>
     (\<forall>c. g_current_tcb r = Some c \<longrightarrow> c < n_tasks r) \<and>
     (\<forall>i < n_tasks r. t_state (tasks r ! i) = TASK_RUNNING \<longrightarrow> g_current_tcb r = Some i)"

inductive rtos_step :: "link_map \<Rightarrow> rtos \<Rightarrow> rtos \<Rightarrow> bool" where
  "rtos_step lm r (rtos_exec lm p r)"

section \<open>Lemmas on the parts\<close>

lemmas rtos_consts [simp] = RTOS_MAX_TASKS_def RTOS_STACK_WORDS_def

lemma upd_task_simps [simp]:
  "tasks (upd_task i f r) = (tasks r)[i := f (tasks r ! i)]"
  "stacks (upd_task i f r) = stacks r"
  "n_tasks (upd_task i f r) = n_tasks r"
  "g_current_tcb (upd_task i f r) = g_current_tcb r"
  "g_tick_count (upd_task i f r) = g_tick_count r"
  "sem_count (upd_task i f r) = sem_count r"
  "flag_bits (upd_task i f r) = flag_bits r"
  "irq_enabled (upd_task i f r) = irq_enabled r"
  by (simp_all add: upd_task_def)

lemma lock_simps [simp]:
  "tasks (rtos_mutex_lock r) = tasks r" "stacks (rtos_mutex_lock r) = stacks r"
  "n_tasks (rtos_mutex_lock r) = n_tasks r" "g_current_tcb (rtos_mutex_lock r) = g_current_tcb r"
  "g_tick_count (rtos_mutex_lock r) = g_tick_count r"
  "sem_count (rtos_mutex_lock r) = sem_count r" "flag_bits (rtos_mutex_lock r) = flag_bits r"
  "tasks (rtos_mutex_unlock r) = tasks r" "stacks (rtos_mutex_unlock r) = stacks r"
  "n_tasks (rtos_mutex_unlock r) = n_tasks r" "g_current_tcb (rtos_mutex_unlock r) = g_current_tcb r"
  "g_tick_count (rtos_mutex_unlock r) = g_tick_count r"
  "sem_count (rtos_mutex_unlock r) = sem_count r" "flag_bits (rtos_mutex_unlock r) = flag_bits r"
  by (simp_all add: rtos_mutex_lock_def rtos_mutex_unlock_def)

lemma demote_simps [simp]:
  "length (tasks (demote_current r)) = length (tasks r)" "stacks (demote_current r) = stacks r"
  "n_tasks (demote_current r) = n_tasks r" "g_current_tcb (demote_current r) = g_current_tcb r"
  "g_tick_count (demote_current r) = g_tick_count r"
  "sem_count (demote_current r) = sem_count r" "flag_bits (demote_current r) = flag_bits r"
  by (auto simp: demote_current_def split: option.splits)

lemma demote_nth:
  assumes "j < length (tasks r)"
  shows "tasks (demote_current r) ! j =
    (if g_current_tcb r = Some j \<and> t_state (tasks r ! j) = TASK_RUNNING
     then (tasks r ! j)\<lparr>t_state := TASK_READY\<rparr> else tasks r ! j)"
  using assms by (auto simp: demote_current_def nth_upd split: option.splits)

lemma scan_order_nth:
  "k < n \<Longrightarrow> scan_order cur n ! k = nat ((cur + 1 + int k) mod int n)"
  by (simp add: scan_order_def add.assoc del: upt_Suc)

lemma length_scan_order [simp]: "length (scan_order cur n) = n"
  by (simp add: scan_order_def del: upt_Suc)

text \<open>The position of task \<open>i\<close> in the scan that starts behind \<open>cur\<close>.\<close>

definition rank :: "int \<Rightarrow> nat \<Rightarrow> nat \<Rightarrow> nat" where
  "rank cur n i = nat ((int i - cur - 1) mod int n)"

lemma rank_less: "i < n \<Longrightarrow> rank cur n i < n"
  by (simp add: rank_def nat_less_iff)

lemma scan_order_rank: "i < n \<Longrightarrow> scan_order cur n ! rank cur n i = i"
proof -
  assume i: "i < n"
  have "(cur + 1 + (int i - cur - 1) mod int n) mod int n = (cur + 1 + (int i - cur - 1)) mod int n"
    by (rule mod_add_right_eq)
  with i show ?thesis
    by (simp add: scan_order_nth rank_less) (simp add: rank_def)
qed

lemma set_scan_order: "set (scan_order cur n) = {0..<n}"
proof
  show "set (scan_order cur n) \<subseteq> {0..<n}"
    by (auto simp: in_set_conv_nth scan_order_nth nat_less_iff)
  show "{0..<n} \<subseteq> set (scan_order cur n)"
    by (auto simp: in_set_conv_nth) (metis scan_order_rank rank_less)
qed

lemma rank_scan_order: "k < n \<Longrightarrow> rank cur n (scan_order cur n ! k) = k"
proof -
  assume k: "k < n"
  have "(((cur + 1 + int k) mod int n) - (cur + 1)) mod int n = ((cur + 1 + int k) - (cur + 1)) mod int n"
    by (rule mod_diff_left_eq)
  with k show ?thesis
    by (simp add: scan_order_nth rank_def) (simp add: algebra_simps)
qed

text \<open>
  What the scheduler does: it keeps the demoted table when no task is ready, and otherwise
  chooses the ready task that comes first behind the current one.
\<close>

lemma pick_cases:
  assumes "length (tasks r) = RTOS_MAX_TASKS" and "n_tasks r \<le> RTOS_MAX_TASKS"
  obtains (idle) "\<forall>i < n_tasks r. t_state (tasks (demote_current r) ! i) \<noteq> TASK_READY"
      and "pick_next_task r = demote_current r"
  | (pick) nx where "nx < n_tasks r" and "t_state (tasks (demote_current r) ! nx) = TASK_READY"
      and "\<forall>j < n_tasks r. t_state (tasks (demote_current r) ! j) = TASK_READY \<longrightarrow>
             rank (current_id r) (n_tasks r) nx \<le> rank (current_id r) (n_tasks r) j"
      and "pick_next_task r =
             upd_task nx (\<lambda>t. t\<lparr>t_state := TASK_RUNNING, t_switches := t_switches t + 1\<rparr>)
               ((demote_current r)\<lparr>g_current_tcb := Some nx\<rparr>)"
proof (cases "find (\<lambda>nx. t_state (tasks (demote_current r) ! nx) = TASK_READY)
      (scan_order (current_id r) (n_tasks r))")
  case None
  then have "\<forall>i < n_tasks r. t_state (tasks (demote_current r) ! i) \<noteq> TASK_READY"
    by (auto simp: find_None_iff set_scan_order)
  moreover have "pick_next_task r = demote_current r"
    using None by (simp add: pick_next_task_def)
  ultimately show ?thesis by (rule idle)
next
  case (Some nx)
  let ?so = "scan_order (current_id r) (n_tasks r)"
  obtain k where k: "k < n_tasks r" "t_state (tasks (demote_current r) ! (?so ! k)) = TASK_READY"
    "nx = ?so ! k" and first: "\<forall>j < k. t_state (tasks (demote_current r) ! (?so ! j)) \<noteq> TASK_READY"
    using Some by (auto simp: find_Some_iff)
  have nx: "nx < n_tasks r"
    using k set_scan_order [of "current_id r" "n_tasks r"] nth_mem [of k ?so] by auto
  have "rank (current_id r) (n_tasks r) nx \<le> rank (current_id r) (n_tasks r) j"
    if "j < n_tasks r" "t_state (tasks (demote_current r) ! j) = TASK_READY" for j
  proof (rule ccontr)
    assume "\<not> ?thesis"
    then have "rank (current_id r) (n_tasks r) j < k"
      using k by (simp add: rank_scan_order)
    then show False
      using first that by (metis scan_order_rank)
  qed
  moreover have "pick_next_task r =
      upd_task nx (\<lambda>t. t\<lparr>t_state := TASK_RUNNING, t_switches := t_switches t + 1\<rparr>)
        ((demote_current r)\<lparr>g_current_tcb := Some nx\<rparr>)"
    using Some by (simp add: pick_next_task_def)
  ultimately show ?thesis
    using k nx by (intro pick [of nx]) auto
qed

section \<open>The invariant\<close>

lemma rtos_invD:
  assumes "rtos_inv r"
  shows "length (tasks r) = 8" "length (stacks r) = 8" "n_tasks r \<le> 8"
    "sk \<in> set (stacks r) \<Longrightarrow> length sk = 2048"
    "i < n_tasks r \<Longrightarrow> t_id (tasks r ! i) = int i"
    "g_current_tcb r = Some c \<Longrightarrow> c < n_tasks r"
    "i < n_tasks r \<Longrightarrow> t_state (tasks r ! i) = TASK_RUNNING \<Longrightarrow> g_current_tcb r = Some i"
  using assms unfolding rtos_inv_def rtos_consts by blast+

lemma rtos_invI:
  assumes "length (tasks r) = 8" "length (stacks r) = 8" "n_tasks r \<le> 8"
    "\<And>sk. sk \<in> set (stacks r) \<Longrightarrow> length sk = 2048"
    "\<And>i. i < n_tasks r \<Longrightarrow> t_id (tasks r ! i) = int i"
    "\<And>c. g_current_tcb r = Some c \<Longrightarrow> c < n_tasks r"
    "\<And>i. i < n_tasks r \<Longrightarrow> t_state (tasks r ! i) = TASK_RUNNING \<Longrightarrow> g_current_tcb r = Some i"
  shows "rtos_inv r"
  using assms unfolding rtos_inv_def rtos_consts by blast

text \<open>A write to one entry keeps the invariant if it keeps the index and does not start it.\<close>

lemma rtos_inv_upd:
  assumes "rtos_inv r" and "t_id (f (tasks r ! i)) = t_id (tasks r ! i)"
    and "t_state (f (tasks r ! i)) \<noteq> TASK_RUNNING"
  shows "rtos_inv (upd_task i f r)"
proof (rule rtos_invI)
  fix j assume j: "j < n_tasks (upd_task i f r)" "t_state (tasks (upd_task i f r) ! j) = TASK_RUNNING"
  have "t_state (tasks r ! j) = TASK_RUNNING"
    using j assms(3) rtos_invD(1,3) [OF assms(1)] by (auto simp: nth_upd split: if_splits)
  then show "g_current_tcb (upd_task i f r) = Some j"
    using j(1) rtos_invD(7) [OF assms(1)] by simp
qed (use assms(2) rtos_invD(1-6) [OF assms(1)] in \<open>auto simp: nth_upd\<close>)

lemma rtos_inv_demote: "rtos_inv r \<Longrightarrow> rtos_inv (demote_current r)"
  by (simp add: demote_current_def rtos_inv_upd split: option.splits)

lemma demoted_not_running:
  assumes "rtos_inv r" and "i < n_tasks r"
  shows "t_state (tasks (demote_current r) ! i) \<noteq> TASK_RUNNING"
proof
  assume run: "t_state (tasks (demote_current r) ! i) = TASK_RUNNING"
  have i: "i < length (tasks r)" using rtos_invD(1,3) [OF assms(1)] assms(2) by simp
  then have "t_state (tasks r ! i) = TASK_RUNNING"
    using run by (simp add: demote_nth split: if_splits)
  with rtos_invD(7) [OF assms] run i show False
    by (simp add: demote_nth)
qed

lemma rtos_inv_pick:
  assumes "rtos_inv r"
  shows "rtos_inv (pick_next_task r)"
proof -
  have len: "length (tasks r) = RTOS_MAX_TASKS" "n_tasks r \<le> RTOS_MAX_TASKS"
    using assms by (auto simp: rtos_inv_def)
  show ?thesis
  proof (cases rule: pick_cases [OF len])
    case 1
    then show ?thesis using assms by (simp add: rtos_inv_demote)
  next
    case (2 nx)
    show ?thesis
      unfolding 2(4)
    proof (rule rtos_invI, goal_cases)
      case (7 i)
      then show ?case
        using 2(1) rtos_invD(1,3) [OF assms] demoted_not_running [OF assms, of i]
        by (auto simp: nth_upd split: if_splits)
    qed (use 2(1) rtos_invD(1-5) [OF rtos_inv_demote [OF assms]] in \<open>auto simp: nth_upd\<close>)
  qed
qed

lemma rtos_inv_irq [simp]: "rtos_inv (r\<lparr>irq_enabled := b\<rparr>) = rtos_inv r"
  by (auto simp: rtos_inv_def)

lemma rtos_inv_yield: "rtos_inv r \<Longrightarrow> rtos_inv (rtos_yield r)"
  by (simp add: rtos_yield_def rtos_inv_pick)

lemma rtos_inv_lock [simp]:
  "rtos_inv (rtos_mutex_lock r) = rtos_inv r" "rtos_inv (rtos_mutex_unlock r) = rtos_inv r"
  by (simp_all add: rtos_mutex_lock_def rtos_mutex_unlock_def)

lemma rtos_inv_sem_flag [simp]:
  "rtos_inv (r\<lparr>sem_count := a\<rparr>) = rtos_inv r" "rtos_inv (r\<lparr>flag_bits := b\<rparr>) = rtos_inv r"
  by (auto simp: rtos_inv_def)

lemma tick_wake_simps [simp]:
  "t_id (tick_wake k t) = t_id t" "t_wait_obj (tick_wake k t) = t_wait_obj t"
  "t_state (tick_wake k t) = TASK_RUNNING \<longleftrightarrow> t_state t = TASK_RUNNING"
  "t_state (tick_wake k t) = TASK_DEAD \<longleftrightarrow> t_state t = TASK_DEAD"
  by (auto simp: tick_wake_def)

lemma tick_count_update_simps [simp]:
  "stacks (tick_count_update r) = stacks r" "n_tasks (tick_count_update r) = n_tasks r"
  "g_current_tcb (tick_count_update r) = g_current_tcb r"
  "g_tick_count (tick_count_update r) = g_tick_count r + 1"
  "sem_count (tick_count_update r) = sem_count r" "flag_bits (tick_count_update r) = flag_bits r"
  by (simp_all add: tick_count_update_def Let_def)

lemma tick_count_update_length [simp]:
  "length (tasks (tick_count_update r)) = length (tasks r)"
  by (simp add: tick_count_update_def Let_def)

lemma tick_count_update_nth:
  "i < length (tasks r) \<Longrightarrow> tasks (tick_count_update r) ! i =
     (if i < n_tasks r then tick_wake (g_tick_count r + 1) (tasks r ! i) else tasks r ! i)"
  by (auto simp: tick_count_update_def Let_def nth_append)

lemma rtos_inv_tick:
  assumes "rtos_inv r"
  shows "rtos_inv (tick_count_update r)"
proof (rule rtos_invI, goal_cases)
  case (7 i)
  then show ?case
    using rtos_invD(1,3) [OF assms] rtos_invD(7) [OF assms, of i]
    by (simp add: tick_count_update_nth)
qed (use rtos_invD(1-6) [OF assms] in \<open>auto simp: tick_count_update_nth\<close>)

lemma rtos_inv_wake: "rtos_inv r \<Longrightarrow> rtos_inv (snd (wake_one obj w r))"
  by (simp add: wake_one_def rtos_inv_upd split: option.splits)

lemma rtos_inv_block: "rtos_inv r \<Longrightarrow> rtos_inv (block_on c w obj r)"
  by (simp add: block_on_def rtos_inv_upd)

lemma initial_stack_length [simp]:
  "length sk = RTOS_STACK_WORDS \<Longrightarrow> length (initial_stack ret entry sk) = RTOS_STACK_WORDS"
  by (simp add: initial_stack_def Let_def)

lemma rtos_inv_create:
  assumes "rtos_inv r"
  shows "rtos_inv (snd (task_create lm name entry r))"
proof (cases "n_tasks r < RTOS_MAX_TASKS")
  case False
  then show ?thesis using assms by (simp add: task_create_def)
next
  case True
  let ?n = "n_tasks r"
  have st: "\<forall>sk \<in> set ((stacks r)[?n := initial_stack (task_return_point lm) entry (stacks r ! ?n)]).
      length sk = 2048"
    using rtos_invD(2,4) [OF assms] True set_update_subset_insert [of "stacks r" ?n] by fastforce
  show ?thesis
  proof (rule rtos_invI, goal_cases)
    case (7 i)
    then show ?case
      using True rtos_invD(1,3) [OF assms] rtos_invD(7) [OF assms, of i]
      by (auto simp: task_create_def Let_def nth_upd less_Suc_eq split: if_splits)
  next
    case (6 c)
    then show ?case
      using True rtos_invD(6) [OF assms, of c] by (auto simp: task_create_def Let_def)
  qed (use True st rtos_invD(1-5) [OF assms] in
      \<open>auto simp: task_create_def Let_def nth_upd less_Suc_eq\<close>)
qed

lemmas rtos_inv_intros =
  rtos_inv_pick rtos_inv_yield rtos_inv_tick rtos_inv_wake rtos_inv_block rtos_inv_create

lemma rtos_inv_exec: "rtos_inv r \<Longrightarrow> rtos_inv (rtos_exec lm p r)"
  by (cases p)
    (auto simp: rtos_start_def timer_handler_def rtos_sleep_ticks_def rtos_sem_init_def
      rtos_sem_wait_def rtos_sem_signal_def rtos_flag_init_def rtos_flag_set_def
      rtos_flag_wait_def rtos_task_exit_def Let_def case_prod_beta
      intro!: rtos_inv_intros rtos_inv_upd split: option.splits)

definition rtos_booted :: "link_map \<Rightarrow> rtos \<Rightarrow> bool" where
  "rtos_booted lm r \<longleftrightarrow>
     (\<exists>r0. length (tasks r0) = RTOS_MAX_TASKS \<and> length (stacks r0) = RTOS_MAX_TASKS \<and>
           (\<forall>sk \<in> set (stacks r0). length sk = RTOS_STACK_WORDS) \<and> r = rtos_init lm r0)"

interpretation kernel: invariant_system "rtos_booted lm" "rtos_step lm" rtos_inv for lm
proof unfold_locales
  fix s assume "rtos_booted lm s"
  then show "rtos_inv s" by (auto simp: rtos_booted_def rtos_init_def rtos_inv_def)
next
  fix s t assume "rtos_step lm s t" "rtos_inv s"
  then show "rtos_inv t" by (auto elim!: rtos_step.cases intro: rtos_inv_exec)
qed

section \<open>Scheduling\<close>

lemma pick_simps [simp]:
  "stacks (pick_next_task r) = stacks r" "n_tasks (pick_next_task r) = n_tasks r"
  "g_tick_count (pick_next_task r) = g_tick_count r"
  "sem_count (pick_next_task r) = sem_count r" "flag_bits (pick_next_task r) = flag_bits r"
  "length (tasks (pick_next_task r)) = length (tasks r)"
  by (simp_all add: pick_next_task_def Let_def split: option.splits)

lemma yield_simps [simp]:
  "n_tasks (rtos_yield r) = n_tasks r" "g_tick_count (rtos_yield r) = g_tick_count r"
  "sem_count (rtos_yield r) = sem_count r" "flag_bits (rtos_yield r) = flag_bits r"
  "length (tasks (rtos_yield r)) = length (tasks r)"
  by (simp_all add: rtos_yield_def)

lemma pick_irq: "pick_next_task (r\<lparr>irq_enabled := b\<rparr>) = (pick_next_task r)\<lparr>irq_enabled := b\<rparr>"
proof -
  have "demote_current (r\<lparr>irq_enabled := b\<rparr>) = (demote_current r)\<lparr>irq_enabled := b\<rparr>"
    by (simp add: demote_current_def upd_task_def split: option.splits)
  then show ?thesis
    by (simp add: pick_next_task_def current_id_def Let_def upd_task_def split: option.splits)
qed

lemma yield_tasks [simp]: "tasks (rtos_yield r) = tasks (pick_next_task r)"
  "g_current_tcb (rtos_yield r) = g_current_tcb (pick_next_task r)"
  by (simp_all add: rtos_yield_def pick_irq)


lemma rank_after:
  assumes "nx < n" "i < n" "nx \<noteq> i" and "rank cur n nx \<le> rank cur n i"
  shows "rank (int nx) n i < rank cur n i"
proof -
  let ?a = "(int i - cur - 1) mod int n" and ?b = "(int nx - cur - 1) mod int n"
  have "(?a - ?b - 1) mod int n = ((int i - cur - 1) - (int nx - cur - 1) - 1) mod int n"
    by (metis mod_diff_left_eq mod_diff_eq)
  then have e: "(?a - ?b - 1) mod int n = (int i - int nx - 1) mod int n" by simp
  have "rank cur n nx \<noteq> rank cur n i"
    using assms(1-3) by (metis scan_order_rank)
  then have "?b < ?a"
    using assms by (simp add: rank_def nat_le_eq_zle less_le)
  moreover have "0 \<le> ?b" "?a < int n" using assms(1) by auto
  ultimately have "(int i - int nx - 1) mod int n = ?a - ?b - 1"
    unfolding e [symmetric] by (simp add: mod_pos_pos_trivial)
  then show ?thesis
    using \<open>0 \<le> ?b\<close> \<open>?b < ?a\<close> by (simp add: rank_def)
qed

lemma pick_progress:
  assumes "rtos_inv r" and "i < n_tasks r" and "t_state (tasks r ! i) = TASK_READY"
  shows "g_current_tcb (pick_next_task r) = Some i \<or>
    t_state (tasks (pick_next_task r) ! i) = TASK_READY \<and>
    rank (current_id (pick_next_task r)) (n_tasks r) i < rank (current_id r) (n_tasks r) i"
proof -
  have len: "length (tasks r) = RTOS_MAX_TASKS" "n_tasks r \<le> RTOS_MAX_TASKS"
    using rtos_invD(1,3) [OF assms(1)] by simp_all
  have rd: "t_state (tasks (demote_current r) ! i) = TASK_READY"
    using assms len by (simp add: demote_nth)
  show ?thesis
  proof (cases rule: pick_cases [OF len])
    case 1
    then show ?thesis using rd assms(2) by blast
  next
    case (2 nx)
    have id: "t_id (tasks (demote_current r) ! nx) = int nx"
      using rtos_invD(5) [OF rtos_inv_demote [OF assms(1)]] 2(1) by simp
    have cur: "current_id (pick_next_task r) = int nx"
      unfolding 2(4) using id 2(1) len by (simp add: current_id_def)
    show ?thesis
    proof (cases "nx = i")
      case True
      then show ?thesis using 2(4) by simp
    next
      case False
      moreover have "t_state (tasks (pick_next_task r) ! i) = TASK_READY"
        unfolding 2(4) using rd False assms(2) len by (simp add: nth_upd)
      ultimately show ?thesis
        using rank_after [OF 2(1) assms(2) False] 2(3) rd assms(2) cur by simp
    qed
  qed
qed

text \<open>The operations that always reschedule.\<close>

definition reschedules :: "rtos_op \<Rightarrow> bool" where
  "reschedules p \<longleftrightarrow> p = OpTick \<or> p = OpYield"

definition is_create :: "rtos_op \<Rightarrow> bool" where
  "is_create p \<longleftrightarrow> (\<exists>name entry. p = OpCreate name entry)"

text \<open>What an operation leaves of a ready task that is not running.\<close>

definition advanced :: "nat \<Rightarrow> bool \<Rightarrow> rtos \<Rightarrow> rtos \<Rightarrow> bool" where
  "advanced i strict r r' \<longleftrightarrow> n_tasks r' = n_tasks r \<and>
     (g_current_tcb r' = Some i \<or>
      t_state (tasks r' ! i) = TASK_READY \<and>
      rank (current_id r') (n_tasks r) i \<le> rank (current_id r) (n_tasks r) i \<and>
      (strict \<longrightarrow> rank (current_id r') (n_tasks r) i < rank (current_id r) (n_tasks r) i))"

lemma advanced_pick:
  assumes "rtos_inv r'" and "i < n_tasks r'" and "t_state (tasks r' ! i) = TASK_READY"
    and "n_tasks r' = n_tasks r" and "current_id r' = current_id r"
  shows "advanced i strict r (pick_next_task r')"
  using pick_progress [OF assms(1-3)] assms(4,5) by (auto simp: advanced_def)

lemma current_id_upd:
  assumes "\<And>t. t_id (f t) = t_id t"
  shows "current_id (upd_task c f r) = current_id r"
  using assms unfolding current_id_def upd_task_def
  by (cases "c < length (tasks r)") (auto simp: nth_list_update list_update_beyond split: option.split)

lemma current_id_simps [simp]:
  "current_id (rtos_mutex_lock r) = current_id r" "current_id (rtos_mutex_unlock r) = current_id r"
  "current_id (r\<lparr>irq_enabled := b\<rparr>) = current_id r"
  "current_id (r\<lparr>sem_count := a\<rparr>) = current_id r" "current_id (r\<lparr>flag_bits := d\<rparr>) = current_id r"
  by (simp_all add: current_id_def rtos_mutex_lock_def rtos_mutex_unlock_def split: option.split)

lemma advanced_irq [simp]:
  "advanced i b r (r'\<lparr>irq_enabled := e\<rparr>) = advanced i b r r'"
  by (simp add: advanced_def)

lemma advanced_yield:
  assumes "rtos_inv r'" and "i < n_tasks r'" and "t_state (tasks r' ! i) = TASK_READY"
    and "n_tasks r' = n_tasks r" and "current_id r' = current_id r"
  shows "advanced i strict r (rtos_yield r')"
  using advanced_pick [OF assms] by (simp add: rtos_yield_def pick_irq)

lemma wake_one_keeps:
  assumes "rtos_inv r" and "i < n_tasks r" and "t_state (tasks r ! i) = TASK_READY"
  shows "t_state (tasks (snd (wake_one obj w r)) ! i) = TASK_READY"
    and "current_id (snd (wake_one obj w r)) = current_id r"
    and "n_tasks (snd (wake_one obj w r)) = n_tasks r"
  using assms(2,3) rtos_invD(1,3) [OF assms(1)]
  by (auto simp: wake_one_def nth_upd current_id_upd split: option.splits)

lemma tick_keeps:
  assumes "rtos_inv r" and "i < n_tasks r"
  shows "t_state (tasks r ! i) = TASK_READY \<Longrightarrow> t_state (tasks (tick_count_update r) ! i) = TASK_READY"
    and "current_id (tick_count_update r) = current_id r"
proof -
  have len: "length (tasks r) = 8" "n_tasks r \<le> 8" using rtos_invD(1,3) [OF assms(1)] by simp_all
  then show "t_state (tasks r ! i) = TASK_READY \<Longrightarrow> t_state (tasks (tick_count_update r) ! i) = TASK_READY"
    using assms(2) by (simp add: tick_count_update_nth tick_wake_def)
  show "current_id (tick_count_update r) = current_id r"
    using len rtos_invD(6) [OF assms(1)]
    by (auto simp: current_id_def tick_count_update_nth split: option.splits)
qed

lemma advanced_block:
  assumes "rtos_inv r" and "i < n_tasks r" and "t_state (tasks r ! i) = TASK_READY" and "c \<noteq> i"
    and "\<And>t. t_id (f t) = t_id t" and "\<And>t. t_state (f t) \<noteq> TASK_RUNNING"
  shows "advanced i strict r (rtos_yield (upd_task c f (rtos_mutex_lock r)))"
  by (rule advanced_yield)
    (use assms in \<open>auto intro!: rtos_inv_upd simp: current_id_upd\<close>)

lemma advanced_keep:
  assumes "t_state (tasks r ! i) = TASK_READY"
  shows "advanced i False r r"
    and "advanced i False r (rtos_mutex_unlock ((rtos_mutex_lock r)\<lparr>sem_count := a\<rparr>))"
    and "advanced i False r (rtos_mutex_unlock ((rtos_mutex_lock r)\<lparr>flag_bits := b\<rparr>))"
  using assms by (simp_all add: advanced_def)

lemma exec_advances:
  assumes inv: "rtos_inv r" and i: "i < n_tasks r" and rd: "t_state (tasks r ! i) = TASK_READY"
    and cur: "g_current_tcb r \<noteq> Some i" and p: "\<not> is_create p"
  shows "advanced i (reschedules p) r (rtos_exec lm p r)"
proof (cases p)
  case (OpCreate name entry)
  then show ?thesis using p by (simp add: is_create_def)
next
  case OpTick
  then show ?thesis
    using tick_keeps [OF inv i] rd i
    by (auto simp: timer_handler_def intro!: advanced_pick rtos_inv_tick inv)
next
  case OpYield
  then show ?thesis using advanced_yield [OF inv i rd] by simp
next
  case OpStart
  then show ?thesis using advanced_pick [OF inv i rd] by (simp add: rtos_start_def)
next
  case (OpSemSignal s)
  then show ?thesis
    using wake_one_keeps [of "rtos_mutex_lock r" i s WAIT_SEM] inv i rd
    by (simp add: rtos_sem_signal_def Let_def case_prod_beta advanced_def reschedules_def)
next
  case (OpFlagSet s)
  then show ?thesis
    using wake_one_keeps [of "rtos_mutex_lock r" i s WAIT_FLAG] inv i rd
    by (simp add: rtos_flag_set_def Let_def case_prod_beta advanced_def reschedules_def)
next
  case (OpSleep k)
  then show ?thesis
    using cur by (auto simp: rtos_sleep_ticks_def Let_def reschedules_def
      intro!: advanced_block advanced_keep inv i rd split: option.splits)
next
  case (OpSemWait s)
  then show ?thesis
    using cur by (auto simp: rtos_sem_wait_def block_on_def Let_def reschedules_def
      intro!: advanced_block advanced_keep inv i rd split: option.splits)
next
  case (OpFlagWait s)
  then show ?thesis
    using cur by (auto simp: rtos_flag_wait_def block_on_def Let_def reschedules_def
      intro!: advanced_block advanced_keep inv i rd split: option.splits)
next
  case OpExit
  then show ?thesis
    using cur by (auto simp: rtos_task_exit_def Let_def reschedules_def
      intro!: advanced_block advanced_keep inv i rd split: option.splits)
qed (use rd in \<open>simp_all add: rtos_sem_init_def rtos_flag_init_def advanced_def reschedules_def\<close>)

lemma run_reaches:
  assumes "rtos_inv r" and "i < n_tasks r" and "t_state (tasks r ! i) = TASK_READY"
    and "list_all (\<lambda>p. \<not> is_create p) ps"
    and "rank (current_id r) (n_tasks r) i < length (filter reschedules ps)"
  shows "\<exists>k \<le> length ps. g_current_tcb (rtos_run lm (take k ps) r) = Some i"
  using assms
proof (induction ps arbitrary: r)
  case Nil
  then show ?case by simp
next
  case (Cons p ps)
  let ?r = "rtos_exec lm p r"
  show ?case
  proof (cases "g_current_tcb r = Some i")
    case True
    then show ?thesis by (intro exI [of _ 0]) simp
  next
    case no: False
    have adv: "advanced i (reschedules p) r ?r"
      using exec_advances [OF Cons.prems(1-3) no] Cons.prems(4) by simp
    show ?thesis
    proof (cases "g_current_tcb ?r = Some i")
      case True
      then show ?thesis by (intro exI [of _ 1]) simp
    next
      case False
      have "\<exists>k \<le> length ps. g_current_tcb (rtos_run lm (take k ps) ?r) = Some i"
        by (rule Cons.IH)
          (use adv False Cons.prems rtos_inv_exec in
            \<open>auto simp: advanced_def split: if_splits\<close>)
      then obtain k where "k \<le> length ps" "g_current_tcb (rtos_run lm (take k ps) ?r) = Some i"
        by blast
      then show ?thesis by (intro exI [of _ "Suc k"]) simp
    qed
  qed
qed

section \<open>Sleeping\<close>


lemma timer_tick [simp]: "g_tick_count (timer_handler r) = g_tick_count r + 1"
  by (simp add: timer_handler_def)













section \<open>Semaphores and event flags\<close>

definition waiters :: "u32 \<Rightarrow> wait_type \<Rightarrow> rtos \<Rightarrow> nat" where
  "waiters obj w r = length (filter (waits_on obj w) (take (n_tasks r) (tasks r)))"

text \<open>The abstract value of a semaphore: its count, or minus the number of tasks that wait.\<close>

definition sem_value :: "rtos \<Rightarrow> u32 \<Rightarrow> int" where
  "sem_value r s = sem_count r s - int (waiters s WAIT_SEM r)"

lemma waiters_upd:
  assumes "rtos_inv r" and "i < n_tasks r"
  shows "int (waiters obj w (upd_task i f r)) =
    int (waiters obj w r) - of_bool (waits_on obj w (tasks r ! i)) + of_bool (waits_on obj w (f (tasks r ! i)))"
  using length_filter_update [of i "take (n_tasks r) (tasks r)" "waits_on obj w" "f (tasks r ! i)"]
    assms(2) rtos_invD(1,3) [OF assms(1)]
  by (simp add: waiters_def take_update_swap)

lemma pick_waits:
  assumes "rtos_inv r" and "i < n_tasks r"
  shows "waits_on obj w (tasks (pick_next_task r) ! i) = waits_on obj w (tasks r ! i)"
proof -
  have len: "length (tasks r) = RTOS_MAX_TASKS" "n_tasks r \<le> RTOS_MAX_TASKS"
    using rtos_invD(1,3) [OF assms(1)] by simp_all
  then have i: "i < length (tasks r)" using assms(2) by simp
  show ?thesis
  proof (cases rule: pick_cases [OF len])
    case 1
    then show ?thesis using i by (auto simp: demote_nth waits_on_def)
  next
    case (2 nx)
    then have "\<not> waits_on obj w (tasks r ! nx)"
      using len by (auto simp: demote_nth waits_on_def split: if_splits)
    then show ?thesis unfolding 2(4) using i by (auto simp: demote_nth nth_upd waits_on_def)
  qed
qed

lemma waiters_pick:
  assumes "rtos_inv r"
  shows "waiters obj w (pick_next_task r) = waiters obj w r"
  unfolding waiters_def using rtos_invD(1,3) [OF assms] pick_waits [OF assms]
  by (intro length_filter_cong) simp_all

lemma waiters_simps [simp]:
  "waiters obj w (rtos_mutex_lock r) = waiters obj w r"
  "waiters obj w (rtos_mutex_unlock r) = waiters obj w r"
  "waiters obj w (r\<lparr>sem_count := a\<rparr>) = waiters obj w r"
  "waiters obj w (r\<lparr>flag_bits := b\<rparr>) = waiters obj w r"
  "waiters obj w (rtos_yield r) = waiters obj w (pick_next_task r)"
  by (simp_all add: waiters_def)

lemma waiters_zero: "waiters obj w r = 0 \<longleftrightarrow>
    first_idx (waits_on obj w) (take (n_tasks r) (tasks r)) = None"
  by (simp add: waiters_def filter_empty_conv)

lemma wake_one_waiters:
  assumes "rtos_inv r"
  shows "fst (wake_one obj w r) = (waiters obj w r \<noteq> 0)"
    and "w \<noteq> WAIT_NONE \<Longrightarrow> waiters obj w (snd (wake_one obj w r)) = waiters obj w r - 1"
    and "sem_count (snd (wake_one obj w r)) = sem_count r"
    and "flag_bits (snd (wake_one obj w r)) = flag_bits r"
proof -
  show "fst (wake_one obj w r) = (waiters obj w r \<noteq> 0)"
    unfolding waiters_zero
    by (cases "first_idx (waits_on obj w) (take (n_tasks r) (tasks r))")
      (simp_all add: wake_one_def del: first_idx_None)
  show "waiters obj w (snd (wake_one obj w r)) = waiters obj w r - 1" if "w \<noteq> WAIT_NONE"
  proof (cases "first_idx (waits_on obj w) (take (n_tasks r) (tasks r))")
    case None
    then have "waiters obj w r = 0" by (simp only: waiters_zero)
    then show ?thesis unfolding wake_one_def None by simp
  next
    case (Some i)
    then have "i < n_tasks r" "waits_on obj w (tasks r ! i)"
      using first_idx_less [OF Some] first_idx_holds [OF Some] by simp_all
    then have "int (waiters obj w (snd (wake_one obj w r))) = int (waiters obj w r) - 1"
      using waiters_upd [OF assms, of i] Some that by (simp add: wake_one_def) (simp add: waits_on_def)
    then show ?thesis by simp
  qed
qed (simp_all add: wake_one_def split: option.splits)

lemma sem_wait_value:
  assumes "rtos_inv r" and "g_current_tcb r = Some c" and "t_state (tasks r ! c) = TASK_RUNNING"
  shows "sem_value (rtos_sem_wait s r) s = sem_value r s - 1"
proof (cases "sem_count r s > 0")
  case True
  then show ?thesis using assms by (simp add: rtos_sem_wait_def sem_value_def Let_def)
next
  case False
  have "c < n_tasks r" using rtos_invD(6) [OF assms(1,2)] .
  then show ?thesis
    using False assms waiters_upd [of "rtos_mutex_lock r" c s WAIT_SEM]
      rtos_inv_block [of "rtos_mutex_lock r" c WAIT_SEM s]
    by (simp add: rtos_sem_wait_def sem_value_def Let_def waiters_pick)
      (simp add: block_on_def waits_on_def)
qed

lemma sem_signal_value:
  assumes "rtos_inv r" and "sem_count r s \<in> {-(2^31) ..< 2^31 - 1}"
  shows "sem_value (rtos_sem_signal s r) s = sem_value r s + 1"
  using assms wake_one_waiters [where r = "rtos_mutex_lock r" and w = WAIT_SEM and obj = s]
  by (auto simp: rtos_sem_signal_def sem_value_def Let_def case_prod_beta)

text \<open>No lost wake-up: a task waits only on a semaphore without units or a cleared flag.\<close>

definition wait_ok :: "rtos \<Rightarrow> tcb \<Rightarrow> bool" where
  "wait_ok r t \<longleftrightarrow> (t_state t = TASK_BLOCKED \<longrightarrow>
     (t_wait_type t = WAIT_SEM \<longrightarrow> sem_count r (t_wait_obj t) \<le> 0) \<and>
     (t_wait_type t = WAIT_FLAG \<longrightarrow> flag_bits r (t_wait_obj t) = 0))"

definition sync_inv :: "rtos \<Rightarrow> bool" where
  "sync_inv r \<longleftrightarrow> (\<forall>i < n_tasks r. wait_ok r (tasks r ! i))"

text \<open>
  The steps of a program that re-initialises no semaphore to a positive count while a task
  waits on it.
\<close>

definition op_ok :: "rtos_op \<Rightarrow> rtos \<Rightarrow> bool" where
  "op_ok p r \<longleftrightarrow> (case p of OpSemInit s c \<Rightarrow> 0 < c \<longrightarrow> waiters s WAIT_SEM r = 0 | _ \<Rightarrow> True)"

inductive rtos_ok_step :: "link_map \<Rightarrow> rtos \<Rightarrow> rtos \<Rightarrow> bool" where
  "op_ok p r \<Longrightarrow> rtos_ok_step lm r (rtos_exec lm p r)"

lemma wait_ok_waits: "wait_ok r t \<longleftrightarrow>
    (\<forall>s. (waits_on s WAIT_SEM t \<longrightarrow> sem_count r s \<le> 0) \<and> (waits_on s WAIT_FLAG t \<longrightarrow> flag_bits r s = 0))"
  by (auto simp: wait_ok_def waits_on_def)

lemma sync_pick: "rtos_inv r \<Longrightarrow> sync_inv r \<Longrightarrow> sync_inv (pick_next_task r)"
  by (simp add: sync_inv_def wait_ok_waits pick_waits)

lemma sync_irq [simp]:
  "sync_inv (r\<lparr>irq_enabled := b\<rparr>) = sync_inv r" "sync_inv (rtos_mutex_lock r) = sync_inv r"
  "sync_inv (rtos_mutex_unlock r) = sync_inv r"
  by (simp_all add: sync_inv_def wait_ok_def rtos_mutex_lock_def rtos_mutex_unlock_def)

lemma sync_yield: "rtos_inv r \<Longrightarrow> sync_inv r \<Longrightarrow> sync_inv (rtos_yield r)"
  by (simp add: rtos_yield_def sync_pick)

lemma sync_upd:
  assumes "rtos_inv r" and "sync_inv r" and "wait_ok r (f (tasks r ! i))"
  shows "sync_inv (upd_task i f r)"
  using assms(2,3) rtos_invD(1,3) [OF assms(1)] by (auto simp: sync_inv_def wait_ok_def nth_upd)

lemma sync_wake: "rtos_inv r \<Longrightarrow> sync_inv r \<Longrightarrow> sync_inv (snd (wake_one obj w r))"
  by (auto simp: wake_one_def wait_ok_def intro!: sync_upd split: option.splits)

lemma no_waiters:
  assumes "rtos_inv r" and "waiters s w r = 0" and "i < n_tasks r"
  shows "\<not> waits_on s w (tasks r ! i)"
  using assms(2,3) rtos_invD(1,3) [OF assms(1)]
  by (fastforce simp: waiters_zero in_set_conv_nth)

lemma sync_count:
  assumes "rtos_inv r" and "sync_inv r" and "0 < v \<longrightarrow> waiters s WAIT_SEM r = 0"
  shows "sync_inv (r\<lparr>sem_count := (sem_count r)(s := v)\<rparr>)"
  using assms(2,3) no_waiters [OF assms(1), of s WAIT_SEM]
  by (auto simp: sync_inv_def wait_ok_waits not_less)

lemma sync_flag:
  assumes "rtos_inv r" and "sync_inv r" and "v \<noteq> 0 \<longrightarrow> waiters s WAIT_FLAG r = 0"
  shows "sync_inv (r\<lparr>flag_bits := (flag_bits r)(s := v)\<rparr>)"
  using assms(2,3) no_waiters [OF assms(1), of s WAIT_FLAG]
  by (auto simp: sync_inv_def wait_ok_waits)

lemma sync_tick:
  assumes "rtos_inv r" and "sync_inv r"
  shows "sync_inv (tick_count_update r)"
  using assms(2) rtos_invD(1,3) [OF assms(1)]
  by (auto simp: sync_inv_def wait_ok_def tick_count_update_nth tick_wake_def)

lemma sync_create:
  assumes "rtos_inv r" and "sync_inv r"
  shows "sync_inv (snd (task_create lm name entry r))"
  using assms(2) rtos_invD(1,3) [OF assms(1)]
  by (auto simp: task_create_def Let_def sync_inv_def wait_ok_def nth_upd less_Suc_eq)

lemmas sync_intros = sync_pick sync_yield sync_upd sync_wake sync_count sync_flag sync_tick sync_create
  rtos_inv_intros rtos_inv_upd

lemma sync_exec:
  assumes "rtos_inv r" and "sync_inv r" and "op_ok p r"
  shows "sync_inv (rtos_exec lm p r)"
proof (cases p)
  case (OpSemSignal s)
  then show ?thesis
    using assms wake_one_waiters(1,2) [where r = "rtos_mutex_lock r" and w = WAIT_SEM and obj = s]
    by (auto simp: rtos_sem_signal_def Let_def case_prod_beta intro!: sync_intros)
next
  case (OpFlagSet s)
  then show ?thesis
    using assms wake_one_waiters(1,2) [where r = "rtos_mutex_lock r" and w = WAIT_FLAG and obj = s]
    by (auto simp: rtos_flag_set_def Let_def case_prod_beta intro!: sync_intros)
next
  case (OpSemWait s)
  have "sync_inv ((rtos_mutex_lock r)\<lparr>sem_count := (sem_count (rtos_mutex_lock r))(s := v)\<rparr>)"
    if "0 < sem_count r s" for v
    using that assms(2) by (force simp: sync_inv_def wait_ok_waits)
  then show ?thesis
    using OpSemWait assms by (auto simp: rtos_sem_wait_def block_on_def wait_ok_def Let_def
      intro!: sync_intros split: option.splits)
next
  case (OpFlagWait s)
  have "sync_inv ((rtos_mutex_lock r)\<lparr>flag_bits := (flag_bits (rtos_mutex_lock r))(s := 0)\<rparr>)"
    using assms(2) by (force simp: sync_inv_def wait_ok_waits)
  then show ?thesis
    using OpFlagWait assms by (auto simp: rtos_flag_wait_def block_on_def wait_ok_def Let_def
      intro!: sync_intros split: option.splits)
qed (use assms in \<open>auto simp: rtos_start_def timer_handler_def rtos_sleep_ticks_def rtos_sem_init_def
      rtos_flag_init_def rtos_task_exit_def Let_def wait_ok_def op_ok_def
      intro!: sync_intros split: option.splits\<close>)

interpretation sync: invariant_system "rtos_booted lm" "rtos_ok_step lm" "\<lambda>r. rtos_inv r \<and> sync_inv r" for lm
proof unfold_locales
  fix s assume s: "rtos_booted lm s"
  then have "n_tasks s = 0" by (auto simp: rtos_booted_def rtos_init_def)
  then show "rtos_inv s \<and> sync_inv s" using kernel.start_invar [OF s] by (simp add: sync_inv_def)
next
  fix s t assume "rtos_ok_step lm s t" "rtos_inv s \<and> sync_inv s"
  then show "rtos_inv t \<and> sync_inv t"
    by (auto elim!: rtos_ok_step.cases intro: rtos_inv_exec sync_exec)
qed

section \<open>Sample states\<close>

text \<open>Boot memory of zeros, and a kernel with one or three tasks started from it.\<close>

definition sample_map :: link_map where
  "sample_map = \<lparr>kernel_stack_addr = 0x8000, stacks_addr = 0x10000, task_return_point = 0x400,
     timer_handler_addr = 0x500\<rparr>"

definition zero_tcb :: tcb where
  "zero_tcb = \<lparr>t_sp = 0, t_stack_base = 0, t_stack_top = 0, t_state = TASK_READY, t_id = 0, t_name = [],
     t_switches = 0, t_wake_tick = 0, t_wait_type = WAIT_NONE, t_wait_obj = 0\<rparr>"

definition zero_rtos :: rtos where
  "zero_rtos = \<lparr>tasks = replicate 8 zero_tcb, stacks = replicate 8 (replicate 2048 0), n_tasks = 0,
     g_current_tcb = None, g_tick_count = 0, g_kernel_stack_top = 0, sem_count = (\<lambda>_. 0),
     flag_bits = (\<lambda>_. 0), irq_enabled = False, int_vec_timer = 0, timer_per = 0\<rparr>"

definition sample_boot :: rtos where
  "sample_boot = rtos_init sample_map zero_rtos"

definition sample_ops :: "nat \<Rightarrow> rtos_op list" where
  "sample_ops n = replicate n (OpCreate ''t'' 0x100) @ [OpStart]"

definition sample_state :: "nat \<Rightarrow> rtos" where
  "sample_state n = rtos_run sample_map (sample_ops n) sample_boot"

lemma sample_booted: "rtos_booted sample_map sample_boot"
  unfolding rtos_booted_def sample_boot_def
  by (rule exI [of _ zero_rtos]) (simp add: zero_rtos_def)

lemma run_steps: "(rtos_step lm)\<^sup>*\<^sup>* r (rtos_run lm ps r)"
  by (induction ps arbitrary: r) (auto intro: rtos_step.intros converse_rtranclp_into_rtranclp)

lemma ok_run_steps:
  "list_all (\<lambda>p. \<forall>s c. p \<noteq> OpSemInit s c) ps \<Longrightarrow> (rtos_ok_step lm)\<^sup>*\<^sup>* r (rtos_run lm ps r)"
proof (induction ps arbitrary: r)
  case (Cons p ps)
  then have "rtos_ok_step lm r (rtos_exec lm p r)"
    by (intro rtos_ok_step.intros) (auto simp: op_ok_def split: rtos_op.splits)
  then show ?case using Cons by (auto intro: converse_rtranclp_into_rtranclp)
qed simp

lemma sample_inv: "rtos_inv (sample_state n)"
  unfolding sample_state_def by (rule kernel.steps_invar [OF run_steps]) (rule kernel.start_invar [OF sample_booted])

lemmas sample_defs = sample_state_def sample_ops_def sample_boot_def zero_rtos_def rtos_init_def
  rtos_start_def task_create_def pick_next_task_def demote_current_def current_id_def scan_order_def
  upd_task_def Let_def sample_map_def zero_tcb_def

lemma sample1: "n_tasks (sample_state 1) = 1" "g_current_tcb (sample_state 1) = Some 0"
  "t_state (tasks (sample_state 1) ! 0) = TASK_RUNNING"
  "sem_count (sample_state 1) = (\<lambda>_. 0)"
  by (simp_all add: sample_defs)

lemma sample3: "n_tasks (sample_state 3) = 3" "g_current_tcb (sample_state 3) = Some 0"
  "t_state (tasks (sample_state 3) ! 0) = TASK_RUNNING"
  "t_state (tasks (sample_state 3) ! 2) = TASK_READY"
  by (simp_all add: sample_defs numeral_3_eq_3 numeral_2_eq_2 upt_rec)


section \<open>Properties\<close>

text \<open>
  C1: in every state the kernel can reach from \<^verbatim>\<open>rtos_init\<close> by calls and timer interrupts,
  the task table is well formed: the current task is one of the created ones, each created
  task carries its own index, and no other task than the current one is marked running.
\<close>

theorem kernel_reachable_inv:
  assumes "rtos_booted lm r0" and "(rtos_step lm)\<^sup>*\<^sup>* r0 r"
  shows "rtos_inv r"
  using kernel.reachable_invar [OF assms] .

theorem kernel_reachable_inv_witness:
  "rtos_booted sample_map sample_boot \<and> rtos_inv (sample_state 3)"
  using kernel_reachable_inv [OF sample_booted run_steps [of sample_map sample_boot "sample_ops 3"]]
    sample_booted by (simp add: sample_state_def)

text \<open>
  C2: no starvation.  From a well-formed state, a ready task becomes the current one before
  the scheduler has been entered (by a timer interrupt or \<^verbatim>\<open>rtos_yield\<close>) as many times as there
  are tasks, whatever else the tasks do in between, as long as no task is created.
\<close>

theorem no_starvation:
  assumes "rtos_inv r" and "i < n_tasks r" and "t_state (tasks r ! i) = TASK_READY"
    and "list_all (\<lambda>p. \<not> is_create p) ps" and "n_tasks r \<le> length (filter reschedules ps)"
  shows "\<exists>k \<le> length ps. g_current_tcb (rtos_run lm (take k ps) r) = Some i"
  by (rule run_reaches [OF assms(1-4) less_le_trans [OF rank_less assms(5)]]) (use assms(2) in simp)

theorem no_starvation_witness:
  "\<exists>k \<le> length [OpTick, OpYield, OpTick].
     g_current_tcb (rtos_run sample_map (take k [OpTick, OpYield, OpTick]) (sample_state 3)) = Some 2"
  using no_starvation [of "sample_state 3" 2 "[OpTick, OpYield, OpTick]" sample_map] sample_inv sample3
  by (simp add: is_create_def reschedules_def)



text \<open>
  C28: semaphore accounting.  With the value of a semaphore being its count minus the number
  of tasks blocked on it, \<^verbatim>\<open>rtos_sem_wait\<close> by a running task takes exactly one unit and
  \<^verbatim>\<open>rtos_sem_signal\<close> gives exactly one, handed to a waiter if there is one.
\<close>

theorem sem_accounting:
  assumes "rtos_inv r" and "g_current_tcb r = Some c" and "t_state (tasks r ! c) = TASK_RUNNING"
    and "sem_count r s \<in> {-(2 ^ 31) ..< 2 ^ 31 - 1}"
  shows "sem_value (rtos_sem_wait s r) s = sem_value r s - 1 \<and>
         sem_value (rtos_sem_signal s r) s = sem_value r s + 1"
  using sem_wait_value [OF assms(1-3)] sem_signal_value [OF assms(1,4)] by simp_all

theorem sem_accounting_witness:
  "sem_value (rtos_sem_wait 64 (sample_state 1)) 64 = sem_value (sample_state 1) 64 - 1 \<and>
   sem_value (rtos_sem_signal 64 (sample_state 1)) 64 = sem_value (sample_state 1) 64 + 1"
  by (rule sem_accounting [OF sample_inv sample1(2,3)]) (unfold sample1(4), simp)

text \<open>
  C13: no lost wake-up.  If no semaphore is re-initialised to a positive count while tasks
  wait on it, then in every reachable state a task that is blocked on a semaphore finds it
  without units, and one that is blocked on an event flag finds it cleared.
\<close>

theorem no_lost_wakeup:
  assumes "rtos_booted lm r0" and "(rtos_ok_step lm)\<^sup>*\<^sup>* r0 r" and "i < n_tasks r"
    and "t_state (tasks r ! i) = TASK_BLOCKED"
  shows "(t_wait_type (tasks r ! i) = WAIT_SEM \<longrightarrow> sem_count r (t_wait_obj (tasks r ! i)) \<le> 0) \<and>
         (t_wait_type (tasks r ! i) = WAIT_FLAG \<longrightarrow> flag_bits r (t_wait_obj (tasks r ! i)) = 0)"
  using sync.reachable_invar [OF assms(1,2)] assms(3,4) by (simp add: sync_inv_def wait_ok_def)

theorem no_lost_wakeup_witness:
  "sem_count (rtos_sem_wait 64 (sample_state 1)) 64 \<le> 0"
proof -
  let ?r = "rtos_sem_wait 64 (sample_state 1)"
  have s: "?r = rtos_run sample_map (sample_ops 1 @ [OpSemWait 64]) sample_boot"
    by (simp add: sample_state_def sample_ops_def)
  have "(rtos_ok_step sample_map)\<^sup>*\<^sup>* sample_boot ?r"
    unfolding s by (rule ok_run_steps) (simp add: sample_ops_def)
  moreover have "n_tasks ?r = 1" "t_state (tasks ?r ! 0) = TASK_BLOCKED"
    "t_wait_type (tasks ?r ! 0) = WAIT_SEM" "t_wait_obj (tasks ?r ! 0) = 64"
    by (simp_all add: sample_defs rtos_sem_wait_def block_on_def rtos_mutex_lock_def)
  ultimately show ?thesis
    using no_lost_wakeup [OF sample_booted, of ?r 0] by simp
qed

text \<open>
  A blocking call does not block when no other task is ready.  The scheduler then keeps
  the current task, so \<^verbatim>\<open>rtos_sleep_ticks\<close> comes back to its caller at once, at the same tick,
  with the caller marked blocked and interrupts enabled.
\<close>

theorem sleep_alone_returns:
  assumes "rtos_inv r" and "g_current_tcb r = Some c"
    and "\<forall>i < n_tasks r. i \<noteq> c \<longrightarrow> t_state (tasks r ! i) \<noteq> TASK_READY"
  shows "g_current_tcb (rtos_sleep_ticks t r) = Some c \<and>
         g_tick_count (rtos_sleep_ticks t r) = g_tick_count r \<and>
         t_state (tasks (rtos_sleep_ticks t r) ! c) = TASK_BLOCKED \<and>
         irq_enabled (rtos_sleep_ticks t r)"
proof -
  let ?f = "\<lambda>x. x\<lparr>t_state := TASK_BLOCKED, t_wait_type := WAIT_TICK, t_wake_tick := g_tick_count r + t\<rparr>"
  let ?r = "upd_task c ?f (rtos_mutex_lock r)"
  have c: "c < n_tasks r" using rtos_invD(6) [OF assms(1,2)] .
  have len: "length (tasks ?r) = RTOS_MAX_TASKS" "n_tasks ?r \<le> RTOS_MAX_TASKS"
    using rtos_invD(1,3) [OF assms(1)] by simp_all
  have d: "demote_current ?r = ?r"
    using assms(2) c len by (simp add: demote_current_def nth_upd)
  have "pick_next_task ?r = ?r"
  proof (cases rule: pick_cases [OF len])
    case (2 nx)
    then show ?thesis using assms(3) len unfolding d by (auto simp: nth_upd split: if_splits)
  qed (simp add: d)
  then show ?thesis
    using assms(2) c len by (simp add: rtos_sleep_ticks_def Let_def) (simp add: rtos_yield_def)
qed

theorem sleep_alone_returns_witness:
  "g_current_tcb (rtos_sleep_ticks 100 (sample_state 1)) = Some 0 \<and>
   g_tick_count (rtos_sleep_ticks 100 (sample_state 1)) = g_tick_count (sample_state 1)"
  using sleep_alone_returns [of "sample_state 1" 0 100] sample_inv sample1 by simp

text \<open>
  A created task is ready, and its stack is laid out so that the first switch to it
  works: the canary is in the lowest word; the saved stack pointer is the address of the
  lowest of sixteen zero register words; above them lie the interrupt frame with the entry
  address, the return address and a zero.  The other stacks and tasks are untouched.
\<close>

theorem task_create_frame:
  assumes "rtos_inv r" and "n_tasks r < RTOS_MAX_TASKS"
  shows "let (i, r') = task_create lm name entry r; n = n_tasks r; sk = stacks r' ! n in
    i = int n \<and> n_tasks r' = n + 1 \<and> t_state (tasks r' ! n) = TASK_READY \<and>
    t_sp (tasks r' ! n) = t_stack_base (tasks r' ! n) + 8 * 2029 \<and>
    t_stack_top (tasks r' ! n) = t_stack_base (tasks r' ! n) + 8 * 2048 \<and>
    length sk = 2048 \<and> sk ! 0 = CANARY \<and>
    drop 2029 sk = replicate 16 0 @ [ucast entry OR push_bit 39 1, ucast (task_return_point lm), 0] \<and>
    (\<forall>j. j \<noteq> n \<longrightarrow> stacks r' ! j = stacks r ! j \<and> tasks r' ! j = tasks r ! j)"
proof -
  have sk: "length (stacks r ! n_tasks r) = 2048"
    using assms(2) rtos_invD(2,4) [OF assms(1)] by simp
  have d: "sk[2 := a, Suc 0 := b, 0 := c] = [c, b, a]" if "length sk = 3" for sk :: "u64 list" and a b c
    by (rule nth_equalityI)
      (use that in \<open>auto simp: nth_upd less_Suc_eq numeral_3_eq_3 numeral_2_eq_2\<close>)
  show ?thesis
    using assms(2) rtos_invD(1-3) [OF assms(1)] sk
    by (simp add: task_create_def Let_def initial_stack_def nth_append nth_upd drop_update_swap
        d algebra_simps)
qed

theorem task_create_frame_witness:
  "fst (task_create sample_map ''x'' 0x200 (sample_state 3)) = 3 \<and>
   stacks (snd (task_create sample_map ''x'' 0x200 (sample_state 3))) ! 3 ! 0 = CANARY"
  using task_create_frame [of "sample_state 3" sample_map "''x''" "0x200"] sample_inv sample3
  by (simp add: case_prod_beta Let_def)

text \<open>
  The canary check returns, changing nothing, exactly when the lowest word of every
  created task's stack still holds the canary; otherwise it stalls with the LED of the first
  task whose canary is gone.
\<close>

theorem check_canaries_spec:
  assumes "rtos_inv r"
  shows "(check_canaries r = Inr r \<longleftrightarrow> (\<forall>i < n_tasks r. stacks r ! i ! 0 = CANARY)) \<and>
    (\<forall>leds seg. check_canaries r = Inl (leds, seg) \<longrightarrow>
       (\<exists>i < n_tasks r. leds = push_bit i 1 \<and> seg = 0x0EEEEEEE \<and> stacks r ! i ! 0 \<noteq> CANARY \<and>
          (\<forall>j < i. stacks r ! j ! 0 = CANARY)))"
proof (cases "first_idx (\<lambda>sk. sk ! 0 \<noteq> CANARY) (take (n_tasks r) (stacks r))")
  case None
  have "\<forall>i < n_tasks r. stacks r ! i ! 0 = CANARY"
    using None rtos_invD(2,3) [OF assms] by (fastforce simp: in_set_conv_nth)
  then show ?thesis unfolding check_canaries_def None by simp
next
  case (Some i)
  then show ?thesis
    unfolding check_canaries_def Some using first_idx_Some [THEN iffD1, OF Some] rtos_invD(2,3) [OF assms]
    by auto
qed

theorem check_canaries_witness:
  "rtos_inv (sample_state 3) \<and>
   (check_canaries (sample_state 3) = Inr (sample_state 3) \<longleftrightarrow>
     (\<forall>i < 3. stacks (sample_state 3) ! i ! 0 = CANARY))"
  using check_canaries_spec [OF sample_inv [of 3]] sample_inv [of 3] sample3 by simp

end
