(* ===== verification/Webapi.thy ===== *)
theory Webapi
  imports Klauss_Prelude "HOL-Library.Sublist"
begin

text \<open>
  The dispatcher for pluggable HTTP backends, \<^verbatim>\<open>ssh/webapi.c\<close>: the table of routes, register,
  unregister with its drain loop, and dispatch by longest prefix.  Every critical section
  under \<^verbatim>\<open>api_lock\<close> and every atomic access outside it is one function of the model; the step
  relation at the end interleaves them as the server threads and a shell thread may.
  A handler is a number; \<open>None\<close> is the null pointer.
\<close>

section \<open>Data\<close>

definition WEBAPI_MAX_BACKENDS :: nat where
  "WEBAPI_MAX_BACKENDS = 4"

definition PREFIX_SIZE :: nat where
  "PREFIX_SIZE = 24"

record webapi_route =
  r_prefix :: string
  r_fn :: "nat option"
  r_inflight :: int

record webapi =
  routes :: "webapi_route list"
  active_routes :: int

definition EINVAL :: int where "EINVAL = 22"
definition EEXIST :: int where "EEXIST = 17"
definition ENOMEM :: int where "ENOMEM = 12"

section \<open>Operations\<close>

text \<open>
  The loop of \<^verbatim>\<open>webapi_register\<close>: \<open>Inl ()\<close> when the prefix is taken, otherwise the first
  free slot seen.
\<close>

fun register_scan :: "string \<Rightarrow> nat \<Rightarrow> nat option \<Rightarrow> webapi_route list \<Rightarrow> unit + nat option" where
  "register_scan pfx i slot [] = Inr slot"
| "register_scan pfx i slot (r # rs) =
     (if r_prefix r \<noteq> [] then
        if r_prefix r = pfx then Inl () else register_scan pfx (Suc i) slot rs
      else register_scan pfx (Suc i) (if slot = None then Some i else slot) rs)"

definition route_put :: "string \<Rightarrow> nat \<Rightarrow> webapi_route \<Rightarrow> webapi_route" where
  "route_put pfx fn r =
     r\<lparr>r_prefix := take (PREFIX_SIZE - 1) pfx, r_inflight := 0, r_fn := Some fn\<rparr>"

definition webapi_register :: "string option \<Rightarrow> nat option \<Rightarrow> webapi \<Rightarrow> int \<times> webapi" where
  "webapi_register pfx fn s =
     (case (pfx, fn) of
        (Some p, Some f) \<Rightarrow>
          if p = [] \<or> hd p \<noteq> CHR ''/'' \<or> length p \<ge> PREFIX_SIZE then (- EINVAL, s)
          else (case register_scan p 0 None (routes s) of
                  Inl _ \<Rightarrow> (- EEXIST, s)
                | Inr None \<Rightarrow> (- ENOMEM, s)
                | Inr (Some i) \<Rightarrow>
                    (0, s\<lparr>routes := (routes s)[i := route_put p f (routes s ! i)],
                          active_routes := active_routes s + 1\<rparr>))
      | _ \<Rightarrow> (- EINVAL, s))"

text \<open>
  \<^verbatim>\<open>webapi_unregister\<close> in its three parts: the first critical section (which gives the route
  to drain, if there is one), the condition of the drain loop, and the last section.
\<close>

definition webapi_unregister_begin :: "string option \<Rightarrow> webapi \<Rightarrow> nat option \<times> webapi" where
  "webapi_unregister_begin pfx s =
     (case pfx of
        None \<Rightarrow> (None, s)
      | Some p \<Rightarrow>
          (case first_idx (\<lambda>r. r_prefix r \<noteq> [] \<and> r_prefix r = p) (routes s) of
             None \<Rightarrow> (None, s)
           | Some i \<Rightarrow> (Some i, s\<lparr>routes := (routes s)[i := (routes s ! i)\<lparr>r_fn := None\<rparr>],
                                   active_routes := active_routes s - 1\<rparr>)))"

definition webapi_unregister_busy :: "nat \<Rightarrow> webapi \<Rightarrow> bool" where
  "webapi_unregister_busy i s \<longleftrightarrow> r_inflight (routes s ! i) \<noteq> 0"

definition webapi_unregister_finish :: "nat \<Rightarrow> webapi \<Rightarrow> webapi" where
  "webapi_unregister_finish i s = s\<lparr>routes := (routes s)[i := (routes s ! i)\<lparr>r_prefix := []\<rparr>]\<rparr>"

text \<open>
  \<^verbatim>\<open>webapi_handle\<close>: the lock-free test, the search for the longest live prefix, the critical
  section that pins the route, and the decrement after the handler has returned.
\<close>

definition webapi_handle_skip :: "webapi \<Rightarrow> bool" where
  "webapi_handle_skip s \<longleftrightarrow> active_routes s = 0"

fun best_route :: "string \<Rightarrow> nat \<Rightarrow> nat option \<Rightarrow> nat \<Rightarrow> webapi_route list \<Rightarrow> nat option" where
  "best_route url i best best_len [] = best"
| "best_route url i best best_len (r # rs) =
     (if r_fn r = None \<or> r_prefix r = [] then best_route url (Suc i) best best_len rs
      else if length (r_prefix r) > best_len \<and> take (length (r_prefix r)) url = r_prefix r
      then best_route url (Suc i) (Some i) (length (r_prefix r)) rs
      else best_route url (Suc i) best best_len rs)"

definition webapi_handle_pin :: "string \<Rightarrow> webapi \<Rightarrow> (nat \<times> nat) option \<times> webapi" where
  "webapi_handle_pin url s =
     (case best_route url 0 None 0 (routes s) of
        None \<Rightarrow> (None, s)
      | Some i \<Rightarrow>
          (case r_fn (routes s ! i) of
             None \<Rightarrow> (None, s\<lparr>routes := (routes s)[i := (routes s ! i)\<lparr>r_inflight := r_inflight (routes s ! i) + 1\<rparr>]\<rparr>)
           | Some f \<Rightarrow> (Some (i, f),
               s\<lparr>routes := (routes s)[i := (routes s ! i)\<lparr>r_inflight := r_inflight (routes s ! i) + 1\<rparr>]\<rparr>)))"

definition webapi_handle_unpin :: "nat \<Rightarrow> webapi \<Rightarrow> webapi" where
  "webapi_handle_unpin i s =
     s\<lparr>routes := (routes s)[i := (routes s ! i)\<lparr>r_inflight := r_inflight (routes s ! i) - 1\<rparr>]\<rparr>"

text \<open>The whole of \<^verbatim>\<open>webapi_handle\<close> run alone, with the handlers' answers as a parameter.\<close>

definition webapi_handle :: "(nat \<Rightarrow> bool) \<Rightarrow> string \<Rightarrow> webapi \<Rightarrow> bool \<times> webapi" where
  "webapi_handle answer url s =
     (if webapi_handle_skip s then (False, s)
      else case webapi_handle_pin url s of
             (None, s') \<Rightarrow> (False, s')
           | (Some (i, f), s') \<Rightarrow> (answer f, webapi_handle_unpin i s'))"

section \<open>Threads\<close>

text \<open>
  The table together with what the threads are doing: \<open>calls\<close> are the handler calls server
  threads are in (route and handler), \<open>draining\<close> the routes whose unregister is in its wait
  loop, \<open>drained\<close> those whose unregister has left the loop but not yet taken the lock again.
\<close>

record api_world =
  api :: webapi
  calls :: "(nat \<times> nat) list"
  draining :: "nat list"
  drained :: "nat list"

text \<open>
  A prefix is unregistered by the service that owns it, from its \<^verbatim>\<open>svc_stop\<close>, which
  \<^verbatim>\<open>llext_service_stop\<close> calls once and under \<^verbatim>\<open>svc_lock\<close>: an unregister does not meet a route
  that is already being torn down.  The pin step needs no test of the active-route count: a
  thread may have read it at any earlier time.
\<close>

inductive api_step :: "api_world \<Rightarrow> api_world \<Rightarrow> bool" where
  Register: "api_step w (w\<lparr>api := snd (webapi_register p f (api w))\<rparr>)"
| Pin: "webapi_handle_pin url (api w) = (Some (i, f), s) \<Longrightarrow>
    api_step w (w\<lparr>api := s, calls := (i, f) # calls w\<rparr>)"
| Unpin: "(i, f) \<in> set (calls w) \<Longrightarrow>
    api_step w (w\<lparr>api := webapi_handle_unpin i (api w), calls := remove1 (i, f) (calls w)\<rparr>)"
| Begin: "webapi_unregister_begin p (api w) = (Some i, s) \<Longrightarrow> i \<notin> set (draining w) \<union> set (drained w) \<Longrightarrow>
    api_step w (w\<lparr>api := s, draining := i # draining w\<rparr>)"
| Drained: "i \<in> set (draining w) \<Longrightarrow> \<not> webapi_unregister_busy i (api w) \<Longrightarrow>
    api_step w (w\<lparr>draining := remove1 i (draining w), drained := i # drained w\<rparr>)"
| Finish: "i \<in> set (drained w) \<Longrightarrow>
    api_step w (w\<lparr>api := webapi_unregister_finish i (api w), drained := remove1 i (drained w)\<rparr>)"

definition api_start :: "api_world \<Rightarrow> bool" where
  "api_start w \<longleftrightarrow>
     routes (api w) = replicate WEBAPI_MAX_BACKENDS \<lparr>r_prefix = [], r_fn = None, r_inflight = 0\<rparr> \<and>
     active_routes (api w) = 0 \<and> calls w = [] \<and> draining w = [] \<and> drained w = []"

section \<open>The table\<close>

definition route_used :: "webapi_route \<Rightarrow> bool" where
  "route_used r \<longleftrightarrow> r_prefix r \<noteq> []"

definition prefix_ok :: "string \<Rightarrow> bool" where
  "prefix_ok p \<longleftrightarrow> p \<noteq> [] \<and> hd p = CHR ''/'' \<and> length p < PREFIX_SIZE"

definition route_clear :: "webapi_route \<Rightarrow> webapi_route" where
  "route_clear r = r\<lparr>r_prefix := []\<rparr>"

interpretation rt: slot_table route_used r_prefix route_put route_clear prefix_ok
  by unfold_locales (auto simp: route_used_def route_put_def route_clear_def prefix_ok_def PREFIX_SIZE_def)

text \<open>The one-pass scan is a lookup followed by a search for a free slot.\<close>

lemma register_scan_eq:
  "register_scan p i slot rs =
     (if \<exists>r \<in> set rs. r_prefix r \<noteq> [] \<and> r_prefix r = p then Inl ()
      else Inr (if slot = None then map_option ((+) i) (rt.free_slot rs) else slot))"
  by (induction rs arbitrary: i slot)
    (auto simp: rt.free_slot_def route_used_def option.map_comp comp_def intro!: option.map_cong)

lemma register_scan_lookup:
  "register_scan p 0 None rs = (case rt.lookup p rs of Some _ \<Rightarrow> Inl () | None \<Rightarrow> Inr (rt.free_slot rs))"
proof (cases "rt.lookup p rs")
  case None
  then have "\<not> (\<exists>r \<in> set rs. r_prefix r \<noteq> [] \<and> r_prefix r = p)"
    by (auto simp: rt.lookup_def route_used_def)
  then show ?thesis using None by (cases "rt.free_slot rs") (simp_all add: register_scan_eq)
next
  case (Some i)
  then have "\<exists>r \<in> set rs. r_prefix r \<noteq> [] \<and> r_prefix r = p"
    by (intro bexI [of _ "rs ! i"]) (auto simp: rt.lookup_def first_idx_Some route_used_def)
  then show ?thesis using Some by (simp add: register_scan_eq)
qed

lemma register_eq:
  "webapi_register (Some p) (Some f) s =
     (if \<not> prefix_ok p then (- EINVAL, s)
      else case rt.lookup p (routes s) of Some _ \<Rightarrow> (- EEXIST, s) | None \<Rightarrow>
        (case rt.free_slot (routes s) of None \<Rightarrow> (- ENOMEM, s) | Some i \<Rightarrow>
          (0, s\<lparr>routes := (routes s)[i := route_put p f (routes s ! i)],
                active_routes := active_routes s + 1\<rparr>)))"
  by (auto simp: webapi_register_def prefix_ok_def register_scan_lookup split: option.splits)

section \<open>Longest prefix\<close>

definition live_match :: "string \<Rightarrow> webapi_route \<Rightarrow> bool" where
  "live_match url r \<longleftrightarrow> r_fn r \<noteq> None \<and> r_prefix r \<noteq> [] \<and> prefix (r_prefix r) url"

lemma prefix_take: "take (length xs) ys = xs \<longleftrightarrow> prefix xs ys"
  by (metis append_eq_conv_conj prefix_def take_is_prefix)

lemma best_route_cases:
  "(best_route url i b bl rs = b \<and> (\<forall>r \<in> set rs. live_match url r \<longrightarrow> length (r_prefix r) \<le> bl)) \<or>
   (\<exists>k < length rs. best_route url i b bl rs = Some (i + k) \<and> live_match url (rs ! k) \<and>
      bl < length (r_prefix (rs ! k)) \<and>
      (\<forall>r \<in> set rs. live_match url r \<longrightarrow> length (r_prefix r) \<le> length (r_prefix (rs ! k))))"
proof (induction rs arbitrary: i b bl)
  case (Cons r rs)
  show ?case
  proof (cases "live_match url r \<and> bl < length (r_prefix r)")
    case True
    then have "best_route url i b bl (r # rs) = best_route url (Suc i) (Some i) (length (r_prefix r)) rs"
      by (auto simp: live_match_def prefix_take)
    with Cons.IH [of "Suc i" "Some i" "length (r_prefix r)"] True show ?thesis
      unfolding length_Cons Ex_less_Suc2 by fastforce
  next
    case False
    then have "best_route url i b bl (r # rs) = best_route url (Suc i) b bl rs"
      by (auto simp: live_match_def prefix_take)
    with Cons.IH [of "Suc i" b bl] False show ?thesis
      unfolding length_Cons Ex_less_Suc2 by (fastforce simp: not_less)
  qed
qed simp

lemma best_route_None: "best_route url 0 None 0 rs = None \<longleftrightarrow> (\<forall>r \<in> set rs. \<not> live_match url r)"
  using best_route_cases [of url 0 None 0 rs] by (fastforce simp: live_match_def)

lemma best_route_Some:
  assumes "best_route url 0 None 0 rs = Some i"
  shows "i < length rs" and "live_match url (rs ! i)"
    and "\<And>r. r \<in> set rs \<Longrightarrow> live_match url r \<Longrightarrow> length (r_prefix r) \<le> length (r_prefix (rs ! i))"
  using best_route_cases [of url 0 None 0 rs] assms by auto

lemma pin_Some:
  "webapi_handle_pin url s = (Some (i, f), s') \<longleftrightarrow>
     best_route url 0 None 0 (routes s) = Some i \<and> r_fn (routes s ! i) = Some f \<and>
     s' = s\<lparr>routes := (routes s)[i := (routes s ! i)\<lparr>r_inflight := r_inflight (routes s ! i) + 1\<rparr>]\<rparr>"
  by (auto simp: webapi_handle_pin_def split: option.splits)

lemma pin_None: "fst (webapi_handle_pin url s) = None \<longleftrightarrow> (\<forall>r \<in> set (routes s). \<not> live_match url r)"
  unfolding best_route_None [symmetric] using best_route_Some(2) [of url "routes s"]
  by (auto simp: webapi_handle_pin_def live_match_def split: option.splits)

section \<open>Invariant\<close>

definition in_calls :: "api_world \<Rightarrow> nat \<Rightarrow> nat" where
  "in_calls w i = length (filter (\<lambda>c. fst c = i) (calls w))"

definition tearing :: "api_world \<Rightarrow> nat \<Rightarrow> bool" where
  "tearing w i \<longleftrightarrow> i \<in> set (draining w) \<union> set (drained w)"

definition slot_ok :: "api_world \<Rightarrow> nat \<Rightarrow> webapi_route \<Rightarrow> bool" where
  "slot_ok w i r \<longleftrightarrow>
     r_inflight r = int (in_calls w i) \<and>
     (r_fn r = None \<longleftrightarrow> r_prefix r = [] \<or> tearing w i) \<and>
     (r_prefix r = [] \<longrightarrow> in_calls w i = 0 \<and> \<not> tearing w i) \<and>
     (i \<in> set (drained w) \<longrightarrow> in_calls w i = 0) \<and>
     (\<forall>f. (i, f) \<in> set (calls w) \<longrightarrow> r_fn r = Some f \<or> r_fn r = None)"

definition live_routes :: "webapi_route list \<Rightarrow> nat" where
  "live_routes rs = length (filter (\<lambda>r. r_fn r \<noteq> None) rs)"

definition api_inv :: "api_world \<Rightarrow> bool" where
  "api_inv w \<longleftrightarrow>
     length (routes (api w)) = WEBAPI_MAX_BACKENDS \<and>
     (\<forall>i < WEBAPI_MAX_BACKENDS. slot_ok w i (routes (api w) ! i)) \<and>
     (\<forall>c \<in> set (calls w). fst c < WEBAPI_MAX_BACKENDS) \<and>
     (\<forall>i. tearing w i \<longrightarrow> i < WEBAPI_MAX_BACKENDS) \<and>
     distinct (draining w @ drained w) \<and>
     active_routes (api w) = int (live_routes (routes (api w))) \<and>
     rt.unique_keys (routes (api w))"

lemmas [simp] = WEBAPI_MAX_BACKENDS_def

lemma live_routes_upd:
  "i < length rs \<Longrightarrow> int (live_routes (rs[i := r])) =
     int (live_routes rs) - of_bool (r_fn (rs ! i) \<noteq> None) + of_bool (r_fn r \<noteq> None)"
  by (simp add: live_routes_def length_filter_update)

text \<open>The general form of a step: one route is replaced.\<close>

lemma api_inv_upd:
  assumes inv: "api_inv w" and i: "i < 4"
    and api: "routes (api w') = (routes (api w))[i := r]"
    and slot: "slot_ok w' i r"
    and other: "\<And>j q. j \<noteq> i \<Longrightarrow> slot_ok w j q \<Longrightarrow> slot_ok w' j q"
    and calls: "\<forall>c \<in> set (calls w'). c \<in> set (calls w) \<or> fst c = i"
    and tear: "\<And>j. j \<noteq> i \<Longrightarrow> tearing w' j \<Longrightarrow> tearing w j"
    and dist: "distinct (draining w' @ drained w')"
    and act: "active_routes (api w') = active_routes (api w)
      - of_bool (r_fn (routes (api w) ! i) \<noteq> None) + of_bool (r_fn r \<noteq> None)"
    and uk: "rt.unique_keys ((routes (api w))[i := r])"
  shows "api_inv w'"
  unfolding api_inv_def
proof (intro conjI allI impI ballI)
  fix j assume "j < WEBAPI_MAX_BACKENDS"
  then show "slot_ok w' j (routes (api w') ! j)"
    using inv slot other by (auto simp: api api_inv_def nth_upd)
next
  fix j assume "tearing w' j"
  then show "j < WEBAPI_MAX_BACKENDS" using inv i tear by (cases "j = i") (auto simp: api_inv_def)
qed (use inv i api calls dist act uk live_routes_upd [of i "routes (api w)" r] in
    \<open>auto simp: api_inv_def\<close>)

lemma api_invD:
  assumes "api_inv w"
  shows "length (routes (api w)) = 4" "i < 4 \<Longrightarrow> slot_ok w i (routes (api w) ! i)"
    "(i, f) \<in> set (calls w) \<Longrightarrow> i < 4" "distinct (draining w @ drained w)"
    "active_routes (api w) = int (live_routes (routes (api w)))" "rt.unique_keys (routes (api w))"
    "tearing w i \<Longrightarrow> i < 4"
  using assms by (auto simp: api_inv_def)

lemma tearing_used:
  assumes "api_inv w" and "tearing w i" and "i < 4"
  shows "r_prefix (routes (api w) ! i) \<noteq> []" and "r_fn (routes (api w) ! i) = None"
  using api_invD(2) [OF assms(1,3)] assms(2) by (auto simp: slot_ok_def)

lemma length_filter_remove1:
  "length (filter P (remove1 x xs)) = length (filter P xs) - of_bool (x \<in> set xs \<and> P x)"
proof (induction xs)
  case (Cons a xs)
  have "0 < length (filter P xs)" if "x \<in> set xs" "P x"
    using that by (auto simp: filter_empty_conv)
  with Cons show ?case by (auto simp: of_bool_def)
qed simp

lemma begin_Some:
  "webapi_unregister_begin p s = (Some i, s') \<longleftrightarrow>
     (\<exists>q. p = Some q \<and> rt.lookup q (routes s) = Some i \<and>
        s' = s\<lparr>routes := (routes s)[i := (routes s ! i)\<lparr>r_fn := None\<rparr>], active_routes := active_routes s - 1\<rparr>)"
  by (auto simp: webapi_unregister_begin_def rt.lookup_def route_used_def
      simp del: first_idx_None split: option.splits)

lemma api_inv_register:
  assumes "api_inv w"
  shows "api_inv (w\<lparr>api := snd (webapi_register p f (api w))\<rparr>)"
proof (cases "snd (webapi_register p f (api w)) = api w")
  case True
  then show ?thesis using assms by simp
next
  case False
  then obtain q g i where q: "p = Some q" "f = Some g" "prefix_ok q" "rt.lookup q (routes (api w)) = None"
      "rt.free_slot (routes (api w)) = Some i"
    and reg: "snd (webapi_register p f (api w)) = (api w)\<lparr>routes := (routes (api w))[i := route_put q g (routes (api w) ! i)],
                active_routes := active_routes (api w) + 1\<rparr>"
    by (cases p; cases f) (auto simp: webapi_register_def [of None] webapi_register_def [of _ None]
        register_eq split: option.splits if_splits)
  have i: "i < 4" "r_prefix (routes (api w) ! i) = []"
    using q(5) api_invD(1) [OF assms] by (auto simp: rt.free_slot_def first_idx_Some route_used_def)
  note sl = api_invD(2) [OF assms i(1)]
  show ?thesis
    unfolding reg
  proof (rule api_inv_upd [OF assms i(1), where r = "route_put q g (routes (api w) ! i)"], goal_cases)
    case 2
    then show ?case
      using sl i(2) q(3) by (auto simp: slot_ok_def route_put_def in_calls_def tearing_def prefix_ok_def
          PREFIX_SIZE_def filter_empty_conv)
  next
    case 8
    then show ?case using rt.unique_keys_put [OF api_invD(6) [OF assms] q(4,3)] .
  qed (use sl i(2) api_invD(4) [OF assms] in
      \<open>auto simp: route_put_def slot_ok_def in_calls_def tearing_def\<close>)
qed

lemma api_inv_pin:
  assumes "api_inv w" and "webapi_handle_pin url (api w) = (Some (i, f), s)"
  shows "api_inv (w\<lparr>api := s, calls := (i, f) # calls w\<rparr>)"
proof -
  let ?r = "(routes (api w) ! i)\<lparr>r_inflight := r_inflight (routes (api w) ! i) + 1\<rparr>"
  have b: "best_route url 0 None 0 (routes (api w)) = Some i" "r_fn (routes (api w) ! i) = Some f"
    and s: "s = (api w)\<lparr>routes := (routes (api w))[i := ?r]\<rparr>"
    using assms(2) by (simp_all add: pin_Some)
  have i: "i < 4" using best_route_Some(1) [OF b(1)] api_invD(1) [OF assms(1)] by simp
  note sl = api_invD(2) [OF assms(1) i]
  show ?thesis
    unfolding s
  proof (rule api_inv_upd [OF assms(1) i, where r = ?r], goal_cases)
    case 2
    then show ?case using sl b(2) by (auto simp: slot_ok_def in_calls_def tearing_def)
  next
    case 8
    then show ?case
      by (rule rt.unique_keys_same [OF api_invD(6) [OF assms(1)]]) (simp_all add: route_used_def)
  qed (use api_invD(4) [OF assms(1)] in \<open>auto simp: slot_ok_def in_calls_def tearing_def\<close>)
qed

lemma api_inv_unpin:
  assumes "api_inv w" and "(i, f) \<in> set (calls w)"
  shows "api_inv (w\<lparr>api := webapi_handle_unpin i (api w), calls := remove1 (i, f) (calls w)\<rparr>)"
proof -
  let ?r = "(routes (api w) ! i)\<lparr>r_inflight := r_inflight (routes (api w) ! i) - 1\<rparr>"
  have i: "i < 4" using api_invD(3) [OF assms] .
  note sl = api_invD(2) [OF assms(1) i]
  have sub: "\<And>c. c \<in> set (remove1 (i, f) (calls w)) \<Longrightarrow> c \<in> set (calls w)"
    by (rule subsetD [OF set_remove1_subset])
  have pos: "0 < length (filter (\<lambda>c. fst c = i) (calls w))"
    using assms(2) by (force simp: filter_empty_conv)
  show ?thesis
    unfolding webapi_handle_unpin_def
  proof (rule api_inv_upd [OF assms(1) i, where r = ?r], goal_cases)
    case 2
    then show ?case using sl pos assms(2)
      by (auto simp: slot_ok_def in_calls_def tearing_def length_filter_remove1 of_nat_diff
          simp del: length_greater_0_conv dest: sub)
  next
    case 8
    then show ?case
      by (rule rt.unique_keys_same [OF api_invD(6) [OF assms(1)]]) (simp_all add: route_used_def)
  qed (use api_invD(4) [OF assms(1)] in
      \<open>auto simp: slot_ok_def in_calls_def tearing_def length_filter_remove1 dest: sub\<close>)
qed

lemma api_inv_begin:
  assumes "api_inv w" and "webapi_unregister_begin p (api w) = (Some i, s)"
    and "i \<notin> set (draining w) \<union> set (drained w)"
  shows "api_inv (w\<lparr>api := s, draining := i # draining w\<rparr>)"
proof -
  let ?r = "(routes (api w) ! i)\<lparr>r_fn := None\<rparr>"
  obtain q where q: "rt.lookup q (routes (api w)) = Some i"
    and s: "s = (api w)\<lparr>routes := (routes (api w))[i := ?r], active_routes := active_routes (api w) - 1\<rparr>"
    using assms(2) by (auto simp: begin_Some)
  have i: "i < 4" "r_prefix (routes (api w) ! i) \<noteq> []"
    using q api_invD(1) [OF assms(1)] by (auto simp: rt.lookup_def first_idx_Some route_used_def)
  note sl = api_invD(2) [OF assms(1) i(1)]
  have fn: "r_fn (routes (api w) ! i) \<noteq> None"
    using sl i(2) assms(3) by (auto simp: slot_ok_def tearing_def)
  show ?thesis
    unfolding s
  proof (rule api_inv_upd [OF assms(1) i(1), where r = ?r], goal_cases)
    case 2
    then show ?case using sl i(2) assms(3) by (auto simp: slot_ok_def in_calls_def tearing_def)
  next
    case 8
    then show ?case
      by (rule rt.unique_keys_same [OF api_invD(6) [OF assms(1)]]) (simp_all add: route_used_def)
  qed (use api_invD(4) [OF assms(1)] assms(3) fn in \<open>auto simp: slot_ok_def in_calls_def tearing_def\<close>)
qed

lemma api_inv_drained:
  assumes "api_inv w" and "i \<in> set (draining w)" and "\<not> webapi_unregister_busy i (api w)" and "i < 4"
  shows "api_inv (w\<lparr>draining := remove1 i (draining w), drained := i # drained w\<rparr>)"
proof -
  have d: "distinct (draining w)" using api_invD(4) [OF assms(1)] by simp
  note sl = api_invD(2) [OF assms(1,4)]
  show ?thesis
  proof (rule api_inv_upd [OF assms(1,4), where r = "routes (api w) ! i"], goal_cases)
    case 2
    then show ?case
      using sl assms(2,3) d by (auto simp: slot_ok_def in_calls_def tearing_def webapi_unregister_busy_def)
  next
    case 3
    then show ?case using assms(2) d by (auto simp: slot_ok_def in_calls_def tearing_def)
  qed (use api_invD(4,6) [OF assms(1)] assms(2) d in \<open>auto simp: slot_ok_def in_calls_def tearing_def\<close>)
qed

lemma api_inv_finish:
  assumes "api_inv w" and "i \<in> set (drained w)" and "i < 4"
  shows "api_inv (w\<lparr>api := webapi_unregister_finish i (api w), drained := remove1 i (drained w)\<rparr>)"
proof -
  have d: "distinct (drained w)" "i \<notin> set (draining w)" using api_invD(4) [OF assms(1)] assms(2) by auto
  note sl = api_invD(2) [OF assms(1,3)]
  show ?thesis
    unfolding webapi_unregister_finish_def
  proof (rule api_inv_upd [OF assms(1,3), where r = "(routes (api w) ! i)\<lparr>r_prefix := []\<rparr>"], goal_cases)
    case 2
    then show ?case using sl assms(2) d by (auto simp: slot_ok_def in_calls_def tearing_def)
  next
    case 8
    then show ?case
      using rt.unique_keys_clear [OF api_invD(6) [OF assms(1)], of i "routes (api w) ! i"]
      by (simp add: route_clear_def)
  qed (use api_invD(4) [OF assms(1)] sl assms(2) d in \<open>auto simp: slot_ok_def in_calls_def tearing_def\<close>)
qed

lemmas api_inv_intros =
  api_inv_register api_inv_pin api_inv_unpin api_inv_begin api_inv_drained api_inv_finish

lemma api_inv_step:
  assumes "api_step w w'" and "api_inv w"
  shows "api_inv w'"
  using assms
proof cases
  case (Drained i)
  then show ?thesis using assms(2) api_invD(7) [OF assms(2), of i] by (auto simp: tearing_def intro: api_inv_intros)
next
  case (Finish i)
  then show ?thesis using assms(2) api_invD(7) [OF assms(2), of i] by (auto simp: tearing_def intro: api_inv_intros)
qed (auto intro: api_inv_intros assms(2))

interpretation webapi_sys: invariant_system api_start api_step api_inv
proof unfold_locales
  fix w assume "api_start w"
  then show "api_inv w"
    by (auto simp: api_start_def api_inv_def slot_ok_def in_calls_def tearing_def live_routes_def
        rt.unique_keys_def route_used_def)
qed (rule api_inv_step)

section \<open>Properties\<close>

definition sample_api :: webapi where
  "sample_api = \<lparr>routes = replicate 4 \<lparr>r_prefix = [], r_fn = None, r_inflight = 0\<rparr>, active_routes = 0\<rparr>"

definition sample_world :: api_world where
  "sample_world = \<lparr>api = sample_api, calls = [], draining = [], drained = []\<rparr>"

text \<open>A world with one backend, one call in flight and its unregister waiting.\<close>

definition sample_busy :: api_world where
  "sample_busy =
     (let s1 = snd (webapi_register (Some ''/api/'') (Some 7) sample_api);
          s2 = snd (webapi_handle_pin ''/api/leds'' s1);
          s3 = snd (webapi_unregister_begin (Some ''/api/'') s2)
      in \<lparr>api = s3, calls = [(0, 7)], draining = [0], drained = []\<rparr>)"

lemma sample_api_start: "api_start sample_world"
  by (simp add: api_start_def sample_world_def sample_api_def)

lemmas sample_api_simps = sample_api_def webapi_register_def webapi_handle_pin_def webapi_unregister_begin_def
  PREFIX_SIZE_def route_put_def numeral_eq_Suc Let_def

lemma sample_busy_reach: "api_step\<^sup>*\<^sup>* sample_world sample_busy"
proof -
  let ?w1 = "sample_world\<lparr>api := snd (webapi_register (Some ''/api/'') (Some 7) sample_api)\<rparr>"
  let ?w2 = "?w1\<lparr>api := snd (webapi_handle_pin ''/api/leds'' (api ?w1)), calls := [(0, 7)]\<rparr>"
  have "api_step sample_world ?w1"
    using Register [of sample_world "Some ''/api/''" "Some 7"] by (simp add: sample_world_def)
  moreover have "api_step ?w1 ?w2"
    using Pin [of "''/api/leds''" ?w1 0 7 "api ?w2"] by (simp add: sample_world_def sample_api_simps)
  moreover have "api_step ?w2 sample_busy"
    using Begin [of "Some ''/api/''" ?w2 0 "api sample_busy"]
    by (simp add: sample_world_def sample_busy_def sample_api_simps)
  ultimately show ?thesis by (meson converse_rtranclp_into_rtranclp r_into_rtranclp)
qed

text \<open>
  C12: unregister waits for its handler.  In every reachable interleaving, when an unregister
  has left its wait loop no server thread is inside a handler of that route, and a call that
  is in flight is a call of the route's current handler, or its route is being torn down and
  its unregister is still in the wait loop; the slot of such a call is never free.
\<close>

theorem unregister_drains:
  assumes "api_start w0" and "api_step\<^sup>*\<^sup>* w0 w"
  shows "(\<forall>i f. i \<in> set (drained w) \<longrightarrow> (i, f) \<notin> set (calls w)) \<and>
    (\<forall>i f. (i, f) \<in> set (calls w) \<longrightarrow> r_prefix (routes (api w) ! i) \<noteq> [] \<and>
       (r_fn (routes (api w) ! i) = Some f \<or> r_fn (routes (api w) ! i) = None \<and> i \<in> set (draining w)))"
proof -
  have inv: "api_inv w" by (rule webapi_sys.reachable_invar [OF assms])
  have none: "(i, f) \<notin> set (calls w)" if "in_calls w i = 0" for i f
    using that by (fastforce simp: in_calls_def filter_empty_conv)
  have "slot_ok w i (routes (api w) ! i)" if "(i, f) \<in> set (calls w)" for i f
    using api_invD(2) [OF inv] api_invD(3) [OF inv that] by simp
  then have c: "(i, f) \<in> set (calls w) \<Longrightarrow> i \<notin> set (drained w) \<and> r_prefix (routes (api w) ! i) \<noteq> [] \<and>
      (r_fn (routes (api w) ! i) = Some f \<or> r_fn (routes (api w) ! i) = None \<and> i \<in> set (draining w))" for i f
    using none unfolding slot_ok_def tearing_def by blast
  then show ?thesis by blast
qed

theorem unregister_drains_witness:
  "(0, 7) \<in> set (calls sample_busy) \<and> 0 \<in> set (draining sample_busy) \<and>
   r_prefix (routes (api sample_busy) ! 0) \<noteq> []"
proof -
  have "(0, 7) \<in> set (calls sample_busy)" "0 \<in> set (draining sample_busy)"
    by (simp_all add: sample_busy_def Let_def)
  then show ?thesis using unregister_drains [OF sample_api_start sample_busy_reach] by blast
qed

text \<open>
  C29: the drain ends.  While a route is being torn down, every step of any thread leaves the
  number of calls in flight on it unchanged or smaller, and the return of one of them makes
  it smaller; the wait loop is left exactly when it is zero.
\<close>

theorem drain_progress:
  assumes "api_start w0" and "api_step\<^sup>*\<^sup>* w0 w" and "i \<in> set (draining w)" and "api_step w w'"
  shows "in_calls w' i \<le> in_calls w i \<and>
    (\<forall>f. (i, f) \<in> set (calls w) \<longrightarrow> calls w' = remove1 (i, f) (calls w) \<longrightarrow> in_calls w' i < in_calls w i) \<and>
    (webapi_unregister_busy i (api w) \<longleftrightarrow> in_calls w i \<noteq> 0)"
proof -
  have inv: "api_inv w" by (rule webapi_sys.reachable_invar [OF assms(1,2)])
  have i: "i < 4" using api_invD(7) [OF inv] assms(3) by (simp add: tearing_def)
  have fn: "r_fn (routes (api w) ! i) = None"
    using tearing_used(2) [OF inv _ i] assms(3) by (simp add: tearing_def)
  have "in_calls w' i \<le> in_calls w i"
    using assms(4)
  proof cases
    case (Pin url j f s)
    then have "j \<noteq> i" using fn by (auto simp: pin_Some)
    then show ?thesis using Pin by (simp add: in_calls_def)
  qed (auto simp: in_calls_def length_filter_remove1)
  moreover have "in_calls w' i < in_calls w i"
    if "(i, f) \<in> set (calls w)" "calls w' = remove1 (i, f) (calls w)" for f
  proof -
    have "0 < length (filter (\<lambda>c. fst c = i) (calls w))" using that(1) by (force simp: filter_empty_conv)
    then show ?thesis using that by (simp add: in_calls_def length_filter_remove1)
  qed
  moreover have "webapi_unregister_busy i (api w) \<longleftrightarrow> in_calls w i \<noteq> 0"
    using api_invD(2) [OF inv i] by (simp add: slot_ok_def webapi_unregister_busy_def)
  ultimately show ?thesis by blast
qed

theorem drain_progress_witness:
  "webapi_unregister_busy 0 (api sample_busy) \<longleftrightarrow> in_calls sample_busy 0 \<noteq> 0"
  using drain_progress [OF sample_api_start sample_busy_reach, of 0]
    Register [of sample_busy None None] by (auto simp: sample_busy_def Let_def)

text \<open>
  C30: dispatch goes to the longest registered prefix.  A request is pinned to a live route
  whose prefix starts the URL, no live route with a longer matching prefix exists, and it
  falls through to the file server exactly when no live prefix matches.
\<close>

theorem longest_prefix:
  "(webapi_handle_pin url s = (Some (i, f), s') \<longrightarrow>
      i < length (routes s) \<and> r_fn (routes s ! i) = Some f \<and> prefix (r_prefix (routes s ! i)) url \<and>
      (\<forall>r \<in> set (routes s). live_match url r \<longrightarrow> length (r_prefix r) \<le> length (r_prefix (routes s ! i)))) \<and>
   (fst (webapi_handle_pin url s) = None \<longleftrightarrow> (\<forall>r \<in> set (routes s). \<not> live_match url r))"
  using best_route_Some [of url "routes s" i] pin_None [of url s]
  by (auto simp: pin_Some live_match_def)

theorem longest_prefix_witness:
  "webapi_handle_pin ''/api/leds'' (snd (webapi_register (Some ''/api/'') (Some 7) sample_api)) =
     (Some (0, 7), snd (webapi_handle_pin ''/api/leds'' (snd (webapi_register (Some ''/api/'') (Some 7) sample_api)))) \<and>
   prefix ''/api/'' ''/api/leds''"
proof -
  let ?s = "snd (webapi_register (Some ''/api/'') (Some 7) sample_api)"
  have "webapi_handle_pin ''/api/leds'' ?s = (Some (0, 7), snd (webapi_handle_pin ''/api/leds'' ?s))"
    "r_prefix (routes ?s ! 0) = ''/api/''"
    by (simp_all add: sample_api_simps)
  then show ?thesis
    using longest_prefix [of "''/api/leds''" ?s 0 7 "snd (webapi_handle_pin ''/api/leds'' ?s)"] by simp
qed

text \<open>
  The lock-free test is sound.  In every reachable state the active-route count is the
  number of live routes, so a request that skips the table would have matched no route.
\<close>

theorem fast_path_sound:
  assumes "api_start w0" and "api_step\<^sup>*\<^sup>* w0 w" and "webapi_handle_skip (api w)"
  shows "fst (webapi_handle_pin url (api w)) = None"
proof -
  have "live_routes (routes (api w)) = 0"
    using api_invD(5) [OF webapi_sys.reachable_invar [OF assms(1,2)]] assms(3)
    by (simp add: webapi_handle_skip_def)
  then show ?thesis by (auto simp: pin_None live_match_def live_routes_def filter_empty_conv)
qed

theorem fast_path_witness: "fst (webapi_handle_pin ''/index.html'' (api sample_busy)) = None"
  by (rule fast_path_sound [OF sample_api_start sample_busy_reach])
    (simp add: webapi_handle_skip_def sample_busy_def sample_api_simps)

text \<open>
  Registration.  In a reachable state, \<^verbatim>\<open>webapi_register\<close> with a valid prefix and handler
  fails with \<^verbatim>\<open>EEXIST\<close> exactly when the prefix is in the table, with \<^verbatim>\<open>ENOMEM\<close> exactly when it
  is not and all slots are in use, and otherwise makes the prefix resolve to a route with that
  handler, leaving what every other prefix resolves to as it was.
\<close>

theorem register_spec:
  assumes "api_start w0" and "api_step\<^sup>*\<^sup>* w0 w" and "prefix_ok p"
  shows "let (rc, s) = webapi_register (Some p) (Some f) (api w); rs = routes (api w) in
    (rc = - EEXIST \<longleftrightarrow> (\<exists>r \<in> set rs. r_prefix r = p)) \<and>
    (rc = - ENOMEM \<longleftrightarrow> (\<forall>r \<in> set rs. r_prefix r \<noteq> [] \<and> r_prefix r \<noteq> p)) \<and>
    (rc \<noteq> 0 \<longrightarrow> s = api w) \<and>
    (rc = 0 \<longrightarrow> (\<exists>i < 4. rt.lookup p (routes s) = Some i \<and> r_fn (routes s ! i) = Some f) \<and>
       (\<forall>q. q \<noteq> p \<longrightarrow> rt.lookup q (routes s) = rt.lookup q rs))"
proof -
  have inv: "api_inv w" by (rule webapi_sys.reachable_invar [OF assms(1,2)])
  let ?rs = "routes (api w)"
  have pne: "p \<noteq> []" using assms(3) by (simp add: prefix_ok_def)
  have ex: "rt.lookup p ?rs = None \<longleftrightarrow> (\<forall>r \<in> set ?rs. r_prefix r \<noteq> p)"
    using pne by (auto simp: rt.lookup_def route_used_def)
  have fr: "rt.free_slot ?rs = None \<longleftrightarrow> (\<forall>r \<in> set ?rs. r_prefix r \<noteq> [])"
    by (auto simp: rt.free_slot_def route_used_def)
  show ?thesis
  proof (cases "rt.lookup p ?rs")
    case (Some j)
    then show ?thesis using ex assms(3) by (auto simp: register_eq EEXIST_def ENOMEM_def Let_def)
  next
    case None
    show ?thesis
    proof (cases "rt.free_slot ?rs")
      case nofree: None
      then show ?thesis using None ex fr assms(3) by (auto simp: register_eq EEXIST_def ENOMEM_def Let_def)
    next
      case (Some i)
      have "i < 4" using Some api_invD(1) [OF inv] by (auto simp: rt.free_slot_def dest: first_idx_less)
      then show ?thesis
        using None Some ex fr assms(3) api_invD(1) [OF inv]
          rt.lookup_put [OF api_invD(6) [OF inv] None Some assms(3), of f "?rs ! i"]
          rt.lookup_put_other [OF api_invD(6) [OF inv] None Some assms(3), of _ f "?rs ! i"]
        by (auto simp: register_eq EEXIST_def ENOMEM_def Let_def route_put_def)
    qed
  qed
qed

theorem register_spec_witness:
  "fst (webapi_register (Some ''/api/'') (Some 9) (api sample_busy)) = - EEXIST"
proof -
  have "routes (api sample_busy) ! 0 \<in> set (routes (api sample_busy))"
    "r_prefix (routes (api sample_busy) ! 0) = ''/api/''"
    by (simp_all add: sample_busy_def sample_api_simps)
  then show ?thesis
    using register_spec [OF sample_api_start sample_busy_reach, of "''/api/''" 9]
    by (auto simp: case_prod_beta Let_def prefix_ok_def PREFIX_SIZE_def)
qed

end
