(* ===== verification/Framebuffer.thy ===== *)
theory Framebuffer
  imports Klauss_Prelude
begin

unbundle bit_operations_syntax

text \<open>
  The RGB565 framebuffer of \<^verbatim>\<open>vnc/framebuffer.c\<close> and \<^verbatim>\<open>vnc/framebuffer.h\<close>: drawing with
  clipping, the test pattern, and the dirty rectangle that tells the VNC server what to
  send.  The geometry is a configuration choice (\<^verbatim>\<open>CONFIG_KLAUSSCPU_VNC_FB_WIDTH\<close>), so it is
  part of the state.  Each function runs under \<^verbatim>\<open>fb_mutex\<close> and is one step.
\<close>

section \<open>Data\<close>

record fb_state =
  FB_WIDTH :: int
  FB_HEIGHT :: int
  fb :: "u16 list"
  dirty_x0 :: int
  dirty_y0 :: int
  dirty_x1 :: int
  dirty_y1 :: int

definition fb_rgb :: "u8 \<Rightarrow> u8 \<Rightarrow> u8 \<Rightarrow> u16" where
  "fb_rgb r g b =
     (push_bit 8 (ucast (r AND 0xF8)) OR push_bit 3 (ucast (g AND 0xFC)) OR ucast (drop_bit 3 b))"

section \<open>Operations\<close>

definition dirty_add_locked :: "int \<Rightarrow> int \<Rightarrow> int \<Rightarrow> int \<Rightarrow> fb_state \<Rightarrow> fb_state" where
  "dirty_add_locked x y w h s =
     (let x1 = s32 (x + w);
          y1 = s32 (y + h);
          x = (if x < 0 then 0 else x);
          y = (if y < 0 then 0 else y);
          x1 = (if x1 > FB_WIDTH s then FB_WIDTH s else x1);
          y1 = (if y1 > FB_HEIGHT s then FB_HEIGHT s else y1)
      in if x \<ge> x1 \<or> y \<ge> y1 then s
         else if dirty_x0 s \<ge> dirty_x1 s
         then s\<lparr>dirty_x0 := x, dirty_y0 := y, dirty_x1 := x1, dirty_y1 := y1\<rparr>
         else s\<lparr>dirty_x0 := (if x < dirty_x0 s then x else dirty_x0 s),
                dirty_y0 := (if y < dirty_y0 s then y else dirty_y0 s),
                dirty_x1 := (if x1 > dirty_x1 s then x1 else dirty_x1 s),
                dirty_y1 := (if y1 > dirty_y1 s then y1 else dirty_y1 s)\<rparr>)"

definition fb_mark_dirty :: "int \<Rightarrow> int \<Rightarrow> int \<Rightarrow> int \<Rightarrow> fb_state \<Rightarrow> fb_state" where
  "fb_mark_dirty x y w h s = dirty_add_locked x y w h s"

text \<open>\<open>None\<close> is the result \<^verbatim>\<open>false\<close>; otherwise the box is \<open>(x, y, w, h)\<close>.\<close>

definition fb_take_dirty :: "fb_state \<Rightarrow> (int \<times> int \<times> int \<times> int) option \<times> fb_state" where
  "fb_take_dirty s =
     (if dirty_x0 s < dirty_x1 s
      then (Some (dirty_x0 s, dirty_y0 s, s32 (dirty_x1 s - dirty_x0 s), s32 (dirty_y1 s - dirty_y0 s)),
            s\<lparr>dirty_x0 := 0, dirty_x1 := 0\<rparr>)
      else (None, s))"

definition fb_clear :: "u16 \<Rightarrow> fb_state \<Rightarrow> fb_state" where
  "fb_clear color s =
     dirty_add_locked 0 0 (FB_WIDTH s) (FB_HEIGHT s)
       (s\<lparr>fb := fold (\<lambda>i f. f[i := color]) [0..<nat (FB_WIDTH s * FB_HEIGHT s)] (fb s)\<rparr>)"

text \<open>The cast of a negative \<^verbatim>\<open>int\<close> to \<^verbatim>\<open>unsigned\<close> is a number above every width.\<close>

definition fb_put_pixel :: "int \<Rightarrow> int \<Rightarrow> u16 \<Rightarrow> fb_state \<Rightarrow> fb_state" where
  "fb_put_pixel x y color s =
     (if FB_WIDTH s \<le> uint (word_of_int x :: u32) \<or> FB_HEIGHT s \<le> uint (word_of_int y :: u32) then s
      else dirty_add_locked x y 1 1 (s\<lparr>fb := (fb s)[nat (y * FB_WIDTH s + x) := color]\<rparr>))"

text \<open>The doubly nested loop of the rectangle functions, writing \<open>p xx yy\<close>.\<close>

definition paint :: "int \<Rightarrow> (int \<Rightarrow> int \<Rightarrow> u16) \<Rightarrow> int \<Rightarrow> int \<Rightarrow> int \<Rightarrow> int \<Rightarrow> u16 list \<Rightarrow> u16 list" where
  "paint W p x x1 y y1 f =
     fold (\<lambda>yy. fold (\<lambda>xx g. g[nat (yy * W + xx) := p xx yy]) [x..x1 - 1]) [y..y1 - 1] f"

definition fb_fill_rect :: "int \<Rightarrow> int \<Rightarrow> int \<Rightarrow> int \<Rightarrow> u16 \<Rightarrow> fb_state \<Rightarrow> fb_state" where
  "fb_fill_rect x y w h color s =
     (let x1 = s32 (x + w);
          y1 = s32 (y + h);
          x = (if x < 0 then 0 else x);
          y = (if y < 0 then 0 else y);
          x1 = (if x1 > FB_WIDTH s then FB_WIDTH s else x1);
          y1 = (if y1 > FB_HEIGHT s then FB_HEIGHT s else y1)
      in dirty_add_locked x y (s32 (x1 - x)) (s32 (y1 - y))
           (s\<lparr>fb := paint (FB_WIDTH s) (\<lambda>_ _. color) x x1 y y1 (fb s)\<rparr>))"

definition bars :: "u16 list" where
  "bars = [fb_rgb 255 255 255, fb_rgb 255 255 0, fb_rgb 0 255 255, fb_rgb 0 255 0,
           fb_rgb 255 0 255, fb_rgb 255 0 0, fb_rgb 0 0 255, fb_rgb 0 0 0]"

definition pattern_pixel :: "fb_state \<Rightarrow> int \<Rightarrow> int \<Rightarrow> u16" where
  "pattern_pixel s x y =
     (if y < (FB_HEIGHT s * 2) div 3
      then let b = x div (FB_WIDTH s div 8) in bars ! nat (if b > 7 then 7 else b)
      else let g = word_of_int (x * 255 div (FB_WIDTH s - 1)) in fb_rgb g g g)"

definition fb_draw_pattern :: "int \<Rightarrow> int \<Rightarrow> int \<Rightarrow> int \<Rightarrow> fb_state \<Rightarrow> fb_state" where
  "fb_draw_pattern x y w h s =
     (let x1 = s32 (x + w);
          y1 = s32 (y + h);
          x = (if x < 0 then 0 else x);
          y = (if y < 0 then 0 else y);
          x1 = (if x1 > FB_WIDTH s then FB_WIDTH s else x1);
          y1 = (if y1 > FB_HEIGHT s then FB_HEIGHT s else y1)
      in dirty_add_locked x y (s32 (x1 - x)) (s32 (y1 - y))
           (s\<lparr>fb := paint (FB_WIDTH s) (pattern_pixel s) x x1 y y1 (fb s)\<rparr>))"

definition fb_test_pattern :: "fb_state \<Rightarrow> fb_state" where
  "fb_test_pattern s = fb_draw_pattern 0 0 (FB_WIDTH s) (FB_HEIGHT s) s"

section \<open>Pixels\<close>

definition pixel :: "fb_state \<Rightarrow> int \<Rightarrow> int \<Rightarrow> u16" where
  "pixel s X Y = fb s ! nat (Y * FB_WIDTH s + X)"

definition on_screen :: "fb_state \<Rightarrow> int \<Rightarrow> int \<Rightarrow> bool" where
  "on_screen s X Y \<longleftrightarrow> 0 \<le> X \<and> X < FB_WIDTH s \<and> 0 \<le> Y \<and> Y < FB_HEIGHT s"

text \<open>The geometry is sane: products of coordinates fit an \<^verbatim>\<open>int\<close>.\<close>

definition fb_inv :: "fb_state \<Rightarrow> bool" where
  "fb_inv s \<longleftrightarrow> 8 \<le> FB_WIDTH s \<and> FB_WIDTH s < 2 ^ 15 \<and> 0 < FB_HEIGHT s \<and> FB_HEIGHT s < 2 ^ 15 \<and>
     length (fb s) = nat (FB_WIDTH s * FB_HEIGHT s) \<and>
     (dirty_x0 s < dirty_x1 s \<longrightarrow>
        0 \<le> dirty_x0 s \<and> dirty_x1 s \<le> FB_WIDTH s \<and>
        0 \<le> dirty_y0 s \<and> dirty_y0 s < dirty_y1 s \<and> dirty_y1 s \<le> FB_HEIGHT s)"

lemma index_inj:
  fixes W :: int
  assumes "0 \<le> x" "x < W" "0 \<le> X" "X < W" "0 \<le> y" "0 \<le> Y"
  shows "nat (y * W + x) = nat (Y * W + X) \<longleftrightarrow> x = X \<and> y = Y"
proof
  have nn: "0 \<le> y * W + x" "0 \<le> Y * W + X" using assms by simp_all
  assume "nat (y * W + x) = nat (Y * W + X)"
  then have e: "y * W + x = Y * W + X" using nn by linarith
  have "(y * W + x) div W = y" "(Y * W + X) div W = Y" "(y * W + x) mod W = x" "(Y * W + X) mod W = X"
    using assms by simp_all
  then show "x = X \<and> y = Y" using e by metis
qed simp

lemma index_bound:
  fixes W :: int
  assumes "0 \<le> X" "X < W" "0 \<le> Y" "Y < H"
  shows "nat (Y * W + X) < nat (W * H)"
proof -
  have "Y * W + X < Y * W + W" using assms by simp
  also have "\<dots> = (Y + 1) * W" by (simp add: algebra_simps)
  also have "\<dots> \<le> H * W" using assms by (intro mult_right_mono) simp_all
  finally show ?thesis using assms by (simp add: mult.commute nat_less_iff)
qed

lemma paint_length [simp]: "length (paint W p x x1 y y1 f) = length f"
proof -
  have row: "length (fold (\<lambda>xx g. g[nat (yy * W + xx) := p xx yy]) xs g) = length g" for yy xs g
    by (induction xs arbitrary: g) auto
  have "length (fold (\<lambda>yy. fold (\<lambda>xx g. g[nat (yy * W + xx) := p xx yy]) [x..x1 - 1]) ys g) = length g"
    for ys g by (induction ys arbitrary: g) (auto simp: row)
  then show ?thesis by (simp add: paint_def)
qed

lemma paint_row:
  assumes "set xs \<subseteq> {0..<W}" "0 \<le> yy" "0 \<le> X" "X < W" "0 \<le> Y" "nat (Y * W + X) < length g"
  shows "fold (\<lambda>xx g. g[nat (yy * W + xx) := p xx yy]) xs g ! nat (Y * W + X) =
    (if Y = yy \<and> X \<in> set xs then p X Y else g ! nat (Y * W + X))"
  using assms
proof (induction xs arbitrary: g)
  case (Cons x xs)
  then show ?case by (auto simp: nth_upd index_inj)
qed simp

lemma paint_nth:
  assumes "0 \<le> x" "x1 \<le> W" "0 \<le> y" "0 \<le> X" "X < W" "0 \<le> Y" "nat (Y * W + X) < length f"
  shows "paint W p x x1 y y1 f ! nat (Y * W + X) =
    (if x \<le> X \<and> X < x1 \<and> y \<le> Y \<and> Y < y1 then p X Y else f ! nat (Y * W + X))"
proof -
  have row_length: "length (fold (\<lambda>xx g. g[nat (yy * W + xx) := p xx yy]) xs g) = length g" for yy xs g
    by (induction xs arbitrary: g) auto
  have "fold (\<lambda>yy. fold (\<lambda>xx g. g[nat (yy * W + xx) := p xx yy]) [x..x1 - 1]) ys g ! nat (Y * W + X) =
      (if Y \<in> set ys \<and> X \<in> {x..x1 - 1} then p X Y else g ! nat (Y * W + X))"
    if "set ys \<subseteq> {0..}" "length g = length f" for ys g
    using that
  proof (induction ys arbitrary: g)
    case (Cons y ys)
    have "set [x..x1 - 1] \<subseteq> {0..<W}" using assms(1,2) by auto
    then show ?case
      using assms Cons paint_row [of "[x..x1 - 1]" W y X Y g p]
      by (cases "Y = y") (simp_all add: row_length)
  qed simp
  from this [of "[y..y1 - 1]" f] show ?thesis
    using assms by (auto simp: paint_def)
qed

section \<open>The dirty rectangle\<close>

definition in_dirty :: "fb_state \<Rightarrow> int \<Rightarrow> int \<Rightarrow> bool" where
  "in_dirty s X Y \<longleftrightarrow> dirty_x0 s \<le> X \<and> X < dirty_x1 s \<and> dirty_y0 s \<le> Y \<and> Y < dirty_y1 s"

text \<open>Coordinates and sizes whose sums do not overflow.\<close>

definition rect_ok :: "int \<Rightarrow> int \<Rightarrow> int \<Rightarrow> int \<Rightarrow> bool" where
  "rect_ok x y w h \<longleftrightarrow> (\<forall>v \<in> {x, y, w, h}. - (2 ^ 30) \<le> v \<and> v < 2 ^ 30)"

definition in_rect :: "int \<Rightarrow> int \<Rightarrow> int \<Rightarrow> int \<Rightarrow> int \<Rightarrow> int \<Rightarrow> bool" where
  "in_rect x y w h X Y \<longleftrightarrow> x \<le> X \<and> X < x + w \<and> y \<le> Y \<and> Y < y + h"

lemma rect_ok_simps:
  assumes "rect_ok x y w h"
  shows "s32 (x + w) = x + w" "s32 (y + h) = y + h"
  using assms by (auto simp: rect_ok_def)

lemma dirty_add_frame [simp]:
  "fb (dirty_add_locked x y w h s) = fb s" "FB_WIDTH (dirty_add_locked x y w h s) = FB_WIDTH s"
  "FB_HEIGHT (dirty_add_locked x y w h s) = FB_HEIGHT s"
  "pixel (dirty_add_locked x y w h s) = pixel s"
  by (simp_all add: dirty_add_locked_def Let_def pixel_def fun_eq_iff)

lemma dirty_add_inv:
  assumes "fb_inv s" and "rect_ok x y w h"
  shows "fb_inv (dirty_add_locked x y w h s)"
  using assms(1) unfolding fb_inv_def dirty_add_locked_def Let_def rect_ok_simps [OF assms(2)]
  by auto

lemma dirty_add_eq:
  assumes "s32 (x + w) = x + w" and "s32 (y + h) = y + h"
  shows "dirty_add_locked x y w h s =
    (let lx = max 0 x; ly = max 0 y; hx = min (x + w) (FB_WIDTH s); hy = min (y + h) (FB_HEIGHT s)
     in if hx \<le> lx \<or> hy \<le> ly then s
        else if dirty_x1 s \<le> dirty_x0 s
        then s\<lparr>dirty_x0 := lx, dirty_y0 := ly, dirty_x1 := hx, dirty_y1 := hy\<rparr>
        else s\<lparr>dirty_x0 := min lx (dirty_x0 s), dirty_y0 := min ly (dirty_y0 s),
               dirty_x1 := max hx (dirty_x1 s), dirty_y1 := max hy (dirty_y1 s)\<rparr>)"
proof -
  have c: "(if x < 0 then 0 else x) = max 0 x" "(if y < 0 then 0 else y) = max 0 y"
    "(if x + w > FB_WIDTH s then FB_WIDTH s else x + w) = min (x + w) (FB_WIDTH s)"
    "(if y + h > FB_HEIGHT s then FB_HEIGHT s else y + h) = min (y + h) (FB_HEIGHT s)"
    by auto
  have mm: "(if a < b then a else b) = min a b" "(if a > b then a else b) = max a b" for a b :: int by auto
  show ?thesis unfolding dirty_add_locked_def Let_def assms c mm by (simp add: min.commute)
qed

lemma dirty_add_covers:
  assumes "rect_ok x y w h" and "on_screen s X Y"
    and "in_dirty s X Y \<or> in_rect x y w h X Y"
  shows "in_dirty (dirty_add_locked x y w h s) X Y"
proof -
  define lx ly hx hy where d: "lx = max 0 x" "ly = max 0 y" "hx = min (x + w) (FB_WIDTH s)"
    "hy = min (y + h) (FB_HEIGHT s)"
  have r: "lx \<le> X \<and> X < hx \<and> ly \<le> Y \<and> Y < hy" if "in_rect x y w h X Y"
    using that assms(2) by (simp add: d in_rect_def on_screen_def)
  show ?thesis
    using assms(3) r unfolding dirty_add_eq [OF rect_ok_simps [OF assms(1)]] Let_def in_dirty_def d(1-4) [symmetric]
    by (elim disjE) (simp_all add: min_le_iff_disj less_max_iff_disj)
qed

text \<open>What a rectangle function does: paint the visible part, mark it.\<close>

definition draw_rect :: "(int \<Rightarrow> int \<Rightarrow> u16) \<Rightarrow> int \<Rightarrow> int \<Rightarrow> int \<Rightarrow> int \<Rightarrow> fb_state \<Rightarrow> fb_state" where
  "draw_rect p x y w h s =
     dirty_add_locked x y w h
       (s\<lparr>fb := paint (FB_WIDTH s) p (max 0 x) (min (x + w) (FB_WIDTH s)) (max 0 y) (min (y + h) (FB_HEIGHT s)) (fb s)\<rparr>)"

lemma dirty_add_clip:
  assumes "fb_inv s" and "rect_ok x y w h"
  shows "dirty_add_locked (max 0 x) (max 0 y) (s32 (min (x + w) (FB_WIDTH s) - max 0 x))
      (s32 (min (y + h) (FB_HEIGHT s) - max 0 y)) s = dirty_add_locked x y w h s"
proof -
  have b: "- 2147483648 \<le> min (x + w) (FB_WIDTH s) - max 0 x" "min (x + w) (FB_WIDTH s) - max 0 x < 2147483648"
    "- 2147483648 \<le> min (y + h) (FB_HEIGHT s) - max 0 y" "min (y + h) (FB_HEIGHT s) - max 0 y < 2147483648"
    "- 2147483648 \<le> min (x + w) (FB_WIDTH s)" "min (x + w) (FB_WIDTH s) < 2147483648"
    "- 2147483648 \<le> min (y + h) (FB_HEIGHT s)" "min (y + h) (FB_HEIGHT s) < 2147483648"
    using assms unfolding fb_inv_def rect_ok_def by auto
  have sum: "max 0 x + (min (x + w) (FB_WIDTH s) - max 0 x) = min (x + w) (FB_WIDTH s)"
    "max 0 y + (min (y + h) (FB_HEIGHT s) - max 0 y) = min (y + h) (FB_HEIGHT s)" by simp_all
  show ?thesis
    unfolding s32_id [OF b(1,2)] s32_id [OF b(3,4)] dirty_add_eq [OF rect_ok_simps [OF assms(2)]]
    by (subst dirty_add_eq) (simp_all only: sum s32_id [OF b(5,6)] s32_id [OF b(7,8)] Let_def
        max.left_idem min.right_idem)
qed

lemma fill_draw:
  assumes "fb_inv s" and "rect_ok x y w h"
  shows "fb_fill_rect x y w h color s = draw_rect (\<lambda>_ _. color) x y w h s"
    and "fb_draw_pattern x y w h s = draw_rect (pattern_pixel s) x y w h s"
proof -
  have c: "(if x < 0 then 0 else x) = max 0 x" "(if y < 0 then 0 else y) = max 0 y"
    "(if x + w > FB_WIDTH s then FB_WIDTH s else x + w) = min (x + w) (FB_WIDTH s)"
    "(if y + h > FB_HEIGHT s then FB_HEIGHT s else y + h) = min (y + h) (FB_HEIGHT s)"
    by auto
  have i: "fb_inv (s\<lparr>fb := paint W p a b c d (fb s)\<rparr>)" for W p a b c d
    using assms(1) by (simp add: fb_inv_def)
  show "fb_fill_rect x y w h color s = draw_rect (\<lambda>_ _. color) x y w h s"
    unfolding fb_fill_rect_def draw_rect_def Let_def rect_ok_simps [OF assms(2)] c
    using dirty_add_clip [OF i assms(2)] by simp
  show "fb_draw_pattern x y w h s = draw_rect (pattern_pixel s) x y w h s"
    unfolding fb_draw_pattern_def draw_rect_def Let_def rect_ok_simps [OF assms(2)] c
    using dirty_add_clip [OF i assms(2)] by simp
qed

lemma draw_rect_pixel:
  assumes "fb_inv s" and "on_screen s X Y"
  shows "pixel (draw_rect p x y w h s) X Y = (if in_rect x y w h X Y then p X Y else pixel s X Y)"
proof -
  have "nat (Y * FB_WIDTH s + X) < length (fb s)"
    using assms index_bound [of X "FB_WIDTH s" Y "FB_HEIGHT s"] by (simp add: fb_inv_def on_screen_def)
  then show ?thesis
    using assms(2) unfolding draw_rect_def dirty_add_frame
    by (auto simp: pixel_def paint_nth on_screen_def in_rect_def)
qed

section \<open>Sequences of drawing operations\<close>

datatype fb_op =
    FbClear u16
  | FbPut int int u16
  | FbFill int int int int u16
  | FbPattern int int int int
  | FbTest
  | FbMark int int int int

fun fb_exec :: "fb_op \<Rightarrow> fb_state \<Rightarrow> fb_state" where
  "fb_exec (FbClear c) s = fb_clear c s"
| "fb_exec (FbPut x y c) s = fb_put_pixel x y c s"
| "fb_exec (FbFill x y w h c) s = fb_fill_rect x y w h c s"
| "fb_exec (FbPattern x y w h) s = fb_draw_pattern x y w h s"
| "fb_exec FbTest s = fb_test_pattern s"
| "fb_exec (FbMark x y w h) s = fb_mark_dirty x y w h s"

fun fb_op_ok :: "fb_op \<Rightarrow> bool" where
  "fb_op_ok (FbPut x y c) = rect_ok x y 1 1"
| "fb_op_ok (FbFill x y w h c) = rect_ok x y w h"
| "fb_op_ok (FbPattern x y w h) = rect_ok x y w h"
| "fb_op_ok (FbMark x y w h) = rect_ok x y w h"
| "fb_op_ok _ = True"

text \<open>Every drawing operation paints some rectangle and marks at least that rectangle.\<close>

lemma rect_ok_screen: "fb_inv s \<Longrightarrow> rect_ok 0 0 (FB_WIDTH s) (FB_HEIGHT s)"
  by (simp add: fb_inv_def rect_ok_def)

lemma fold_fill:
  "k \<le> length f \<Longrightarrow> fold (\<lambda>i g. g[i := c]) [0..<k] f = replicate k c @ drop k f"
proof (induction k)
  case (Suc k)
  then have d: "drop k f = f ! k # drop (Suc k) f" by (simp add: Cons_nth_drop_Suc)
  show ?case using Suc by (simp add: d list_update_append replicate_app_Cons_same)
qed simp

lemma clear_fb:
  assumes "fb_inv s"
  shows "fold (\<lambda>i f. f[i := c]) [0..<nat (FB_WIDTH s * FB_HEIGHT s)] (fb s) =
    replicate (nat (FB_WIDTH s * FB_HEIGHT s)) c"
  using assms by (subst fold_fill) (simp_all add: fb_inv_def)

lemma put_in_range:
  fixes W :: int
  assumes "- (2 ^ 30) \<le> x" "x < 2 ^ 30" "W < 2 ^ 15"
  shows "W \<le> uint (word_of_int x :: u32) \<longleftrightarrow> x < 0 \<or> W \<le> x"
proof (cases "x < 0")
  case True
  have "(2 ^ 32 + x) mod 2 ^ 32 = 2 ^ 32 + x" using assms True by (intro mod_pos_pos_trivial) simp_all
  then have "x mod 2 ^ 32 = 2 ^ 32 + x" by simp
  then show ?thesis using assms True by (simp add: uint_word_of_int)
next
  case False
  then show ?thesis using assms by (simp add: uint_word_of_int)
qed

definition tracked :: "fb_state \<Rightarrow> fb_state \<Rightarrow> bool" where
  "tracked s t \<longleftrightarrow> fb_inv t \<and> FB_WIDTH t = FB_WIDTH s \<and> FB_HEIGHT t = FB_HEIGHT s \<and>
     (\<forall>X Y. on_screen s X Y \<longrightarrow> in_dirty s X Y \<or> pixel t X Y \<noteq> pixel s X Y \<longrightarrow> in_dirty t X Y)"

lemma tracked_refl: "fb_inv s \<Longrightarrow> tracked s s"
  by (simp add: tracked_def)

lemma tracked_trans: "tracked s t \<Longrightarrow> tracked t u \<Longrightarrow> tracked s u"
  unfolding tracked_def on_screen_def by metis

lemma tracked_draw:
  assumes "fb_inv s" and "rect_ok x y w h"
  shows "tracked s (draw_rect p x y w h s)"
proof -
  let ?s = "s\<lparr>fb := paint (FB_WIDTH s) p (max 0 x) (min (x + w) (FB_WIDTH s)) (max 0 y) (min (y + h) (FB_HEIGHT s)) (fb s)\<rparr>"
  have "fb_inv ?s" using assms(1) by (simp add: fb_inv_def)
  then have i: "fb_inv (draw_rect p x y w h s)"
    unfolding draw_rect_def using dirty_add_inv assms(2) by simp
  have "in_dirty (draw_rect p x y w h s) X Y"
    if "on_screen s X Y" "in_dirty s X Y \<or> pixel (draw_rect p x y w h s) X Y \<noteq> pixel s X Y" for X Y
    using that draw_rect_pixel [OF assms(1) that(1), of p x y w h] unfolding draw_rect_def
    by (intro dirty_add_covers [OF assms(2)]) (auto simp: on_screen_def in_dirty_def split: if_splits)
  with i show ?thesis by (simp add: tracked_def draw_rect_def)
qed

lemma put_draw:
  assumes "fb_inv s" and "rect_ok x y 1 1"
  shows "fb_put_pixel x y c s = s \<or> fb_put_pixel x y c s = draw_rect (\<lambda>_ _. c) x y 1 1 s"
proof (cases "on_screen s x y")
  case True
  then have "paint (FB_WIDTH s) (\<lambda>_ _. c) (max 0 x) (min (x + 1) (FB_WIDTH s)) (max 0 y) (min (y + 1) (FB_HEIGHT s)) (fb s)
      = (fb s)[nat (y * FB_WIDTH s + x) := c]"
    by (simp add: paint_def on_screen_def max_def min_def)
  then show ?thesis
    by (simp add: fb_put_pixel_def draw_rect_def)
next
  case False
  then show ?thesis
    using assms put_in_range [of x "FB_WIDTH s"] put_in_range [of y "FB_HEIGHT s"]
    by (auto simp: fb_put_pixel_def on_screen_def fb_inv_def rect_ok_def)
qed

lemma tracked_clear:
  assumes "fb_inv s"
  shows "tracked s (fb_clear c s)" and "on_screen s X Y \<Longrightarrow> pixel (fb_clear c s) X Y = c"
proof -
  let ?s = "s\<lparr>fb := replicate (nat (FB_WIDTH s * FB_HEIGHT s)) c\<rparr>"
  have e: "fb_clear c s = dirty_add_locked 0 0 (FB_WIDTH s) (FB_HEIGHT s) ?s"
    unfolding fb_clear_def clear_fb [OF assms] ..
  have i: "fb_inv ?s" using assms by (simp add: fb_inv_def)
  have "in_dirty (fb_clear c s) X Y" if "on_screen s X Y" for X Y
    unfolding e by (rule dirty_add_covers [OF rect_ok_screen [OF assms]])
      (use that in \<open>simp_all add: on_screen_def in_rect_def\<close>)
  then show "tracked s (fb_clear c s)"
    using dirty_add_inv [OF i rect_ok_screen [OF assms]] by (simp add: tracked_def e)
  show "pixel (fb_clear c s) X Y = c" if "on_screen s X Y"
    using that index_bound [of X "FB_WIDTH s" Y "FB_HEIGHT s"]
    by (simp add: e) (simp add: pixel_def on_screen_def)
qed

lemma tracked_exec:
  assumes "fb_inv s" and "fb_op_ok p"
  shows "tracked s (fb_exec p s)"
proof (cases p)
  case (FbMark x y w h)
  then show ?thesis
    using assms dirty_add_inv [OF assms(1), of x y w h] dirty_add_covers [of x y w h s]
    by (auto simp: tracked_def fb_mark_dirty_def)
next
  case (FbPut x y c)
  then show ?thesis
    using assms put_draw [OF assms(1), of x y c] tracked_draw [OF assms(1), of x y 1 1]
      tracked_refl [OF assms(1)] by auto
qed (use assms in \<open>simp_all add: tracked_clear fill_draw tracked_draw fb_test_pattern_def rect_ok_screen\<close>)

lemma tracked_run:
  "fb_inv s \<Longrightarrow> list_all fb_op_ok ps \<Longrightarrow> tracked s (fold fb_exec ps s)"
proof (induction ps arbitrary: s)
  case (Cons p ps)
  then have "tracked s (fb_exec p s)" by (simp add: tracked_exec)
  moreover from this have "tracked (fb_exec p s) (fold fb_exec ps (fb_exec p s))"
    using Cons by (simp add: tracked_def)
  ultimately show ?case using tracked_trans by simp
qed (simp add: tracked_refl)

section \<open>Properties\<close>

definition sample_fb :: fb_state where
  "sample_fb = \<lparr>FB_WIDTH = 16, FB_HEIGHT = 8, fb = replicate 128 0,
     dirty_x0 = 0, dirty_y0 = 0, dirty_x1 = 0, dirty_y1 = 0\<rparr>"

lemma sample_fb_inv: "fb_inv sample_fb"
  by (simp add: sample_fb_def fb_inv_def)

text \<open>
  Filling a rectangle sets exactly the pixels of its visible part, for every position and
  size whose sums fit an \<^verbatim>\<open>int\<close>, and stays inside the framebuffer array.
\<close>

theorem fill_rect_exact:
  assumes "fb_inv s" and "rect_ok x y w h"
  shows "fb_inv (fb_fill_rect x y w h c s) \<and>
    (\<forall>X Y. on_screen s X Y \<longrightarrow>
       pixel (fb_fill_rect x y w h c s) X Y = (if in_rect x y w h X Y then c else pixel s X Y))"
  using tracked_draw [OF assms] draw_rect_pixel [OF assms(1)] by (simp add: fill_draw [OF assms] tracked_def)

theorem fill_rect_witness: "pixel (fb_fill_rect (-3) 2 5 100 7 sample_fb) 1 5 = 7"
  using fill_rect_exact [OF sample_fb_inv, of "-3" 2 5 100 7]
  by (simp add: rect_ok_def on_screen_def in_rect_def sample_fb_def)

text \<open>
  C14: the dirty rectangle never loses a change.  After any sequence of drawing operations
  since the box was last taken, \<^verbatim>\<open>fb_take_dirty\<close> either reports a non-empty box inside the
  screen that contains every pixel that differs, or reports nothing and no pixel differs; the
  box is empty afterwards.
\<close>

theorem dirty_box_sound:
  assumes "fb_inv s" and "dirty_x1 s \<le> dirty_x0 s" and "list_all fb_op_ok ps"
  shows "let t = fold fb_exec ps s; (box, t') = fb_take_dirty t in
    dirty_x1 t' \<le> dirty_x0 t' \<and> fb t' = fb t \<and>
    (case box of
       None \<Rightarrow> \<forall>X Y. on_screen s X Y \<longrightarrow> pixel t X Y = pixel s X Y
     | Some (x, y, w, h) \<Rightarrow> 0 \<le> x \<and> 0 < w \<and> x + w \<le> FB_WIDTH s \<and> 0 \<le> y \<and> 0 < h \<and> y + h \<le> FB_HEIGHT s \<and>
         (\<forall>X Y. on_screen s X Y \<longrightarrow> pixel t X Y \<noteq> pixel s X Y \<longrightarrow> in_rect x y w h X Y))"
proof -
  let ?t = "fold fb_exec ps s"
  have tr: "tracked s ?t" by (rule tracked_run [OF assms(1,3)])
  show ?thesis
  proof (cases "dirty_x0 ?t < dirty_x1 ?t")
    case True
    have b: "s32 (dirty_x1 ?t - dirty_x0 ?t) = dirty_x1 ?t - dirty_x0 ?t"
      "s32 (dirty_y1 ?t - dirty_y0 ?t) = dirty_y1 ?t - dirty_y0 ?t"
      using tr True by (simp_all add: tracked_def fb_inv_def)
    show ?thesis
      using tr True unfolding fb_take_dirty_def b
      by (auto simp: tracked_def fb_inv_def in_dirty_def in_rect_def Let_def)
  next
    case False
    then have "pixel ?t X Y = pixel s X Y" if "on_screen s X Y" for X Y
      using tr that unfolding tracked_def in_dirty_def by fastforce
    then show ?thesis using False by (simp add: fb_take_dirty_def Let_def)
  qed
qed

theorem dirty_box_witness:
  "let t = fold fb_exec [FbFill (-3) 2 5 100 7, FbPut 9 1 5] sample_fb
   in case fst (fb_take_dirty t) of
        None \<Rightarrow> \<forall>X Y. on_screen sample_fb X Y \<longrightarrow> pixel t X Y = pixel sample_fb X Y
      | Some (x, y, w, h) \<Rightarrow> 0 < w \<and> 0 < h"
  using dirty_box_sound [OF sample_fb_inv, of "[FbFill (-3) 2 5 100 7, FbPut 9 1 5]"]
  by (auto simp: rect_ok_def sample_fb_def Let_def case_prod_beta split: option.splits)

end
