(* ===== verification/Vnc_Pixel.thy ===== *)
theory Vnc_Pixel
  imports Klauss_Prelude
begin

unbundle bit_operations_syntax

text \<open>
  Byte order helpers and pixel conversion of \<^verbatim>\<open>vnc/vnc_server.c\<close>: the decoded RFB pixel
  format, the per-channel look-up tables, the bytes of one pixel in the client's format, and
  the test that lets rows be copied without conversion.
\<close>

section \<open>Bytes\<close>

definition be16 :: "u16 \<Rightarrow> u8 list" where
  "be16 v = [ucast (drop_bit 8 v), ucast v]"

definition be32 :: "u32 \<Rightarrow> u8 list" where
  "be32 v = [ucast (drop_bit 24 v), ucast (drop_bit 16 v), ucast (drop_bit 8 v), ucast v]"

definition rd16 :: "u8 list \<Rightarrow> u16" where
  "rd16 p = push_bit 8 (ucast (p ! 0)) OR ucast (p ! 1)"

definition rd32 :: "u8 list \<Rightarrow> u32" where
  "rd32 p = push_bit 24 (ucast (p ! 0)) OR push_bit 16 (ucast (p ! 1)) OR
            push_bit 8 (ucast (p ! 2)) OR ucast (p ! 3)"

lemma be16_length [simp]: "length (be16 v) = 2"
  by (simp add: be16_def)

lemma be32_length [simp]: "length (be32 v) = 4"
  by (simp add: be32_def)

lemma rd16_be16 [simp]: "rd16 (be16 v @ xs) = v"
  by (simp add: rd16_def be16_def) (auto simp: bit_eq_iff bit_simps)

lemma rd32_be32 [simp]: "rd32 (be32 v @ xs) = v"
proof (rule bit_word_eqI)
  fix n assume "n < LENGTH(32)"
  then consider "n < 8" | "8 \<le> n" "n < 16" | "16 \<le> n" "n < 24" | "24 \<le> n" "n < 32" by fastforce
  then show "bit (rd32 (be32 v @ xs)) n = bit v n"
    by cases (auto simp: rd32_def be32_def bit_simps)
qed

section \<open>Pixel format\<close>

record pixfmt =
  bpp :: u8
  depth :: u8
  big_endian :: u8
  true_colour :: u8
  red_max :: u16
  green_max :: u16
  blue_max :: u16
  red_shift :: u8
  green_shift :: u8
  blue_shift :: u8

definition native_fmt :: pixfmt where
  "native_fmt = \<lparr>bpp = 16, depth = 16, big_endian = 0, true_colour = 1,
     red_max = 31, green_max = 63, blue_max = 31,
     red_shift = 11, green_shift = 5, blue_shift = 0\<rparr>"

definition parse_pixfmt :: "u8 list \<Rightarrow> pixfmt" where
  "parse_pixfmt p = \<lparr>bpp = p ! 0, depth = p ! 1, big_endian = p ! 2, true_colour = p ! 3,
     red_max = rd16 (drop 4 p), green_max = rd16 (drop 6 p), blue_max = rd16 (drop 8 p),
     red_shift = p ! 10, green_shift = p ! 11, blue_shift = p ! 12\<rparr>"

text \<open>The sixteen bytes that \<^verbatim>\<open>send_server_init\<close> writes for a format.\<close>

definition pixfmt_bytes :: "pixfmt \<Rightarrow> u8 list" where
  "pixfmt_bytes f = [bpp f, depth f, big_endian f, true_colour f] @
     be16 (red_max f) @ be16 (green_max f) @ be16 (blue_max f) @
     [red_shift f, green_shift f, blue_shift f, 0, 0, 0]"

definition DESKTOP_NAME :: "u8 list" where
  "DESKTOP_NAME = map (of_char :: char \<Rightarrow> u8) ''KlaussCPU''"

definition send_server_init :: "u16 \<Rightarrow> u16 \<Rightarrow> u8 list" where
  "send_server_init width height =
     be16 width @ be16 height @ pixfmt_bytes native_fmt @
     be32 (of_nat (length DESKTOP_NAME)) @ DESKTOP_NAME"

text \<open>
  The tables, and whether the format is the framebuffer's own.  A shift of 32 or more, which
  C leaves undefined, makes the entry zero here; no property below relies on it.
\<close>

record luts =
  lut_r :: "u32 list"
  lut_g :: "u32 list"
  lut_b :: "u32 list"
  fmt_native :: bool

definition scale_channel :: "u8 \<Rightarrow> u16 \<Rightarrow> u8 \<Rightarrow> u32" where
  "scale_channel c8 mx sh = push_bit (unat sh) ((ucast c8 * ucast mx + 127) div 255)"

definition c8_of_5 :: "nat \<Rightarrow> u8" where
  "c8_of_5 i = of_nat (i * 8) OR of_nat (i div 4)"

definition c8_of_6 :: "nat \<Rightarrow> u8" where
  "c8_of_6 i = of_nat (i * 4) OR of_nat (i div 16)"

definition build_luts :: "pixfmt \<Rightarrow> luts" where
  "build_luts f =
     \<lparr>lut_r = map (\<lambda>i. scale_channel (c8_of_5 i) (red_max f) (red_shift f)) [0..<32],
      lut_g = map (\<lambda>i. scale_channel (c8_of_6 i) (green_max f) (green_shift f)) [0..<64],
      lut_b = map (\<lambda>i. scale_channel (c8_of_5 i) (blue_max f) (blue_shift f)) [0..<32],
      fmt_native = (bpp f = 16 \<and> big_endian f = 0 \<and>
        red_max f = 31 \<and> green_max f = 63 \<and> blue_max f = 31 \<and>
        red_shift f = 11 \<and> green_shift f = 5 \<and> blue_shift f = 0)\<rparr>"

definition convert_pixel :: "luts \<Rightarrow> u16 \<Rightarrow> u32" where
  "convert_pixel l px =
     lut_r l ! unat (drop_bit 11 px AND 0x1F) OR lut_g l ! unat (drop_bit 5 px AND 0x3F) OR
     lut_b l ! unat (px AND 0x1F)"

definition put_pixel_bytes :: "u32 \<Rightarrow> nat \<Rightarrow> bool \<Rightarrow> u8 list" where
  "put_pixel_bytes v bytes be =
     (if be then map (\<lambda>i. ucast (drop_bit (8 * (bytes - 1 - i)) v)) [0..<bytes]
      else map (\<lambda>i. ucast (drop_bit (8 * i) v)) [0..<bytes])"

text \<open>The two bytes a 16-bit pixel has in the (little-endian) framebuffer.\<close>

definition native_bytes :: "u16 \<Rightarrow> u8 list" where
  "native_bytes px = [ucast px, ucast (drop_bit 8 px)]"

definition emit_px :: "luts \<Rightarrow> pixfmt \<Rightarrow> nat \<Rightarrow> u16 \<Rightarrow> u8 list" where
  "emit_px l f bytes px = put_pixel_bytes (convert_pixel l px) bytes (big_endian f \<noteq> 0)"

lemma put_pixel_bytes_length [simp]: "length (put_pixel_bytes v n be) = n"
  by (simp add: put_pixel_bytes_def)

lemma emit_px_length [simp]: "length (emit_px l f n px) = n"
  by (simp add: emit_px_def)

definition rect_isect :: "int \<Rightarrow> int \<Rightarrow> int \<Rightarrow> int \<Rightarrow> int \<Rightarrow> int \<Rightarrow> int \<Rightarrow> int \<Rightarrow> (int \<times> int \<times> int \<times> int) option" where
  "rect_isect ax ay aw ah bx by' bw bh =
     (let x0 = max ax bx; y0 = max ay by';
          x1 = min (s32 (ax + aw)) (s32 (bx + bw)); y1 = min (s32 (ay + ah)) (s32 (by' + bh))
      in if x0 \<ge> x1 \<or> y0 \<ge> y1 then None else Some (x0, y0, s32 (x1 - x0), s32 (y1 - y0)))"

section \<open>Lemmas\<close>

lemma scale5: "i < 32 \<Longrightarrow> scale_channel (c8_of_5 i) 31 sh = push_bit (unat sh) (of_nat i)"
proof -
  have "list_all (\<lambda>i. (ucast (c8_of_5 i) * ucast (31 :: u16) + 127) div 255 = (of_nat i :: u32)) [0..<32]"
    by code_simp
  then show "i < 32 \<Longrightarrow> ?thesis" by (simp add: scale_channel_def list_all_iff)
qed

lemma scale6: "i < 64 \<Longrightarrow> scale_channel (c8_of_6 i) 63 sh = push_bit (unat sh) (of_nat i)"
proof -
  have "list_all (\<lambda>i. (ucast (c8_of_6 i) * ucast (63 :: u16) + 127) div 255 = (of_nat i :: u32)) [0..<64]"
    by code_simp
  then show "i < 64 \<Longrightarrow> ?thesis" by (simp add: scale_channel_def list_all_iff)
qed

lemma mask_less:
  "unat (px AND 0x1F :: u16) < 32" "unat (px AND 0x3F :: u16) < 64"
proof -
  have "px AND mask 5 < (2 :: u16) ^ 5" "px AND mask 6 < (2 :: u16) ^ 6"
    by (rule and_mask_less', simp)+
  then show "unat (px AND 0x1F :: u16) < 32" "unat (px AND 0x3F :: u16) < 64"
    by (simp_all add: mask_eq_exp_minus_1 word_less_nat_alt)
qed

lemma native_convert:
  assumes "fmt_native (build_luts f)"
  shows "convert_pixel (build_luts f) px = ucast px"
proof -
  have l: "convert_pixel (build_luts f) px =
      push_bit 11 (of_nat (unat (drop_bit 11 px AND 0x1F))) OR
      push_bit 5 (of_nat (unat (drop_bit 5 px AND 0x3F))) OR of_nat (unat (px AND 0x1F))"
    using assms mask_less by (simp add: build_luts_def convert_pixel_def scale5 scale6)
  have m: "(0x1F :: u16) = mask 5" "(0x3F :: u16) = mask 6" by (simp_all add: mask_eq_exp_minus_1)
  have u: "of_nat (unat w) = (ucast w :: u32)" for w :: u16 by simp
  show ?thesis unfolding l m u
  proof (rule bit_word_eqI)
    fix n :: nat
    consider "n < 5" | "5 \<le> n" "n < 11" | "11 \<le> n" "n < 16" | "16 \<le> n" by fastforce
    then show "bit (push_bit 11 (ucast (drop_bit 11 px AND mask 5)) OR
        push_bit 5 (ucast (drop_bit 5 px AND mask 6)) OR ucast (px AND mask 5) :: u32) n = bit (ucast px :: u32) n"
      using bit_imp_le_length [of px n] by cases (auto simp: bit_simps)
  qed
qed

lemma native_emit:
  assumes "fmt_native (build_luts f)"
  shows "emit_px (build_luts f) f 2 px = native_bytes px" and "unat (bpp f) div 8 = 2"
proof -
  have f: "bpp f = 16" "big_endian f = 0" using assms by (simp_all add: build_luts_def)
  show "emit_px (build_luts f) f 2 px = native_bytes px"
    unfolding emit_px_def native_convert [OF assms]
    by (simp add: f put_pixel_bytes_def native_bytes_def upt_rec numeral_2_eq_2 [symmetric])
      (auto simp: bit_eq_iff bit_simps)
  show "unat (bpp f) div 8 = 2" by (simp add: f)
qed

lemma parse_pixfmt_bytes: "parse_pixfmt (pixfmt_bytes f @ xs) = f"
  by (simp add: parse_pixfmt_def pixfmt_bytes_def be16_def)
    (auto intro!: pixfmt.equality simp: rd16_def bit_eq_iff bit_simps)

end
