(* ===== verification/Vnc_Hextile.thy ===== *)
theory Vnc_Hextile
  imports Framebuffer Vnc_Pixel
begin

unbundle bit_operations_syntax

text \<open>
  The Hextile encoder of \<^verbatim>\<open>vnc/vnc_server.c\<close>: classification of a tile, the solid,
  two-colour and raw encodings, and the batching of tiles into the send buffer.  A decoder
  written from the protocol (RFC 6143, 7.7.4) is the reference: what a client decodes is the
  converted contents of the framebuffer.
\<close>

section \<open>Encoder\<close>

definition HT_RAW :: u8 where "HT_RAW = 0x01"
definition HT_BG :: u8 where "HT_BG = 0x02"
definition HT_FG :: u8 where "HT_FG = 0x04"
definition HT_SUBRECTS :: u8 where "HT_SUBRECTS = 0x08"

definition HT_TILE_MAX :: nat where "HT_TILE_MAX = 1 + 16 * 16 * 4"
definition SENDBUF_SZ :: nat where "SENDBUF_SZ = 64 * 1024"
definition HT_RETRY :: u32 where "HT_RETRY = 32"

text \<open>The pixels the pointer \<^verbatim>\<open>rp\<close> ranges over in a row, and the rows of a tile.\<close>

definition fb_row :: "fb_state \<Rightarrow> int \<Rightarrow> int \<Rightarrow> nat \<Rightarrow> u16 list" where
  "fb_row s tx y tw = map (\<lambda>c. fb s ! nat (y * FB_WIDTH s + tx + int c)) [0..<tw]"

definition tile_rows :: "fb_state \<Rightarrow> int \<Rightarrow> int \<Rightarrow> nat \<Rightarrow> nat \<Rightarrow> u16 list list" where
  "tile_rows s tx ty tw th = map (\<lambda>r. fb_row s tx (ty + int r) tw) [0..<th]"

text \<open>The classification loop; the state is \<open>(c1, n0, ncol)\<close>.\<close>

fun ht_scan_row :: "u16 \<Rightarrow> u16 list \<Rightarrow> u16 \<times> nat \<times> nat \<Rightarrow> u16 \<times> nat \<times> nat" where
  "ht_scan_row c0 [] st = st"
| "ht_scan_row c0 (px # rp) (c1, n0, ncol) =
     (if px = c0 then ht_scan_row c0 rp (c1, Suc n0, ncol)
      else if ncol = 1 then ht_scan_row c0 rp (px, n0, 2)
      else if px \<noteq> c1 then (c1, n0, 3)
      else ht_scan_row c0 rp (c1, n0, ncol))"

fun ht_scan :: "u16 \<Rightarrow> u16 list list \<Rightarrow> u16 \<times> nat \<times> nat \<Rightarrow> u16 \<times> nat \<times> nat" where
  "ht_scan c0 [] st = st"
| "ht_scan c0 (r # rs) st =
     (if snd (snd st) \<le> 2 then ht_scan c0 rs (ht_scan_row c0 r st) else st)"

text \<open>The runs of the foreground colour in a row: start column, length minus one.\<close>

fun ht_runs :: "u16 \<Rightarrow> nat \<Rightarrow> u16 list \<Rightarrow> (nat \<times> nat) list" where
  "ht_runs fg c [] = []"
| "ht_runs fg c (p # ps) =
     (if p \<noteq> fg then ht_runs fg (Suc c) ps
      else let k = length (takeWhile ((=) fg) ps)
           in (c, k) # ht_runs fg (Suc c + k) (drop k ps))"

definition run_bytes :: "nat \<Rightarrow> nat \<times> nat \<Rightarrow> u8 list" where
  "run_bytes r ck = [push_bit 4 (of_nat (fst ck)) OR of_nat r, push_bit 4 (of_nat (snd ck))]"

definition tile_runs :: "u16 \<Rightarrow> u16 list list \<Rightarrow> (nat \<times> nat \<times> nat) list" where
  "tile_runs fg rows = concat (map (\<lambda>r. map (\<lambda>ck. (r, ck)) (ht_runs fg 0 (rows ! r))) [0..<length rows])"

definition encode_tile :: "luts \<Rightarrow> pixfmt \<Rightarrow> nat \<Rightarrow> nat \<Rightarrow> nat \<Rightarrow> u16 list list \<Rightarrow> u8 list" where
  "encode_tile l f bytes tw th rows =
     (let c0 = rows ! 0 ! 0;
          (c1, n0, ncol) = ht_scan c0 rows (0, 0, 1)
      in if ncol = 1 then HT_BG # emit_px l f bytes c0
         else if ncol = 2 then
           let (bg, fg) = (if 2 * n0 < tw * th then (c1, c0) else (c0, c1));
               runs = tile_runs fg rows
           in (HT_BG OR HT_FG OR HT_SUBRECTS) # emit_px l f bytes bg @ emit_px l f bytes fg @
              of_nat (length runs) # concat (map (\<lambda>(r, ck). run_bytes r ck) runs)
         else HT_RAW # concat (map (\<lambda>row. if fmt_native l then concat (map native_bytes row)
                                           else concat (map (emit_px l f bytes) row)) rows))"

definition hextile_tile :: "fb_state \<Rightarrow> luts \<Rightarrow> pixfmt \<Rightarrow> nat \<Rightarrow> int \<Rightarrow> int \<Rightarrow> nat \<Rightarrow> nat \<Rightarrow> u8 list" where
  "hextile_tile s l f bytes tx ty tw th = encode_tile l f bytes tw th (tile_rows s tx ty tw th)"

text \<open>The loops \<^verbatim>\<open>for (t = a; t < b; t += 16)\<close> with \<^verbatim>\<open>MIN(16, b - t)\<close>.\<close>

function ht_steps :: "int \<Rightarrow> int \<Rightarrow> (int \<times> nat) list" where
  "ht_steps a b = (if a < b then (a, nat (min 16 (b - a))) # ht_steps (a + 16) b else [])"
  by pat_completeness auto
termination by (relation "measure (\<lambda>(a, b). nat (b - a))") auto

declare ht_steps.simps [simp del]

definition ht_tiles :: "int \<Rightarrow> int \<Rightarrow> int \<Rightarrow> int \<Rightarrow> (int \<times> int \<times> nat \<times> nat) list" where
  "ht_tiles x y w h =
     concat (map (\<lambda>(ty, th). map (\<lambda>(tx, tw). (tx, ty, tw, th)) (ht_steps x (x + w))) (ht_steps y (y + h)))"

text \<open>The send buffer: the chunks in the order they are sent.\<close>

fun ht_batch :: "u8 list \<Rightarrow> u8 list list \<Rightarrow> u8 list list" where
  "ht_batch buf [] = (if buf \<noteq> [] then [buf] else [])"
| "ht_batch buf (t # ts) =
     (if length buf + HT_TILE_MAX > SENDBUF_SZ then buf # ht_batch t ts else ht_batch (buf @ t) ts)"

definition rect_header :: "int \<Rightarrow> int \<Rightarrow> int \<Rightarrow> int \<Rightarrow> u32 \<Rightarrow> u8 list" where
  "rect_header x y w h enc =
     [0, 0, 0, 1] @ be16 (word_of_int x) @ be16 (word_of_int y) @ be16 (word_of_int w) @
     be16 (word_of_int h) @ be32 enc"

text \<open>
  The messages of one Hextile update and the new value of \<^verbatim>\<open>ht_skip\<close>, or \<open>None\<close> for the
  result -1; the framebuffer is the one the tiles are read from.
\<close>

definition send_rect_hextile ::
  "fb_state \<Rightarrow> luts \<Rightarrow> pixfmt \<Rightarrow> int \<Rightarrow> int \<Rightarrow> int \<Rightarrow> int \<Rightarrow> u32 \<Rightarrow> (u8 list list \<times> u32) option" where
  "send_rect_hextile s l f x y w h ht_skip =
     (let bytes = unat (bpp f) div 8
      in if bytes < 1 \<or> bytes > 4 \<or> w \<le> 0 \<or> h \<le> 0 then None
         else let chunks = ht_batch [] (map (\<lambda>(tx, ty, tw, th). hextile_tile s l f bytes tx ty tw th)
                                            (ht_tiles x y w h));
                  total = length (concat chunks);
                  raw_bytes = nat w * nat h * bytes
              in Some (rect_header x y w h 5 # chunks,
                       if total * 8 > raw_bytes * 7 then HT_RETRY else ht_skip))"

section \<open>Reference decoder\<close>

text \<open>
  A client's view: pixels are the byte strings of its format.  The subencoding mask selects
  raw pixels, or background, foreground and (coloured) subrectangles, colours carrying over
  from the previous tile when they are not given.
\<close>

definition rd_px :: "nat \<Rightarrow> u8 list \<Rightarrow> (u8 list \<times> u8 list) option" where
  "rd_px b xs = (if length xs < b then None else Some (take b xs, drop b xs))"

fun rd_pxs :: "nat \<Rightarrow> nat \<Rightarrow> u8 list \<Rightarrow> (u8 list list \<times> u8 list) option" where
  "rd_pxs 0 b xs = Some ([], xs)"
| "rd_pxs (Suc n) b xs =
     (case rd_px b xs of None \<Rightarrow> None
      | Some (p, ys) \<Rightarrow> (case rd_pxs n b ys of None \<Rightarrow> None | Some (ps, zs) \<Rightarrow> Some (p # ps, zs)))"

fun rd_rows :: "nat \<Rightarrow> nat \<Rightarrow> nat \<Rightarrow> u8 list \<Rightarrow> (u8 list list list \<times> u8 list) option" where
  "rd_rows 0 tw b xs = Some ([], xs)"
| "rd_rows (Suc n) tw b xs =
     (case rd_pxs tw b xs of None \<Rightarrow> None
      | Some (r, ys) \<Rightarrow> (case rd_rows n tw b ys of None \<Rightarrow> None | Some (rs, zs) \<Rightarrow> Some (r # rs, zs)))"

definition fill_row :: "'p list \<Rightarrow> nat \<Rightarrow> nat \<Rightarrow> 'p \<Rightarrow> 'p list" where
  "fill_row row x w v = map (\<lambda>i. if x \<le> i \<and> i < x + w then v else row ! i) [0..<length row]"

definition fill_sub :: "'p list list \<Rightarrow> nat \<Rightarrow> nat \<Rightarrow> nat \<Rightarrow> nat \<Rightarrow> 'p \<Rightarrow> 'p list list" where
  "fill_sub g x y w h v =
     map (\<lambda>j. if y \<le> j \<and> j < y + h then fill_row (g ! j) x w v else g ! j) [0..<length g]"

fun rd_subrects :: "nat \<Rightarrow> nat \<Rightarrow> bool \<Rightarrow> u8 list \<Rightarrow> u8 list list list \<Rightarrow> u8 list \<Rightarrow> (u8 list list list \<times> u8 list) option" where
  "rd_subrects 0 b coloured fg g xs = Some (g, xs)"
| "rd_subrects (Suc n) b coloured fg g xs =
     (case (if coloured then rd_px b xs else Some (fg, xs)) of
        None \<Rightarrow> None
      | Some (v, ys) \<Rightarrow>
          (case ys of
             xy # wh # zs \<Rightarrow>
               rd_subrects n b coloured fg
                 (fill_sub g (unat (drop_bit 4 xy)) (unat (xy AND 15))
                    (unat (drop_bit 4 wh) + 1) (unat (wh AND 15) + 1) v) zs
           | _ \<Rightarrow> None))"

definition ht_decode_tile ::
  "nat \<Rightarrow> nat \<Rightarrow> nat \<Rightarrow> u8 list \<Rightarrow> u8 list \<Rightarrow> u8 list \<Rightarrow> (u8 list list list \<times> u8 list \<times> u8 list \<times> u8 list) option" where
  "ht_decode_tile b tw th bg0 fg0 xs =
     (case xs of
        [] \<Rightarrow> None
      | m # xs1 \<Rightarrow>
          if m AND 1 \<noteq> 0 then
            (case rd_rows th tw b xs1 of None \<Rightarrow> None | Some (g, ys) \<Rightarrow> Some (g, bg0, fg0, ys))
          else
            (case (if m AND 2 \<noteq> 0 then rd_px b xs1 else Some (bg0, xs1)) of
               None \<Rightarrow> None
             | Some (bg, xs2) \<Rightarrow>
                 (case (if m AND 4 \<noteq> 0 then rd_px b xs2 else Some (fg0, xs2)) of
                    None \<Rightarrow> None
                  | Some (fg, xs3) \<Rightarrow>
                      let g = replicate th (replicate tw bg)
                      in if m AND 8 = 0 then Some (g, bg, fg, xs3)
                         else (case xs3 of
                                 [] \<Rightarrow> None
                               | n # xs4 \<Rightarrow>
                                   (case rd_subrects (unat n) b (m AND 16 \<noteq> 0) fg g xs4 of
                                      None \<Rightarrow> None
                                    | Some (g', ys) \<Rightarrow> Some (g', bg, fg, ys))))))"

fun ht_decode :: "nat \<Rightarrow> (nat \<times> nat) list \<Rightarrow> u8 list \<Rightarrow> u8 list \<Rightarrow> u8 list \<Rightarrow> (u8 list list list list \<times> u8 list) option" where
  "ht_decode b [] bg fg xs = Some ([], xs)"
| "ht_decode b ((tw, th) # ds) bg fg xs =
     (case ht_decode_tile b tw th bg fg xs of
        None \<Rightarrow> None
      | Some (g, bg', fg', ys) \<Rightarrow>
          (case ht_decode b ds bg' fg' ys of None \<Rightarrow> None | Some (gs, zs) \<Rightarrow> Some (g # gs, zs)))"

section \<open>Classification\<close>

text \<open>\<open>sees c0 c1 ncol px\<close>: the pixels seen so far, given the state, are accounted for.\<close>

definition sees :: "u16 \<Rightarrow> u16 \<times> nat \<times> nat \<Rightarrow> u16 \<Rightarrow> bool" where
  "sees c0 st px \<longleftrightarrow> (case st of (c1, n0, ncol) \<Rightarrow> px = c0 \<or> ncol = 2 \<and> px = c1 \<or> ncol = 3)"

lemma ht_scan_row_ok:
  "snd (snd st) \<in> {1, 2} \<Longrightarrow>
   snd (snd (ht_scan_row c0 row st)) \<in> {1, 2, 3} \<and>
   (\<forall>p. p \<in> set row \<or> sees c0 st p \<longrightarrow> sees c0 (ht_scan_row c0 row st) p)"
proof (induction row arbitrary: st)
  case (Cons px row)
  obtain c1 n0 ncol where st: "st = (c1, n0, ncol)" by (rule prod_cases3)
  define st' where "st' = (if px = c0 then (c1, Suc n0, ncol) else if ncol = 1 then (px, n0, 2)
    else if px \<noteq> c1 then (c1, n0, 3) else (c1, n0, ncol))"
  have imp: "p = px \<or> sees c0 st p \<Longrightarrow> sees c0 st' p" for p
    using Cons.prems by (auto simp: st st'_def sees_def)
  show ?case
  proof (cases "snd (snd st') = 3")
    case True
    then have "ht_scan_row c0 (px # row) st = st'" using Cons.prems by (auto simp: st st'_def split: if_splits)
    then show ?thesis using True by (auto simp: sees_def split: prod.splits)
  next
    case False
    then have "snd (snd st') \<in> {1, 2}" "ht_scan_row c0 (px # row) st = ht_scan_row c0 row st'"
      using Cons.prems by (auto simp: st st'_def split: if_splits)
    then show ?thesis using Cons.IH [of st'] imp by simp
  qed
qed auto

lemma ht_scan_ok:
  "snd (snd st) \<in> {1, 2, 3} \<Longrightarrow>
   snd (snd (ht_scan c0 rows st)) \<in> {1, 2, 3} \<and>
   (\<forall>p. (\<exists>r \<in> set rows. p \<in> set r) \<or> sees c0 st p \<longrightarrow> sees c0 (ht_scan c0 rows st) p)"
proof (induction rows arbitrary: st)
  case (Cons r rows)
  show ?case
  proof (cases "snd (snd st) = 3")
    case True
    then show ?thesis by (auto simp: sees_def split: prod.splits)
  next
    case False
    then show ?thesis
      using Cons.IH [of "ht_scan_row c0 r st"] ht_scan_row_ok [of st c0 r] Cons.prems by auto
  qed
qed auto

section \<open>Runs\<close>

lemma ht_runs_bounds:
  "(a, k) \<in> set (ht_runs fg c row) \<Longrightarrow> c \<le> a \<and> a + k < c + length row"
proof (induction fg c row arbitrary: a k rule: ht_runs.induct)
  case (2 fg c p ps)
  show ?case
  proof (cases "p = fg")
    case False
    then show ?thesis using 2 by fastforce
  next
    case True
    have le: "length (takeWhile ((=) fg) ps) \<le> length ps" by (rule length_takeWhile_le)
    show ?thesis using 2 True le by (fastforce simp: Let_def)
  qed
qed simp

lemma ht_runs_count:
  "length (ht_runs fg c row) \<le> (if row \<noteq> [] \<and> hd row = fg then (length row + 1) div 2 else length row div 2)"
proof (induction fg c row rule: ht_runs.induct)
  case (2 fg c p ps)
  show ?case
  proof (cases "p = fg")
    case False
    then show ?thesis using 2(1) by (auto split: if_splits)
  next
    case True
    let ?k = "length (takeWhile ((=) fg) ps)"
    have d: "drop ?k ps = dropWhile ((=) fg) ps" by (simp add: dropWhile_eq_drop)
    have nb: "\<not> (drop ?k ps \<noteq> [] \<and> hd (drop ?k ps) = fg)"
      unfolding d using hd_dropWhile [of "(=) fg" ps] by metis
    have "length (ht_runs fg (Suc c + ?k) (drop ?k ps)) \<le> length (drop ?k ps) div 2"
      using 2(2) [OF _ refl] True unfolding if_not_P [OF nb] by simp
    then show ?thesis using True by (simp add: Let_def)
  qed
qed simp

text \<open>Painting the runs over a row gives the foreground exactly where the row has it.\<close>

lemma fill_row_length [simp]: "length (fill_row row x w v) = length row"
  by (simp add: fill_row_def)

lemma fill_row_nth: "i < length row \<Longrightarrow> fill_row row x w v ! i = (if x \<le> i \<and> i < x + w then v else row ! i)"
  by (simp add: fill_row_def)

lemma paint_runs_length [simp]:
  "length (fold (\<lambda>(a, k) g. fill_row g a (Suc k) v) rs g) = length g"
  by (induction rs arbitrary: g) auto

lemma paint_runs_nth:
  "i < length G \<Longrightarrow> length G = c + length row \<Longrightarrow>
   fold (\<lambda>(a, k) g. fill_row g a (Suc k) v) (ht_runs fg c row) G ! i =
     (if c \<le> i \<and> row ! (i - c) = fg then v else G ! i)"
proof (induction fg c row arbitrary: G rule: ht_runs.induct)
  case (2 fg c p ps)
  consider "i < c" | "i = c" | j where "i = Suc (c + j)" by (metis less_iff_Suc_add linorder_neqE_nat)
  note pos = this
  show ?case
  proof (cases "p = fg")
    case False
    have IH: "fold (\<lambda>(a, k) g. fill_row g a (Suc k) v) (ht_runs fg (Suc c) ps) G ! i =
        (if Suc c \<le> i \<and> ps ! (i - Suc c) = fg then v else G ! i)"
      using 2(1) [OF False, of G] 2(3,4) by simp
    from pos show ?thesis using IH False by cases simp_all
  next
    case True
    let ?k = "length (takeWhile ((=) fg) ps)"
    let ?G = "fill_row G c (Suc ?k) v"
    have k: "?k \<le> length ps" by (rule length_takeWhile_le)
    have run: "ps ! j = fg" if "j < ?k" for j
      using that set_takeWhileD [OF nth_mem [OF that]] by (simp add: takeWhile_nth)
    have IH: "fold (\<lambda>(a, k) g. fill_row g a (Suc k) v) (ht_runs fg c (p # ps)) G ! i =
        (if Suc c + ?k \<le> i \<and> drop ?k ps ! (i - (Suc c + ?k)) = fg then v else ?G ! i)"
      using 2(2) [OF _ refl, of ?G] True 2(3,4) k by (simp add: Let_def)
    from pos show ?thesis
    proof cases
      case (3 j)
      then show ?thesis
        unfolding IH using True 2(3) k run [of j] by (cases "j < ?k") (simp_all add: fill_row_nth)
    qed (use IH True 2(3) in \<open>simp_all add: fill_row_nth\<close>)
  qed
qed simp

section \<open>Decoding what was encoded\<close>

lemma nibbles:
  assumes "c < 16" "r < 16"
  shows "unat (drop_bit 4 (push_bit 4 (of_nat c) OR of_nat r :: u8)) = c"
    and "unat ((push_bit 4 (of_nat c) OR of_nat r :: u8) AND 15) = r"
proof -
  have "list_all (\<lambda>c. list_all (\<lambda>r. unat (drop_bit 4 (push_bit 4 (of_nat c) OR of_nat r :: u8)) = c \<and>
      unat ((push_bit 4 (of_nat c) OR of_nat r :: u8) AND 15) = r) [0..<16]) [0..<16]"
    by code_simp
  then show "unat (drop_bit 4 (push_bit 4 (of_nat c) OR of_nat r :: u8)) = c"
    "unat ((push_bit 4 (of_nat c) OR of_nat r :: u8) AND 15) = r"
    using assms by (simp_all add: list_all_iff)
qed

lemma nibbles0: "k < 16 \<Longrightarrow> unat (drop_bit 4 (push_bit 4 (of_nat k) :: u8)) = k"
    "k < 16 \<Longrightarrow> (push_bit 4 (of_nat k) :: u8) AND 15 = 0"
  using nibbles [of k 0] by (simp_all add: unat_eq_0)

lemma fill_sub_row:
  assumes "r < length g"
  shows "fill_sub g x r w 1 v = g[r := fill_row (g ! r) x w v]"
  by (rule nth_equalityI) (use assms in \<open>auto simp: fill_sub_def nth_list_update\<close>)

text \<open>The rectangles of the runs, painted in the order they are sent.\<close>

definition paint_tile :: "'p \<Rightarrow> (nat \<times> nat \<times> nat) list \<Rightarrow> 'p list list \<Rightarrow> 'p list list" where
  "paint_tile v runs g = fold (\<lambda>(r, c, k) g. g[r := fill_row (g ! r) c (Suc k) v]) runs g"

lemma paint_tile_length [simp]: "length (paint_tile v runs g) = length g"
  unfolding paint_tile_def by (induction runs arbitrary: g) auto

lemma rd_subrects_runs:
  assumes "\<forall>(r, c, k) \<in> set runs. r < length g \<and> c < 16 \<and> k < 16" and "length g \<le> 16"
  shows "rd_subrects (length runs) b False v g (concat (map (\<lambda>(r, ck). run_bytes r ck) runs) @ rest) =
    Some (paint_tile v runs g, rest)"
  using assms
proof (induction runs arbitrary: g)
  case (Cons x runs)
  obtain r c k where x: "x = (r, c, k)" by (rule prod_cases3)
  have b: "r < length g" "r < 16" "c < 16" "k < 16" using Cons.prems by (auto simp: x)
  have "fill_sub g c r (Suc k) (Suc 0) v = g[r := fill_row (g ! r) c (Suc k) v]"
    using fill_sub_row [OF b(1), of c "Suc k" v] by simp
  then show ?case
    using Cons.IH [of "g[r := fill_row (g ! r) c (Suc k) v]"] Cons.prems b
    by (simp add: x run_bytes_def nibbles nibbles0 paint_tile_def del: drop_bit_or)
qed (simp add: paint_tile_def)

lemma paint_one_row:
  "r < length g \<Longrightarrow> paint_tile v (map (\<lambda>ck. (r, ck)) rs) g =
     g[r := fold (\<lambda>(a, k) x. fill_row x a (Suc k) v) rs (g ! r)]"
proof (induction rs arbitrary: g)
  case (Cons ck rs)
  then show ?case by (cases ck) (simp add: paint_tile_def)
qed (simp add: paint_tile_def)

lemma paint_rows:
  "m \<le> length g \<Longrightarrow> j < length g \<Longrightarrow>
   paint_tile v (concat (map (\<lambda>r. map (\<lambda>ck. (r, ck)) (ht_runs fg 0 (rows ! r))) [0..<m])) g ! j =
     (if j < m then fold (\<lambda>(a, k) x. fill_row x a (Suc k) v) (ht_runs fg 0 (rows ! j)) (g ! j) else g ! j)"
proof (induction m arbitrary: j)
  case (Suc m)
  let ?done = "paint_tile v (concat (map (\<lambda>r. map (\<lambda>ck. (r, ck)) (ht_runs fg 0 (rows ! r))) [0..<m])) g"
  have "paint_tile v (concat (map (\<lambda>r. map (\<lambda>ck. (r, ck)) (ht_runs fg 0 (rows ! r))) [0..<Suc m])) g =
      paint_tile v (map (\<lambda>ck. (m, ck)) (ht_runs fg 0 (rows ! m))) ?done"
    by (simp add: paint_tile_def)
  then show ?case
    using Suc.IH [of m] Suc.IH [of j] Suc.prems by (simp add: paint_one_row nth_upd less_Suc_eq)
qed (simp add: paint_tile_def)

definition rows_ok :: "nat \<Rightarrow> nat \<Rightarrow> 'p list list \<Rightarrow> bool" where
  "rows_ok tw th rows \<longleftrightarrow> length rows = th \<and> (\<forall>r \<in> set rows. length r = tw) \<and>
     1 \<le> tw \<and> tw \<le> 16 \<and> 1 \<le> th \<and> th \<le> 16"

lemma rows_okD: "rows_ok tw th rows \<Longrightarrow> r < th \<Longrightarrow> length (rows ! r) = tw" "rows_ok tw th rows \<Longrightarrow> length rows = th"
  by (auto simp: rows_ok_def)

lemma paint_two_colour:
  assumes "rows_ok tw th rows"
  shows "paint_tile v (tile_runs fg rows) (replicate th (replicate tw u)) =
    map (map (\<lambda>p. if p = fg then v else u)) rows"
proof (rule nth_equalityI)
  fix j assume "j < length (paint_tile v (tile_runs fg rows) (replicate th (replicate tw u)))"
  then have j: "j < th" by simp
  have "paint_tile v (tile_runs fg rows) (replicate th (replicate tw u)) ! j =
      fold (\<lambda>(a, k) x. fill_row x a (Suc k) v) (ht_runs fg 0 (rows ! j)) (replicate tw u)"
    using paint_rows [of th "replicate th (replicate tw u)" j] j rows_okD [OF assms] by (simp add: tile_runs_def)
  also have "\<dots> = map (\<lambda>p. if p = fg then v else u) (rows ! j)"
    using rows_okD(1) [OF assms j] by (intro nth_equalityI) (simp_all add: paint_runs_nth)
  finally show "paint_tile v (tile_runs fg rows) (replicate th (replicate tw u)) ! j =
      map (map (\<lambda>p. if p = fg then v else u)) rows ! j"
    using j rows_okD(2) [OF assms] by simp
qed (use rows_okD(2) [OF assms] in simp)

lemma tile_runs_bounds:
  assumes "rows_ok tw th rows" and "(r, c, k) \<in> set (tile_runs fg rows)"
  shows "r < th" "c < 16" "k < 16"
proof -
  have r: "r < length rows" and ck: "(c, k) \<in> set (ht_runs fg 0 (rows ! r))"
    using assms(2) by (auto simp: tile_runs_def)
  then show "r < th" "c < 16" "k < 16"
    using ht_runs_bounds [OF ck] rows_okD [OF assms(1)] assms(1) by (auto simp: rows_ok_def)
qed

lemma tile_runs_count:
  assumes "rows_ok tw th rows"
  shows "length (tile_runs fg rows) \<le> 128"
proof -
  have "length (ht_runs fg 0 (rows ! r)) \<le> 8" if "r < th" for r
    using ht_runs_count [of fg 0 "rows ! r"] rows_okD(1) [OF assms that] assms
    by (auto simp: rows_ok_def split: if_splits)
  then have "(\<Sum>r \<leftarrow> [0..<th]. length (ht_runs fg 0 (rows ! r))) \<le> (\<Sum>r \<leftarrow> [0..<th]. 8)"
    by (intro sum_list_mono) simp
  then show ?thesis
    using assms rows_okD(2) [OF assms]
    by (simp add: tile_runs_def length_concat comp_def sum_list_triv rows_ok_def)
qed

lemma rd_px_append [simp]: "length p = b \<Longrightarrow> rd_px b (p @ xs) = Some (p, xs)"
  by (simp add: rd_px_def)

lemma rd_pxs_concat:
  "length row = n \<Longrightarrow> (\<And>p. length (e p) = b) \<Longrightarrow> rd_pxs n b (concat (map e row) @ xs) = Some (map e row, xs)"
  by (induction row arbitrary: n) auto

lemma rd_rows_concat:
  "length rows = n \<Longrightarrow> (\<And>p. length (e p) = b) \<Longrightarrow> \<forall>r \<in> set rows. length r = tw \<Longrightarrow>
   rd_rows n tw b (concat (map (\<lambda>row. concat (map e row)) rows) @ xs) = Some (map (map e) rows, xs)"
  by (induction rows arbitrary: n) (auto simp: rd_pxs_concat)

lemma encode_raw_row:
  assumes "l = build_luts f" and "bytes = unat (bpp f) div 8"
  shows "(if fmt_native l then concat (map native_bytes row) else concat (map (emit_px l f bytes) row)) =
    concat (map (emit_px l f bytes) row)"
proof (cases "fmt_native l")
  case True
  then have "emit_px l f bytes px = native_bytes px" for px
    using native_emit [of f] assms by simp
  then show ?thesis by (simp cong: map_cong)
qed simp

lemma tile_roundtrip:
  assumes "l = build_luts f" and "bytes = unat (bpp f) div 8" and "rows_ok tw th rows"
  shows "\<exists>bg' fg'. ht_decode_tile bytes tw th bg fg (encode_tile l f bytes tw th rows @ rest) =
    Some (map (map (emit_px l f bytes)) rows, bg', fg', rest)"
proof -
  obtain c1 n0 ncol where sc: "ht_scan (rows ! 0 ! 0) rows (0, 0, Suc 0) = (c1, n0, ncol)" by (rule prod_cases3)
  let ?c0 = "rows ! 0 ! 0"
  have ok: "ncol \<in> {1, 2, 3}"
    "\<And>r p. r \<in> set rows \<Longrightarrow> p \<in> set r \<Longrightarrow> p = ?c0 \<or> ncol = 2 \<and> p = c1 \<or> ncol = 3"
    using ht_scan_ok [of "(0, 0, Suc 0)" ?c0 rows] unfolding sc by (auto simp: sees_def)
  from ok(1) consider "ncol = 1" | "ncol = 2" | "ncol = 3" by blast
  then show ?thesis
  proof cases
    case 1
    have "map (map (emit_px l f bytes)) rows = replicate th (replicate tw (emit_px l f bytes ?c0))"
      using ok(2) 1 assms(3) by (intro replicate_eqI) (auto simp: rows_ok_def intro!: replicate_eqI)
    then show ?thesis
      using 1 by (simp add: encode_tile_def Let_def sc ht_decode_tile_def HT_BG_def)
  next
    case 2
    define bg' fg' where "bg' = (if 2 * n0 < tw * th then c1 else ?c0)" and "fg' = (if 2 * n0 < tw * th then ?c0 else c1)"
    let ?runs = "tile_runs fg' rows"
    have e: "encode_tile l f bytes tw th rows = 14 # emit_px l f bytes bg' @ emit_px l f bytes fg' @
        of_nat (length ?runs) # concat (map (\<lambda>(r, ck). run_bytes r ck) ?runs)"
      using 2 by (simp add: encode_tile_def Let_def sc HT_BG_def HT_FG_def HT_SUBRECTS_def bg'_def fg'_def)
    have n: "unat (of_nat (length ?runs) :: u8) = length ?runs"
      using tile_runs_count [OF assms(3), of fg'] by (simp add: unat_of_nat)
    have "map (map (\<lambda>p. if p = fg' then emit_px l f bytes fg' else emit_px l f bytes bg')) rows =
        map (map (emit_px l f bytes)) rows"
      using ok(2) 2 by (intro map_cong refl) (auto simp: bg'_def fg'_def split: if_splits)
    moreover have "rd_subrects (length ?runs) bytes False (emit_px l f bytes fg')
        (replicate th (replicate tw (emit_px l f bytes bg'))) (concat (map (\<lambda>(r, ck). run_bytes r ck) ?runs) @ rest) =
        Some (paint_tile (emit_px l f bytes fg') ?runs (replicate th (replicate tw (emit_px l f bytes bg'))), rest)"
      using tile_runs_bounds [OF assms(3)] assms(3) by (intro rd_subrects_runs) (auto simp: rows_ok_def)
    ultimately show ?thesis
      unfolding e by (simp add: ht_decode_tile_def n paint_two_colour [OF assms(3)])
  next
    case 3
    then show ?thesis
      using rd_rows_concat [of rows th "emit_px l f bytes" bytes tw rest] assms(3)
      by (simp add: encode_tile_def Let_def sc ht_decode_tile_def HT_RAW_def encode_raw_row [OF assms(1,2)] rows_ok_def)
  qed
qed

lemma length_concat_const: "(\<And>x. x \<in> set xs \<Longrightarrow> length (g x) = k) \<Longrightarrow> length (concat (map g xs)) = length xs * k"
  by (induction xs) auto

lemma encode_tile_length:
  assumes "l = build_luts f" and "bytes = unat (bpp f) div 8" and "rows_ok tw th rows" and "bytes \<le> 4"
  shows "length (encode_tile l f bytes tw th rows) \<le> HT_TILE_MAX"
proof -
  obtain c1 n0 ncol where sc: "ht_scan (rows ! 0 ! 0) rows (0, 0, Suc 0) = (c1, n0, ncol)" by (rule prod_cases3)
  have runs: "length (concat (map (\<lambda>(r, ck). run_bytes r ck) (tile_runs fg rows))) \<le> 256" for fg
    using tile_runs_count [OF assms(3), of fg]
    by (subst length_concat_const [where k = 2]) (auto simp: run_bytes_def)
  have "length (concat (map (emit_px l f bytes) row)) = length row * bytes" for row
    by (rule length_concat_const) simp
  then have "length (concat (map (\<lambda>row. concat (map (emit_px l f bytes) row)) rows)) = th * (tw * bytes)"
    using assms(3) by (subst length_concat_const [where k = "tw * bytes"]) (auto simp: rows_ok_def)
  moreover have "th * (tw * bytes) \<le> 16 * (16 * 4)"
    using assms(3,4) by (intro mult_le_mono) (auto simp: rows_ok_def)
  ultimately show ?thesis
    using assms(4) runs [of c1] runs [of "rows ! 0 ! 0"]
    by (auto simp: encode_tile_def Let_def sc HT_TILE_MAX_def encode_raw_row [OF assms(1,2)])
qed

lemma ht_steps_mem:
  "(t, n) \<in> set (ht_steps a b) \<Longrightarrow> a \<le> t \<and> t < b \<and> 1 \<le> n \<and> n \<le> 16 \<and> t + int n \<le> b"
proof (induction a b rule: ht_steps.induct)
  case (1 a b)
  show ?case
    using 1 by (subst (asm) (2) ht_steps.simps) (auto split: if_splits)
qed

lemma ht_steps_cover: "a \<le> X \<Longrightarrow> X < b \<Longrightarrow> \<exists>t n. (t, n) \<in> set (ht_steps a b) \<and> t \<le> X \<and> X < t + int n"
proof (induction a b rule: ht_steps.induct)
  case (1 a b)
  show ?case
  proof (cases "X < a + 16")
    case True
    then show ?thesis
      using 1(2,3) by (subst ht_steps.simps) (auto intro!: exI [of _ a] exI [of _ "nat (min 16 (b - a))"])
  next
    case False
    then obtain t n where "(t, n) \<in> set (ht_steps (a + 16) b)" "t \<le> X" "X < t + int n"
      using 1 by (meson less_le_trans linorder_not_less order.strict_trans1)
    then show ?thesis using 1(2,3) by (subst ht_steps.simps) auto
  qed
qed

lemma ht_tiles_mem:
  "(tx, ty, tw, th) \<in> set (ht_tiles x y w h) \<Longrightarrow> 1 \<le> tw \<and> tw \<le> 16 \<and> 1 \<le> th \<and> th \<le> 16"
  by (auto simp: ht_tiles_def dest!: ht_steps_mem)

lemma ht_tiles_cover:
  assumes "in_rect x y w h X Y"
  shows "\<exists>(tx, ty, tw, th) \<in> set (ht_tiles x y w h). in_rect tx ty (int tw) (int th) X Y"
proof -
  obtain tx tw where a: "(tx, tw) \<in> set (ht_steps x (x + w))" "tx \<le> X" "X < tx + int tw"
    using ht_steps_cover [of x X "x + w"] assms by (auto simp: in_rect_def)
  obtain ty th where b: "(ty, th) \<in> set (ht_steps y (y + h))" "ty \<le> Y" "Y < ty + int th"
    using ht_steps_cover [of y Y "y + h"] assms by (auto simp: in_rect_def)
  have "(tx, ty, tw, th) \<in> set (ht_tiles x y w h)"
    using a(1) b(1) by (force simp: ht_tiles_def)
  then show ?thesis using a b by (auto simp: in_rect_def intro!: bexI)
qed

lemma ht_batch_concat: "concat (ht_batch buf ts) = buf @ concat ts"
  by (induction buf ts rule: ht_batch.induct) auto

lemma ht_batch_bound:
  "\<forall>t \<in> set ts. length t \<le> HT_TILE_MAX \<Longrightarrow> length buf \<le> SENDBUF_SZ \<Longrightarrow>
   c \<in> set (ht_batch buf ts) \<Longrightarrow> length c \<le> SENDBUF_SZ"
proof (induction buf ts rule: ht_batch.induct)
  case (2 buf t ts)
  have "HT_TILE_MAX \<le> SENDBUF_SZ" by (simp add: HT_TILE_MAX_def SENDBUF_SZ_def)
  then show ?case using 2 by (auto split: if_splits)
qed (auto split: if_splits)

lemma tile_rows_ok: "1 \<le> tw \<Longrightarrow> tw \<le> 16 \<Longrightarrow> 1 \<le> th \<Longrightarrow> th \<le> 16 \<Longrightarrow> rows_ok tw th (tile_rows s tx ty tw th)"
  by (auto simp: rows_ok_def tile_rows_def fb_row_def)

lemma tile_rows_nth:
  "r < th \<Longrightarrow> c < tw \<Longrightarrow> tile_rows s tx ty tw th ! r ! c = pixel s (tx + int c) (ty + int r)"
  by (simp add: tile_rows_def fb_row_def pixel_def add.assoc)

lemma ht_decode_tiles:
  assumes "l = build_luts f" and "b = unat (bpp f) div 8"
    and "\<forall>(tx, ty, tw, th) \<in> set ts. 1 \<le> tw \<and> tw \<le> 16 \<and> 1 \<le> th \<and> th \<le> 16"
  shows "ht_decode b (map (\<lambda>(tx, ty, d). d) ts) bg fg
      (concat (map (\<lambda>(tx, ty, tw, th). hextile_tile s l f b tx ty tw th) ts)) =
    Some (map (\<lambda>(tx, ty, tw, th). map (map (emit_px l f b)) (tile_rows s tx ty tw th)) ts, [])"
  using assms(3)
proof (induction ts arbitrary: bg fg)
  case (Cons t ts)
  obtain tx ty tw th where t: "t = (tx, ty, tw, th)" by (rule prod_cases4)
  let ?rest = "concat (map (\<lambda>(tx, ty, tw, th). hextile_tile s l f b tx ty tw th) ts)"
  obtain bg' fg' where "ht_decode_tile b tw th bg fg (hextile_tile s l f b tx ty tw th @ ?rest) =
      Some (map (map (emit_px l f b)) (tile_rows s tx ty tw th), bg', fg', ?rest)"
    using tile_roundtrip [OF assms(1,2) tile_rows_ok, of tw th bg fg s tx ty ?rest] Cons.prems
    by (auto simp: t hextile_tile_def)
  then show ?case using Cons by (simp add: t)
qed simp

section \<open>Properties\<close>

text \<open>
  C4: a client that decodes a Hextile update sees the framebuffer.  For every rectangle and
  every pixel format of one to four bytes the update is produced, its chunks fit the send
  buffer, and decoding their concatenation by the protocol consumes it exactly and yields, for
  every tile, the converted pixels of the framebuffer; the tiles cover the rectangle.
\<close>

theorem hextile_roundtrip:
  assumes "1 \<le> unat (bpp f) div 8" and "unat (bpp f) div 8 \<le> 4" and "0 < w" and "0 < h"
  shows "\<exists>chunks sk' grids. let b = unat (bpp f) div 8; l = build_luts f; ts = ht_tiles x y w h in
    send_rect_hextile s l f x y w h sk = Some (rect_header x y w h 5 # chunks, sk') \<and>
    (\<forall>c \<in> set chunks. length c \<le> SENDBUF_SZ) \<and>
    ht_decode b (map (\<lambda>(tx, ty, d). d) ts) bg fg (concat chunks) = Some (grids, []) \<and>
    (\<forall>(g, tx, ty, tw, th) \<in> set (zip grids ts). \<forall>r < th. \<forall>c < tw.
       g ! r ! c = emit_px l f b (pixel s (tx + int c) (ty + int r))) \<and>
    (\<forall>X Y. in_rect x y w h X Y \<longrightarrow> (\<exists>(g, tx, ty, tw, th) \<in> set (zip grids ts). in_rect tx ty (int tw) (int th) X Y))"
proof -
  define b l ts where d: "b = unat (bpp f) div 8" "l = build_luts f" "ts = ht_tiles x y w h"
  define enc where "enc = map (\<lambda>(tx, ty, tw, th). hextile_tile s l f b tx ty tw th) ts"
  define grids where "grids = map (\<lambda>(tx, ty, tw, th). map (map (emit_px l f b)) (tile_rows s tx ty tw th)) ts"
  have tsz: "1 \<le> tw \<and> tw \<le> 16 \<and> 1 \<le> th \<and> th \<le> 16" if "(tx, ty, tw, th) \<in> set ts" for tx ty tw th
    using ht_tiles_mem that unfolding d(3) .
  have "\<exists>sk'. send_rect_hextile s l f x y w h sk = Some (rect_header x y w h 5 # ht_batch [] enc, sk')"
    using assms by (simp add: send_rect_hextile_def d enc_def Let_def)
  moreover have "length t \<le> HT_TILE_MAX" if "t \<in> set enc" for t
    using that encode_tile_length [OF d(2) d(1) tile_rows_ok] tsz assms(2)
    by (fastforce simp: enc_def hextile_tile_def d(1))
  then have "\<forall>c \<in> set (ht_batch [] enc). length c \<le> SENDBUF_SZ"
    using ht_batch_bound [of enc "[]"] by simp
  moreover have "ht_decode b (map (\<lambda>(tx, ty, d). d) ts) bg fg (concat (ht_batch [] enc)) = Some (grids, [])"
    unfolding ht_batch_concat enc_def grids_def append_Nil
    by (rule ht_decode_tiles [OF d(2) d(1)]) (use tsz in blast)
  moreover have "g ! r ! c = emit_px l f b (pixel s (tx + int c) (ty + int r))"
    if mem: "(g, tx, ty, tw, th) \<in> set (zip grids ts)" and rc: "r < th" "c < tw" for g tx ty tw th r c
  proof -
    obtain i where "i < length ts" "ts ! i = (tx, ty, tw, th)" "g = grids ! i"
      using mem unfolding in_set_zip fst_conv snd_conv by blast
    then have "g = map (map (emit_px l f b)) (tile_rows s tx ty tw th)" by (simp add: grids_def)
    then show ?thesis
      using rc tile_rows_nth [OF rc, of s tx ty] by (simp add: tile_rows_def fb_row_def)
  qed
  moreover have "\<exists>(g, tx, ty, tw, th) \<in> set (zip grids ts). in_rect tx ty (int tw) (int th) X Y"
    if inr: "in_rect x y w h X Y" for X Y
  proof -
    obtain t where t: "t \<in> set ts" "case t of (tx, ty, tw, th) \<Rightarrow> in_rect tx ty (int tw) (int th) X Y"
      using ht_tiles_cover [OF inr] d(3) by blast
    then obtain i where "i < length ts" "t = ts ! i" by (auto simp: in_set_conv_nth)
    then have "(grids ! i, t) \<in> set (zip grids ts)" by (auto simp: set_zip grids_def intro!: exI [of _ i])
    then show ?thesis using t(2) by (auto intro!: bexI [of _ "(grids ! i, t)"])
  qed
  ultimately show ?thesis
    unfolding d(1-3) [symmetric] Let_def by (intro exI [of _ "ht_batch [] enc"]) blast
qed

theorem hextile_roundtrip_witness:
  "\<exists>chunks sk' grids.
    send_rect_hextile sample_fb (build_luts native_fmt) native_fmt 0 0 16 8 0 =
      Some (rect_header 0 0 16 8 5 # chunks, sk') \<and>
    ht_decode 2 (map (\<lambda>(tx, ty, d). d) (ht_tiles 0 0 16 8)) [] [] (concat chunks) = Some (grids, [])"
  using hextile_roundtrip [of native_fmt 16 8 0 0 sample_fb 0 "[]" "[]"] by (auto simp: native_fmt_def Let_def)

text \<open>
  The copy path for the native format is the conversion.  Whenever \<^verbatim>\<open>build_luts\<close> finds the
  client's format to be the framebuffer's own, converting a pixel through the tables gives the
  pixel itself, and its two bytes are the bytes in framebuffer memory.
\<close>

theorem native_copy_exact:
  assumes "fmt_native (build_luts f)"
  shows "convert_pixel (build_luts f) px = ucast px \<and>
    emit_px (build_luts f) f (unat (bpp f) div 8) px = native_bytes px"
  using native_convert [OF assms] native_emit [OF assms] by simp

theorem native_copy_witness: "convert_pixel (build_luts native_fmt) 0xF81F = 0xF81F"
  using native_copy_exact [of native_fmt "0xF81F"] by (simp add: build_luts_def native_fmt_def)

end
