(* ===== verification/Vnc_Server.thy ===== *)
theory Vnc_Server
  imports Vnc_Hextile
begin

unbundle bit_operations_syntax

text \<open>
  The rest of \<^verbatim>\<open>vnc/vnc_server.c\<close>: the socket helpers, Raw updates with their three ways of
  moving the pixels (zero copy, blitter, row by row), the choice of encoding, the handshake
  and the handling of one client message.  The sockets are Zephyr's: they are a parameter
  that may deliver or accept any part of what is asked for.
\<close>

section \<open>Socket helpers\<close>

text \<open>
  \<open>so_recv n\<close> gives the bytes received (none or \<open>None\<close> for a result of at most 0),
  \<open>so_send\<close> the number of bytes accepted (0 for a result of at most 0).
\<close>

record 'w sock_ops =
  so_recv :: "nat \<Rightarrow> 'w \<Rightarrow> u8 list option \<times> 'w"
  so_send :: "u8 list \<Rightarrow> 'w \<Rightarrow> nat \<times> 'w"

function recv_all :: "'w sock_ops \<Rightarrow> nat \<Rightarrow> 'w \<Rightarrow> u8 list option \<times> 'w" where
  "recv_all so n w =
     (if n = 0 then (Some [], w)
      else case so_recv so n w of
             (None, w') \<Rightarrow> (None, w')
           | (Some bs, w') \<Rightarrow>
               if bs = [] then (None, w')
               else (case recv_all so (n - length bs) w' of
                       (None, w'') \<Rightarrow> (None, w'')
                     | (Some cs, w'') \<Rightarrow> (Some (bs @ cs), w'')))"
  by pat_completeness auto
termination by (relation "measure (\<lambda>(so, n, w). n)") (auto simp: diff_less)

declare recv_all.simps [simp del]

function send_all :: "'w sock_ops \<Rightarrow> u8 list \<Rightarrow> 'w \<Rightarrow> bool \<times> 'w" where
  "send_all so buf w =
     (if buf = [] then (True, w)
      else case so_send so buf w of
             (r, w') \<Rightarrow> if r = 0 then (False, w') else send_all so (drop r buf) w')"
  by pat_completeness auto
termination by (relation "measure (\<lambda>(so, buf, w). length buf)") auto

declare send_all.simps [simp del]

fun send_msgs :: "'w sock_ops \<Rightarrow> u8 list list \<Rightarrow> 'w \<Rightarrow> bool \<times> 'w" where
  "send_msgs so [] w = (True, w)"
| "send_msgs so (m # ms) w =
     (case send_all so m w of (False, w') \<Rightarrow> (False, w') | (True, w') \<Rightarrow> send_msgs so ms w')"

function recv_discard :: "'w sock_ops \<Rightarrow> nat \<Rightarrow> 'w \<Rightarrow> bool \<times> 'w" where
  "recv_discard so n w =
     (if n = 0 then (True, w)
      else let c = (if n < 64 then n else 64)
           in case recv_all so c w of
                (None, w') \<Rightarrow> (False, w')
              | (Some _, w') \<Rightarrow> recv_discard so (n - c) w')"
  by pat_completeness auto
termination by (relation "measure (\<lambda>(so, n, w). n)") (auto simp: Let_def)

declare recv_discard.simps [simp del]

section \<open>Raw updates\<close>

record vnc_cfg =
  ZERO_COPY :: bool
  send_blit :: bool

definition raw_row :: "fb_state \<Rightarrow> luts \<Rightarrow> pixfmt \<Rightarrow> nat \<Rightarrow> int \<Rightarrow> int \<Rightarrow> nat \<Rightarrow> u8 list" where
  "raw_row s l f bytes x y w =
     (if fmt_native l then concat (map native_bytes (fb_row s x y w))
      else concat (map (emit_px l f bytes) (fb_row s x y w)))"

text \<open>The inner loop: whole scanlines as long as they fit the batch buffer.\<close>

fun fill_batch :: "nat \<Rightarrow> u8 list \<Rightarrow> u8 list list \<Rightarrow> u8 list \<times> u8 list list" where
  "fill_batch rb buf [] = (buf, [])"
| "fill_batch rb buf (r # rs) =
     (if length buf + rb \<le> SENDBUF_SZ then fill_batch rb (buf @ r) rs else (buf, r # rs))"

text \<open>
  One pass of the outer loop: the blitter moves as many rows as fit in one strided copy;
  otherwise, or when it moved none, the rows are converted one by one.
\<close>

definition next_batch :: "bool \<Rightarrow> nat \<Rightarrow> u8 list list \<Rightarrow> u8 list \<times> u8 list list" where
  "next_batch blit rb rows =
     (let n = min (SENDBUF_SZ div rb) (length rows)
      in if blit \<and> n > 0 then (concat (take n rows), drop n rows) else fill_batch rb [] rows)"

partial_function (option) raw_chunks :: "bool \<Rightarrow> nat \<Rightarrow> u8 list list \<Rightarrow> u8 list list option" where
  "raw_chunks blit rb rows =
     (if rows = [] then Some []
      else Option.bind (raw_chunks blit rb (snd (next_batch blit rb rows)))
             (\<lambda>cs. Some (fst (next_batch blit rb rows) # cs)))"

declare raw_chunks.simps [code]

text \<open>
  \<open>None\<close>: the loop does not end.  \<open>Some None\<close>: the result -1.  Otherwise the messages sent.
\<close>

definition send_rect ::
  "vnc_cfg \<Rightarrow> fb_state \<Rightarrow> luts \<Rightarrow> pixfmt \<Rightarrow> int \<Rightarrow> int \<Rightarrow> int \<Rightarrow> int \<Rightarrow> u8 list list option option" where
  "send_rect cfg s l f x y w h =
     (let bytes = unat (bpp f) div 8
      in if bytes < 1 \<or> bytes > 4 \<or> w \<le> 0 \<or> h \<le> 0 then Some None
         else if ZERO_COPY cfg \<and> fmt_native l \<and> x = 0 \<and> w = FB_WIDTH s
         then Some (Some [rect_header x y w h 0,
                concat (map native_bytes (take (nat (h * w)) (drop (nat (y * FB_WIDTH s)) (fb s))))])
         else map_option (\<lambda>cs. Some (rect_header x y w h 0 # cs))
                (raw_chunks (fmt_native l \<and> send_blit cfg) (nat w * bytes)
                   (map (\<lambda>r. raw_row s l f bytes x (y + int r) (nat w)) [0..<nat h])))"

section \<open>Connection\<close>

record vnc_conn =
  fmt :: pixfmt
  tabs :: luts
  client_hextile :: bool
  ht_skip :: u32
  pending :: bool
  rq :: "int \<times> int \<times> int \<times> int"
  last_send :: int
  updates :: "(int \<times> int \<times> int \<times> int) list"
  keys :: "(bool \<times> u32) list"
  pointers :: "(u16 \<times> u16 \<times> u8) list"

text \<open>
  \<open>updates\<close> is the list of rectangles for which an update was sent, newest first; \<open>keys\<close>
  and \<open>pointers\<close> are the calls of the registered input handlers.
\<close>

definition vnc_connected :: vnc_conn where
  "vnc_connected = \<lparr>fmt = native_fmt, tabs = build_luts native_fmt, client_hextile = False, ht_skip = 0,
     pending = False, rq = (0, 0, 0, 0), last_send = 0, updates = [], keys = [], pointers = []\<rparr>"

definition vnc_handshake :: "'w sock_ops \<Rightarrow> u16 \<Rightarrow> u16 \<Rightarrow> 'w \<Rightarrow> bool \<times> 'w" where
  "vnc_handshake so width height w0 =
     (case send_all so (map (of_char :: char \<Rightarrow> u8) ''RFB 003.008'' @ [10]) w0 of
        (False, w) \<Rightarrow> (False, w)
      | (True, w) \<Rightarrow> (case recv_all so 12 w of
          (None, w) \<Rightarrow> (False, w)
        | (Some _, w) \<Rightarrow> (case send_all so [1, 1] w of
            (False, w) \<Rightarrow> (False, w)
          | (True, w) \<Rightarrow> (case recv_all so 1 w of
              (None, w) \<Rightarrow> (False, w)
            | (Some b, w) \<Rightarrow>
                if b ! 0 \<noteq> 1 then (False, w)
                else (case send_all so [0, 0, 0, 0] w of
                  (False, w) \<Rightarrow> (False, w)
                | (True, w) \<Rightarrow> (case recv_all so 1 w of
                    (None, w) \<Rightarrow> (False, w)
                  | (Some _, w) \<Rightarrow> send_all so (send_server_init width height) w))))))"

text \<open>\<^verbatim>\<open>send_update\<close>; \<open>Some (True, \<dots>)\<close> is the result 0.\<close>

definition send_update ::
  "'w sock_ops \<Rightarrow> vnc_cfg \<Rightarrow> fb_state \<Rightarrow> int \<Rightarrow> int \<Rightarrow> int \<Rightarrow> int \<Rightarrow> vnc_conn \<Rightarrow> 'w \<Rightarrow>
   (bool \<times> vnc_conn \<times> 'w) option" where
  "send_update so cfg s x y w h c wd =
     (let c1 = c\<lparr>updates := (x, y, w, h) # updates c\<rparr>
      in if client_hextile c \<and> ht_skip c = 0
         then (case send_rect_hextile s (tabs c) (fmt c) x y w h (ht_skip c) of
                 None \<Rightarrow> Some (False, c1, wd)
               | Some (ms, sk) \<Rightarrow> (case send_msgs so ms wd of
                   (False, wd') \<Rightarrow> Some (False, c1, wd')
                 | (True, wd') \<Rightarrow> Some (True, c1\<lparr>ht_skip := sk\<rparr>, wd')))
         else let c2 = (if client_hextile c then c1\<lparr>ht_skip := ht_skip c - 1\<rparr> else c1)
              in (case send_rect cfg s (tabs c) (fmt c) x y w h of
                    None \<Rightarrow> None
                  | Some None \<Rightarrow> Some (False, c2, wd)
                  | Some (Some ms) \<Rightarrow> (case send_msgs so ms wd of (ok, wd') \<Rightarrow> Some (ok, c2, wd'))))"

definition VNC_MIN_FRAME_MS :: int where
  "VNC_MIN_FRAME_MS = 1000 div 10"

text \<open>
  Step 1 of the client loop: answer a pending incremental request from the dirty box.  \<open>now\<close>
  and \<open>now'\<close> are the two readings of the clock; the first component is whether to go on.
\<close>

definition vnc_service ::
  "'w sock_ops \<Rightarrow> vnc_cfg \<Rightarrow> int \<Rightarrow> int \<Rightarrow> fb_state \<Rightarrow> vnc_conn \<Rightarrow> 'w \<Rightarrow>
   (bool \<times> fb_state \<times> vnc_conn \<times> 'w) option" where
  "vnc_service so cfg now now' s c wd =
     (if pending c \<and> now - last_send c \<ge> VNC_MIN_FRAME_MS
      then (case fb_take_dirty s of
              (None, s') \<Rightarrow> Some (True, s', c, wd)
            | (Some (dx, dy, dw, dh), s') \<Rightarrow>
                (case rq c of (rx, ry, rw, rh) \<Rightarrow>
                   (case rect_isect dx dy dw dh rx ry rw rh of
                      None \<Rightarrow> Some (True, s', c, wd)
                    | Some (ix, iy, iw, ih) \<Rightarrow>
                        (case send_update so cfg s' ix iy iw ih c wd of
                           None \<Rightarrow> None
                         | Some (False, c', wd') \<Rightarrow> Some (False, s', c', wd')
                         | Some (True, c', wd') \<Rightarrow>
                             Some (True, s', c'\<lparr>last_send := now', pending := False\<rparr>, wd')))))
      else Some (True, s, c, wd))"

text \<open>The encodings of a SetEncodings message, one at a time.\<close>

fun recv_encodings :: "'w sock_ops \<Rightarrow> nat \<Rightarrow> vnc_conn \<Rightarrow> 'w \<Rightarrow> bool \<times> vnc_conn \<times> 'w" where
  "recv_encodings so 0 c wd = (True, c, wd)"
| "recv_encodings so (Suc n) c wd =
     (case recv_all so 4 wd of
        (None, wd') \<Rightarrow> (False, c, wd')
      | (Some b, wd') \<Rightarrow>
          recv_encodings so n (if rd32 b = 5 then c\<lparr>client_hextile := True\<rparr> else c) wd')"

text \<open>The clamping of an update request to the framebuffer.\<close>

definition clamp_request :: "fb_state \<Rightarrow> u8 list \<Rightarrow> int \<times> int \<times> int \<times> int" where
  "clamp_request s b =
     (let x = uint (rd16 (drop 1 b)); y = uint (rd16 (drop 3 b));
          w = uint (rd16 (drop 5 b)); h = uint (rd16 (drop 7 b));
          x = (if x > FB_WIDTH s then FB_WIDTH s else x);
          y = (if y > FB_HEIGHT s then FB_HEIGHT s else y);
          w = (if x + w > FB_WIDTH s then FB_WIDTH s - x else w);
          h = (if y + h > FB_HEIGHT s then FB_HEIGHT s - y else h)
      in (x, y, w, h))"

definition vnc_update_req ::
  "'w sock_ops \<Rightarrow> vnc_cfg \<Rightarrow> int \<Rightarrow> u8 list \<Rightarrow> fb_state \<Rightarrow> vnc_conn \<Rightarrow> 'w \<Rightarrow>
   (bool \<times> fb_state \<times> vnc_conn \<times> 'w) option" where
  "vnc_update_req so cfg now b s c wd =
     (case clamp_request s b of (x, y, w, h) \<Rightarrow>
        if w \<le> 0 \<or> h \<le> 0 then Some (True, s, c, wd)
        else if b ! 0 = 0 then
          (case send_update so cfg s x y w h c wd of
             None \<Rightarrow> None
           | Some (False, c', wd') \<Rightarrow> Some (False, s, c', wd')
           | Some (True, c', wd') \<Rightarrow>
               Some (True, snd (fb_take_dirty s), c'\<lparr>last_send := now, pending := False\<rparr>, wd'))
        else Some (True, s, c\<lparr>rq := (x, y, w, h), pending := True\<rparr>, wd))"

text \<open>
  Step 3: read and handle one message.  \<open>key_cb\<close> and \<open>ptr_cb\<close> say whether an input handler
  is registered.
\<close>

definition vnc_message ::
  "'w sock_ops \<Rightarrow> vnc_cfg \<Rightarrow> bool \<Rightarrow> bool \<Rightarrow> int \<Rightarrow> fb_state \<Rightarrow> vnc_conn \<Rightarrow> 'w \<Rightarrow>
   (bool \<times> fb_state \<times> vnc_conn \<times> 'w) option" where
  "vnc_message so cfg key_cb ptr_cb now s c wd0 =
     (case recv_all so 1 wd0 of
        (None, wd) \<Rightarrow> Some (False, s, c, wd)
      | (Some t, wd) \<Rightarrow>
          if t ! 0 = 0 then
            (case recv_all so 19 wd of
               (None, wd) \<Rightarrow> Some (False, s, c, wd)
             | (Some b, wd) \<Rightarrow>
                 let f = parse_pixfmt (drop 3 b) in Some (True, s, c\<lparr>fmt := f, tabs := build_luts f\<rparr>, wd))
          else if t ! 0 = 2 then
            (case recv_all so 3 wd of
               (None, wd) \<Rightarrow> Some (False, s, c, wd)
             | (Some b, wd) \<Rightarrow>
                 (case recv_encodings so (unat (rd16 (drop 1 b))) c wd of
                    (ok, c', wd') \<Rightarrow> Some (ok, s, c', wd')))
          else if t ! 0 = 3 then
            (case recv_all so 9 wd of
               (None, wd) \<Rightarrow> Some (False, s, c, wd)
             | (Some b, wd) \<Rightarrow> vnc_update_req so cfg now b s c wd)
          else if t ! 0 = 4 then
            (case recv_all so 7 wd of
               (None, wd) \<Rightarrow> Some (False, s, c, wd)
             | (Some b, wd) \<Rightarrow>
                 Some (True, s, if key_cb then c\<lparr>keys := (b ! 0 \<noteq> 0, rd32 (drop 3 b)) # keys c\<rparr> else c, wd))
          else if t ! 0 = 5 then
            (case recv_all so 5 wd of
               (None, wd) \<Rightarrow> Some (False, s, c, wd)
             | (Some b, wd) \<Rightarrow>
                 Some (True, s, if ptr_cb then c\<lparr>pointers := (rd16 (drop 1 b), rd16 (drop 3 b), b ! 0) # pointers c\<rparr>
                                else c, wd))
          else if t ! 0 = 6 then
            (case recv_all so 7 wd of
               (None, wd) \<Rightarrow> Some (False, s, c, wd)
             | (Some b, wd) \<Rightarrow>
                 (case recv_discard so (unat (rd32 (drop 3 b))) wd of (ok, wd) \<Rightarrow> Some (ok, s, c, wd)))
          else Some (False, s, c, wd))"

section \<open>Helpers deliver every byte once\<close>

text \<open>
  What the helpers rely on of the sockets: received bytes are the next ones of the incoming
  stream and no more than asked for; sent bytes are appended to the outgoing stream.
\<close>

definition stream_sock :: "'w sock_ops \<Rightarrow> ('w \<Rightarrow> u8 list) \<Rightarrow> ('w \<Rightarrow> u8 list) \<Rightarrow> bool" where
  "stream_sock so inp out \<longleftrightarrow>
     (\<forall>n w bs w'. so_recv so n w = (Some bs, w') \<longrightarrow> length bs \<le> n \<and> inp w = bs @ inp w' \<and> out w' = out w) \<and>
     (\<forall>n w w'. so_recv so n w = (None, w') \<longrightarrow> inp w' = inp w \<and> out w' = out w) \<and>
     (\<forall>buf w r w'. so_send so buf w = (r, w') \<longrightarrow>
        r \<le> length buf \<and> out w' = out w @ take r buf \<and> inp w' = inp w)"

lemma recv_all_stream:
  assumes "stream_sock so inp out"
  shows "recv_all so n w = (Some bs, w') \<Longrightarrow> length bs = n \<and> inp w = bs @ inp w' \<and> out w' = out w"
proof (induction n arbitrary: w bs w' rule: less_induct)
  case (less n)
  show ?case
  proof (cases "n = 0")
    case True
    then show ?thesis using less.prems by (simp add: recv_all.simps)
  next
    case False
    then obtain b1 w1 cs where r: "so_recv so n w = (Some b1, w1)" "b1 \<noteq> []"
        "recv_all so (n - length b1) w1 = (Some cs, w')" "bs = b1 @ cs"
      using less.prems by (subst (asm) recv_all.simps) (auto split: prod.splits option.splits if_splits)
    have "length b1 \<le> n" "inp w = b1 @ inp w1" "out w1 = out w"
      using assms r(1) unfolding stream_sock_def by blast+
    moreover have "n - length b1 < n" using False r(2) by simp
    ultimately show ?thesis using less.IH [OF _ r(3)] r(4) by simp
  qed
qed

lemma send_all_stream:
  assumes "stream_sock so inp out"
  shows "send_all so buf w = (ok, w') \<Longrightarrow>
    inp w' = inp w \<and> (\<exists>k \<le> length buf. out w' = out w @ take k buf \<and> (ok \<longrightarrow> k = length buf))"
proof (induction "length buf" arbitrary: buf w rule: less_induct)
  case less
  show ?case
  proof (cases "buf = []")
    case True
    then show ?thesis using less.prems by (simp add: send_all.simps)
  next
    case False
    obtain r w1 where r: "so_send so buf w = (r, w1)" by (cases "so_send so buf w")
    have s: "r \<le> length buf" "out w1 = out w @ take r buf" "inp w1 = inp w"
      using assms r unfolding stream_sock_def by blast+
    show ?thesis
    proof (cases "r = 0")
      case True
      then show ?thesis using less.prems False r s by (auto simp: send_all.simps)
    next
      case pos: False
      have "send_all so (drop r buf) w1 = (ok, w')"
        using less.prems False r pos by (subst (asm) send_all.simps) simp
      then obtain k where "inp w' = inp w1" "k \<le> length buf - r" "out w' = out w1 @ take k (drop r buf)"
          "ok \<longrightarrow> k = length buf - r"
        using less.hyps [of "drop r buf" w1] False pos by auto
      then show ?thesis
        using s by (intro conjI exI [of _ "r + k"]) (auto simp: take_add)
    qed
  qed
qed

section \<open>Raw batches\<close>

lemma fill_batch_concat: "fill_batch rb buf rows = (b', rest) \<Longrightarrow> b' @ concat rest = buf @ concat rows"
  by (induction rb buf rows rule: fill_batch.induct) (auto split: if_splits)

lemma fill_batch_rest: "length (snd (fill_batch rb buf rows)) \<le> length rows"
  by (induction rb buf rows rule: fill_batch.induct) (auto intro: le_SucI)

lemma next_batch_concat: "fst (next_batch blit rb rows) @ concat (snd (next_batch blit rb rows)) = concat rows"
proof -
  have "concat (take n rows) @ concat (drop n rows) = concat rows" for n
    by (metis append_take_drop_id concat_append)
  then show ?thesis
    using fill_batch_concat [of rb "[]" rows] by (cases "fill_batch rb [] rows") (simp add: next_batch_def Let_def)
qed

lemma next_batch_less:
  assumes "rb \<le> SENDBUF_SZ" and "rows \<noteq> []"
  shows "length (snd (next_batch blit rb rows)) < length rows"
proof (cases rows)
  case (Cons r rs)
  then have "length (snd (fill_batch rb [] rows)) < length rows"
    using assms(1) fill_batch_rest [of rb r rs] by simp
  then show ?thesis using Cons by (auto simp: next_batch_def Let_def)
qed (use assms(2) in simp)

lemma raw_chunks_total:
  assumes "rb \<le> SENDBUF_SZ"
  shows "\<exists>cs. raw_chunks blit rb rows = Some cs \<and> concat cs = concat rows"
proof (induction "length rows" arbitrary: rows rule: less_induct)
  case less
  show ?case
  proof (cases "rows = []")
    case True
    then show ?thesis by (simp add: raw_chunks.simps)
  next
    case False
    obtain cs where "raw_chunks blit rb (snd (next_batch blit rb rows)) = Some cs"
        "concat cs = concat (snd (next_batch blit rb rows))"
      using less [OF next_batch_less [OF assms False]] by blast
    then show ?thesis
      using False next_batch_concat [of blit rb rows] by (subst raw_chunks.simps) simp
  qed
qed

lemma fb_row_pixels: "fb_row s x y w = map (\<lambda>c. pixel s (x + int c) y) [0..<w]"
  by (simp add: fb_row_def pixel_def add.assoc)

lemma fb_row_full:
  assumes "0 \<le> FB_WIDTH s" and "0 \<le> y" and "(y + 1) * FB_WIDTH s \<le> int (length (fb s))"
  shows "fb_row s 0 y (nat (FB_WIDTH s)) = take (nat (FB_WIDTH s)) (drop (nat (y * FB_WIDTH s)) (fb s))"
proof (rule nth_equalityI)
  have b: "nat (y * FB_WIDTH s) + nat (FB_WIDTH s) \<le> length (fb s)"
    using assms by (simp add: nat_add_distrib [symmetric] algebra_simps)
  then show "length (fb_row s 0 y (nat (FB_WIDTH s))) = length (take (nat (FB_WIDTH s)) (drop (nat (y * FB_WIDTH s)) (fb s)))"
    by (simp add: fb_row_def)
  fix i assume "i < length (fb_row s 0 y (nat (FB_WIDTH s)))"
  then show "fb_row s 0 y (nat (FB_WIDTH s)) ! i = take (nat (FB_WIDTH s)) (drop (nat (y * FB_WIDTH s)) (fb s)) ! i"
    using assms b by (simp add: fb_row_def nat_add_distrib)
qed

lemma fb_rows_full:
  assumes "0 \<le> FB_WIDTH s" and "0 \<le> y" and "(y + int h) * FB_WIDTH s \<le> int (length (fb s))"
  shows "take (h * nat (FB_WIDTH s)) (drop (nat (y * FB_WIDTH s)) (fb s)) =
    concat (map (\<lambda>r. fb_row s 0 (y + int r) (nat (FB_WIDTH s))) [0..<h])"
  using assms(3)
proof (induction h)
  case (Suc h)
  let ?W = "nat (FB_WIDTH s)"
  have le: "(y + int h) * FB_WIDTH s \<le> (y + int (Suc h)) * FB_WIDTH s"
    using assms(1) by (intro mult_right_mono) simp_all
  have "fb_row s 0 (y + int h) ?W = take ?W (drop (nat ((y + int h) * FB_WIDTH s)) (fb s))"
    using assms Suc.prems by (intro fb_row_full) (simp_all add: algebra_simps)
  moreover have "nat ((y + int h) * FB_WIDTH s) = h * ?W + nat (y * FB_WIDTH s)"
    using assms(1,2) by (simp add: distrib_right nat_add_distrib nat_mult_distrib)
  ultimately show ?case
    using Suc.IH le Suc.prems take_add [of "h * ?W" ?W "drop (nat (y * FB_WIDTH s)) (fb s)"]
    by (simp add: add.commute)
qed simp

lemma raw_row_emit:
  assumes "l = build_luts f" and "b = unat (bpp f) div 8"
  shows "raw_row s l f b x y w = concat (map (\<lambda>c. emit_px l f b (pixel s (x + int c) y)) [0..<w])"
  using encode_raw_row [OF assms, of "fb_row s x y w"]
  by (simp add: raw_row_def fb_row_pixels comp_def)

definition raw_bytes :: "fb_state \<Rightarrow> pixfmt \<Rightarrow> int \<Rightarrow> int \<Rightarrow> nat \<Rightarrow> nat \<Rightarrow> u8 list" where
  "raw_bytes s f x y w h = concat (map (\<lambda>r. concat (map (\<lambda>c.
     emit_px (build_luts f) f (unat (bpp f) div 8) (pixel s (x + int c) (y + int r))) [0..<w])) [0..<h])"

lemma zero_copy_bytes:
  assumes "fmt_native (build_luts f)" and "0 \<le> FB_WIDTH s" and "0 \<le> y" and "0 \<le> h"
    and "(y + h) * FB_WIDTH s \<le> int (length (fb s))"
  shows "concat (map native_bytes (take (nat (h * FB_WIDTH s)) (drop (nat (y * FB_WIDTH s)) (fb s)))) =
    raw_bytes s f 0 y (nat (FB_WIDTH s)) (nat h)"
proof -
  let ?W = "nat (FB_WIDTH s)"
  have t: "take (nat (h * FB_WIDTH s)) (drop (nat (y * FB_WIDTH s)) (fb s)) =
      concat (map (\<lambda>r. fb_row s 0 (y + int r) ?W) [0..<nat h])"
    using fb_rows_full [of s y "nat h"] assms(2-5) by (simp add: nat_mult_distrib)
  have c: "concat (map native_bytes (concat xss)) = concat (map (\<lambda>xs. concat (map native_bytes xs)) xss)"
    for xss by (induction xss) auto
  have e: "emit_px (build_luts f) f (unat (bpp f) div 8) px = native_bytes px" for px
    using native_emit [OF assms(1)] by simp
  show ?thesis unfolding t c raw_bytes_def e by (simp add: fb_row_pixels comp_def)
qed

section \<open>The client loop\<close>

definition rect_on_screen :: "fb_state \<Rightarrow> int \<times> int \<times> int \<times> int \<Rightarrow> bool" where
  "rect_on_screen s r \<longleftrightarrow> (case r of (x, y, w, h) \<Rightarrow>
     0 \<le> x \<and> 0 < w \<and> x + w \<le> FB_WIDTH s \<and> 0 \<le> y \<and> 0 < h \<and> y + h \<le> FB_HEIGHT s)"

definition vnc_safe :: "fb_state \<times> vnc_conn \<times> 'w \<Rightarrow> bool" where
  "vnc_safe st \<longleftrightarrow> (case st of (s, c, wd) \<Rightarrow>
     fb_inv s \<and> (\<forall>r \<in> set (updates c). rect_on_screen s r) \<and> (pending c \<longrightarrow> rect_on_screen s (rq c)))"

text \<open>A step of the server or of a thread that draws.\<close>

inductive vnc_step :: "'w sock_ops \<Rightarrow> vnc_cfg \<Rightarrow> fb_state \<times> vnc_conn \<times> 'w \<Rightarrow> fb_state \<times> vnc_conn \<times> 'w \<Rightarrow> bool"
  for so cfg where
  Service: "vnc_service so cfg now now' s c wd = Some (go, s', c', wd') \<Longrightarrow> vnc_step so cfg (s, c, wd) (s', c', wd')"
| Message: "vnc_message so cfg kc pc now s c wd = Some (go, s', c', wd') \<Longrightarrow> vnc_step so cfg (s, c, wd) (s', c', wd')"
| Draw: "fb_op_ok p \<Longrightarrow> vnc_step so cfg (s, c, wd) (fb_exec p s, c, wd)"

lemma send_update_frame:
  "send_update so cfg s x y w h c wd = Some (ok, c', wd') \<Longrightarrow>
   updates c' = (x, y, w, h) # updates c \<and> pending c' = pending c \<and> rq c' = rq c"
  by (auto simp: send_update_def Let_def split: if_splits option.splits prod.splits bool.splits)

lemma take_dirty_frame:
  assumes "fb_inv s" and "fb_take_dirty s = (box, s')"
  shows "fb_inv s'" and "FB_WIDTH s' = FB_WIDTH s" and "FB_HEIGHT s' = FB_HEIGHT s"
    and "box = Some r \<Longrightarrow> rect_on_screen s r" and "dirty_x1 s' \<le> dirty_x0 s'"
proof -
  have d: "s32 (dirty_x1 s - dirty_x0 s) = dirty_x1 s - dirty_x0 s"
    "s32 (dirty_y1 s - dirty_y0 s) = dirty_y1 s - dirty_y0 s" if "dirty_x0 s < dirty_x1 s"
    using assms(1) that by (simp_all add: fb_inv_def)
  show "fb_inv s'" "FB_WIDTH s' = FB_WIDTH s" "FB_HEIGHT s' = FB_HEIGHT s" "dirty_x1 s' \<le> dirty_x0 s'"
    using assms by (auto simp: fb_take_dirty_def fb_inv_def split: if_splits)
  show "rect_on_screen s r" if "box = Some r"
    using assms that d by (auto simp: fb_take_dirty_def fb_inv_def rect_on_screen_def split: if_splits)
qed

lemma isect_on_screen:
  assumes "fb_inv s" and "rect_on_screen s (ax, ay, aw, ah)" and "rect_on_screen s (bx, by', bw, bh)"
    and "rect_isect ax ay aw ah bx by' bw bh = Some r"
  shows "rect_on_screen s r"
proof -
  have e: "s32 (ax + aw) = ax + aw" "s32 (ay + ah) = ay + ah" "s32 (bx + bw) = bx + bw" "s32 (by' + bh) = by' + bh"
    using assms(1-3) by (simp_all add: rect_on_screen_def fb_inv_def)
  have m: "s32 (min (ax + aw) (bx + bw) - max ax bx) = min (ax + aw) (bx + bw) - max ax bx"
    "s32 (min (ay + ah) (by' + bh) - max ay by') = min (ay + ah) (by' + bh) - max ay by'"
    using assms(1-3) by (auto simp: rect_on_screen_def fb_inv_def min_def max_def intro!: s32_id)
  show ?thesis
    using assms unfolding rect_isect_def Let_def e m
    by (auto simp: rect_on_screen_def not_le split: if_splits)
qed

lemma clamp_on_screen:
  assumes "fb_inv s" and "clamp_request s b = (x, y, w, h)" and "0 < w" and "0 < h"
  shows "rect_on_screen s (x, y, w, h)"
  using assms by (auto simp: clamp_request_def Let_def rect_on_screen_def fb_inv_def split: if_splits)

lemma on_screen_cong:
  "FB_WIDTH s' = FB_WIDTH s \<Longrightarrow> FB_HEIGHT s' = FB_HEIGHT s \<Longrightarrow> rect_on_screen s' r = rect_on_screen s r"
  by (simp add: rect_on_screen_def)

lemma service_safe:
  assumes "vnc_safe (s, c, wd)" and "vnc_service so cfg now now' s c wd = Some (go, s', c', wd')"
  shows "vnc_safe (s', c', wd')"
proof -
  obtain box s1 where t: "fb_take_dirty s = (box, s1)" by (cases "fb_take_dirty s")
  have inv: "fb_inv s" and rq: "pending c \<Longrightarrow> rect_on_screen s (rq c)"
    and up: "\<And>r. r \<in> set (updates c) \<Longrightarrow> rect_on_screen s r"
    using assms(1) by (auto simp: vnc_safe_def)
  note tk = take_dirty_frame [OF inv t]
  note cong = on_screen_cong [OF tk(2,3)]
  obtain rx ry rw rh where rqc: "rq c = (rx, ry, rw, rh)" by (rule prod_cases4)
  have upd: "rect_on_screen s r"
    if "box = Some (dx, dy, dw, dh)" "rect_isect dx dy dw dh rx ry rw rh = Some r" "pending c" for dx dy dw dh r
    using isect_on_screen [OF inv tk(4) [OF that(1)] _ that(2)] rq [OF that(3)] rqc by simp
  show ?thesis
    using assms(2) inv rq up tk(1) cong upd rqc unfolding vnc_service_def t
    by (auto simp: vnc_safe_def split: if_splits option.splits prod.splits bool.splits
        dest!: send_update_frame)
qed

lemma recv_encodings_frame:
  "recv_encodings so n c wd = (ok, c', wd') \<Longrightarrow> updates c' = updates c \<and> pending c' = pending c \<and> rq c' = rq c"
  by (induction so n c wd rule: recv_encodings.induct) (auto split: prod.splits option.splits if_splits)

lemma update_req_safe:
  assumes "vnc_safe (s, c, wd)" and "vnc_update_req so cfg now b s c wd = Some (go, s', c', wd')"
  shows "vnc_safe (s', c', wd')"
proof -
  obtain x y w h where cl: "clamp_request s b = (x, y, w, h)" by (rule prod_cases4)
  obtain box s1 where t: "fb_take_dirty s = (box, s1)" by (cases "fb_take_dirty s")
  have inv: "fb_inv s" using assms(1) by (simp add: vnc_safe_def)
  note tk = take_dirty_frame [OF inv t]
  note cong = on_screen_cong [OF tk(2,3)]
  have "0 < w \<Longrightarrow> 0 < h \<Longrightarrow> rect_on_screen s (x, y, w, h)" by (rule clamp_on_screen [OF inv cl])
  then show ?thesis
    using assms tk(1) cong cl t unfolding vnc_update_req_def
    by (auto simp: vnc_safe_def not_le split: if_splits option.splits prod.splits bool.splits
        dest!: send_update_frame)
qed

lemma vnc_safe_frame:
  "vnc_safe (s, c, wd) \<Longrightarrow> updates c' = updates c \<Longrightarrow> pending c' = pending c \<Longrightarrow> rq c' = rq c \<Longrightarrow> vnc_safe (s, c', wd')"
  by (simp add: vnc_safe_def)

lemma message_cases:
  assumes "vnc_message so cfg kc pc now s c wd = Some (go, s', c', wd')"
  obtains b wd1 where "vnc_update_req so cfg now b s c wd1 = Some (go, s', c', wd')"
  | "s' = s" "updates c' = updates c" "pending c' = pending c" "rq c' = rq c"
proof -
  obtain t wd1 where t: "recv_all so 1 wd = (t, wd1)" by (cases "recv_all so 1 wd")
  show thesis
  proof (cases "\<exists>t0 b wd2. t = Some t0 \<and> t0 ! 0 = 3 \<and> recv_all so 9 wd1 = (Some b, wd2)")
    case True
    then show thesis using assms that(1) unfolding vnc_message_def t by auto
  next
    case False
    have "s' = s \<and> updates c' = updates c \<and> pending c' = pending c \<and> rq c' = rq c"
      using assms False unfolding vnc_message_def t Let_def
      by (cases t) (simp_all split: option.split_asm prod.split_asm if_split_asm,
        auto dest: recv_encodings_frame)
    then show thesis using that(2) by blast
  qed
qed

lemma message_safe:
  assumes "vnc_safe (s, c, wd)" and "vnc_message so cfg kc pc now s c wd = Some (go, s', c', wd')"
  shows "vnc_safe (s', c', wd')"
  using assms(2)
proof (cases rule: message_cases)
  case (1 b wd1)
  have "vnc_safe (s, c, wd1)" by (rule vnc_safe_frame [OF assms(1)]) (rule refl)+
  then show ?thesis using 1 by (rule update_req_safe)
next
  case 2
  show ?thesis unfolding 2(1) by (rule vnc_safe_frame [OF assms(1) 2(2-4)])
qed

interpretation vnc: invariant_system
  "\<lambda>st. fb_inv (fst st) \<and> fst (snd st) = vnc_connected" "vnc_step so cfg" vnc_safe for so cfg
proof unfold_locales
  fix st :: "fb_state \<times> vnc_conn \<times> 'a"
  assume "fb_inv (fst st) \<and> fst (snd st) = vnc_connected"
  then show "vnc_safe st" by (auto simp: vnc_safe_def vnc_connected_def split: prod.splits)
next
  fix st st' :: "fb_state \<times> vnc_conn \<times> 'a"
  assume "vnc_step so cfg st st'" "vnc_safe st"
  then show "vnc_safe st'"
  proof cases
    case (Draw p s c wd)
    have "tracked s (fb_exec p s)" using Draw \<open>vnc_safe st\<close> by (simp add: vnc_safe_def tracked_exec)
    then show ?thesis
      using Draw \<open>vnc_safe st\<close> by (simp add: vnc_safe_def tracked_def rect_on_screen_def)
  next
    case (Service now now' s c wd go s' c' wd')
    show ?thesis unfolding Service(2)
      by (rule service_safe [OF _ Service(3)]) (use \<open>vnc_safe st\<close> Service(1) in simp)
  next
    case (Message kc pc now s c wd go s' c' wd')
    show ?thesis unfolding Message(2)
      by (rule message_safe [OF _ Message(3)]) (use \<open>vnc_safe st\<close> Message(1) in simp)
  qed
qed

lemma send_rect_total:
  assumes "fb_inv s" and "rect_on_screen s (x, y, w, h)"
    and "1 \<le> unat (bpp f) div 8" and "unat (bpp f) div 8 \<le> 4" and "nat w * (unat (bpp f) div 8) \<le> SENDBUF_SZ"
  shows "\<exists>ms. send_rect cfg s (build_luts f) f x y w h = Some (Some ms) \<and>
    concat ms = rect_header x y w h 0 @ raw_bytes s f x y (nat w) (nat h)"
proof -
  let ?b = "unat (bpp f) div 8" and ?l = "build_luts f"
  let ?rows = "map (\<lambda>r. raw_row s ?l f ?b x (y + int r) (nat w)) [0..<nat h]"
  have pos: "0 < w" "0 < h" "0 \<le> y" "y + h \<le> FB_HEIGHT s" using assms(2) by (simp_all add: rect_on_screen_def)
  have rows: "concat ?rows = raw_bytes s f x y (nat w) (nat h)"
    by (simp add: raw_bytes_def raw_row_emit [OF refl refl] comp_def)
  show ?thesis
  proof (cases "ZERO_COPY cfg \<and> fmt_native ?l \<and> x = 0 \<and> w = FB_WIDTH s")
    case True
    have "(y + h) * FB_WIDTH s \<le> FB_HEIGHT s * FB_WIDTH s"
      using pos assms(1) by (intro mult_right_mono) (simp_all add: fb_inv_def)
    then have "concat (map native_bytes (take (nat (h * FB_WIDTH s)) (drop (nat (y * FB_WIDTH s)) (fb s)))) =
        raw_bytes s f 0 y (nat (FB_WIDTH s)) (nat h)"
      using True pos assms(1) by (intro zero_copy_bytes) (simp_all add: fb_inv_def mult.commute)
    then show ?thesis using True assms(3,4) pos by (simp add: send_rect_def Let_def)
  next
    case False
    obtain cs where "raw_chunks (fmt_native ?l \<and> send_blit cfg) (nat w * ?b) ?rows = Some cs" "concat cs = concat ?rows"
      using raw_chunks_total [OF assms(5)] by blast
    then show ?thesis
      unfolding send_rect_def Let_def if_not_P [OF False] using assms(3,4) pos rows by simp
  qed
qed

section \<open>Properties\<close>

text \<open>
  A socket for examples: the peer's bytes come one at a time, sends accept one byte; the
  state is the pair of what is still to come and what was sent.
\<close>

definition slow_sock :: "(u8 list \<times> u8 list) sock_ops" where
  "slow_sock = \<lparr>so_recv = (\<lambda>n w. case fst w of [] \<Rightarrow> (None, w) | b # bs \<Rightarrow> if n = 0 then (Some [], w) else (Some [b], (bs, snd w))),
     so_send = (\<lambda>buf w. case buf of [] \<Rightarrow> (0, w) | b # _ \<Rightarrow> (1, (fst w, snd w @ [b])))\<rparr>"

lemma slow_sock_stream: "stream_sock slow_sock fst snd"
  by (auto simp: stream_sock_def slow_sock_def split: list.splits if_splits)

lemma slow_send_all: "send_all slow_sock buf w = (True, (fst w, snd w @ buf))"
proof (induction buf arbitrary: w)
  case (Cons b buf)
  then show ?case by (subst send_all.simps) (simp add: slow_sock_def)
qed (simp add: send_all.simps)

lemma slow_send_msgs: "send_msgs slow_sock ms w = (True, (fst w, snd w @ concat ms))"
  by (induction ms arbitrary: w) (simp_all add: slow_send_all)

lemma slow_update:
  assumes "fb_inv s" and "rect_on_screen s (x, y, w, h)" and "FB_WIDTH s \<le> 1000" and "fmt c = native_fmt"
    and "tabs c = build_luts native_fmt" and "\<not> client_hextile c"
  shows "\<exists>c' wd'. send_update slow_sock cfg s x y w h c wd = Some (True, c', wd')"
proof -
  have "nat w \<le> 1000" using assms(2,3) by (auto simp: rect_on_screen_def nat_le_iff)
  then obtain ms where "send_rect cfg s (build_luts native_fmt) native_fmt x y w h = Some (Some ms)"
    using send_rect_total [OF assms(1,2), of native_fmt cfg] by (auto simp: native_fmt_def SENDBUF_SZ_def)
  then show ?thesis using assms(4-6) by (simp add: send_update_def Let_def slow_send_msgs)
qed



text \<open>
  C31: the server never reads outside the framebuffer.  Whatever a client sends, however the
  socket splits it, and whatever is drawn meanwhile, every rectangle an update was sent for
  and every region remembered for later lies inside the screen and is not empty.
\<close>

theorem vnc_rects_on_screen:
  assumes "fb_inv s0" and "(vnc_step so cfg)\<^sup>*\<^sup>* (s0, vnc_connected, w0) (s, c, w)"
  shows "(\<forall>r \<in> set (updates c). rect_on_screen s r) \<and> (pending c \<longrightarrow> rect_on_screen s (rq c))"
  using vnc.reachable_invar [of "(s0, vnc_connected, w0)" so cfg "(s, c, w)"] assms by (simp add: vnc_safe_def)

theorem vnc_rects_witness:
  "rect_on_screen sample_fb (2, 1, 14, 4)"
proof -
  let ?c = "vnc_connected\<lparr>rq := (2, 1, 14, 4), pending := True\<rparr>"
  have "vnc_message slow_sock cfg True True 0 sample_fb vnc_connected ([3, 1, 0, 2, 0, 1, 255, 255, 0, 4], []) =
      Some (True, sample_fb, ?c, ([], []))" for cfg
    by (simp add: vnc_message_def recv_all.simps slow_sock_def vnc_update_req_def clamp_request_def rd16_def
        sample_fb_def)
  then have "vnc_step slow_sock cfg (sample_fb, vnc_connected, ([3, 1, 0, 2, 0, 1, 255, 255, 0, 4], []))
      (sample_fb, ?c, ([], []))" for cfg
    by (rule Message)
  then show ?thesis
    using vnc_rects_on_screen [OF sample_fb_inv r_into_rtranclp, of slow_sock] by fastforce
qed

text \<open>
  C15: an incremental update of the whole screen loses nothing.  If the dirty box was empty,
  any drawing has happened since, and a pending request for the whole screen is serviced
  after the throttle interval without a socket error, then every pixel that changed lies in
  the rectangle just sent, or nothing changed.
\<close>

theorem incremental_complete:
  assumes "fb_inv s" and "dirty_x1 s \<le> dirty_x0 s" and "list_all fb_op_ok ps" and "t = fold fb_exec ps s"
    and "pending c" and "rq c = (0, 0, FB_WIDTH s, FB_HEIGHT s)" and "VNC_MIN_FRAME_MS \<le> now - last_send c"
    and "vnc_service so cfg now now' t c w = Some (True, t', c', w')"
    and "on_screen s X Y" and "pixel t X Y \<noteq> pixel s X Y"
  shows "\<exists>x y wd h. updates c' = (x, y, wd, h) # updates c \<and> in_rect x y wd h X Y \<and> \<not> pending c'"
proof -
  have tr: "tracked s t" using tracked_run [OF assms(1,3)] assms(4) by simp
  then have inv: "fb_inv t" and dim: "FB_WIDTH t = FB_WIDTH s" "FB_HEIGHT t = FB_HEIGHT s" and ind: "in_dirty t X Y"
    using assms(9,10) by (auto simp: tracked_def)
  define dx dy dw dh where d: "dx = dirty_x0 t" "dy = dirty_y0 t" "dw = dirty_x1 t - dirty_x0 t"
    "dh = dirty_y1 t - dirty_y0 t"
  define t1 where "t1 = t\<lparr>dirty_x0 := 0, dirty_x1 := 0\<rparr>"
  have tk: "fb_take_dirty t = (Some (dx, dy, dw, dh), t1)"
    using ind inv by (simp add: fb_take_dirty_def in_dirty_def fb_inv_def d t1_def)
  have scr: "rect_on_screen t (dx, dy, dw, dh)" using take_dirty_frame(4) [OF inv tk] by simp
  have "rect_isect dx dy dw dh 0 0 (FB_WIDTH s) (FB_HEIGHT s) = Some (dx, dy, dw, dh)"
    using scr inv dim by (simp add: rect_isect_def Let_def rect_on_screen_def fb_inv_def)
  then obtain c1 where u: "send_update so cfg t1 dx dy dw dh c w = Some (True, c1, w')"
    and c': "c' = c1\<lparr>last_send := now', pending := False\<rparr>"
    using assms(5-8) tk unfolding vnc_service_def
    by (auto split: option.splits bool.splits)
  show ?thesis
    using send_update_frame [OF u] ind by (auto simp: c' in_rect_def in_dirty_def d)
qed

theorem incremental_witness:
  "\<exists>t' c' w' x y wd h. vnc_service slow_sock \<lparr>ZERO_COPY = True, send_blit = True\<rparr> 100 100 (fb_put_pixel 1 2 3 sample_fb)
       (vnc_connected\<lparr>pending := True, rq := (0, 0, 16, 8)\<rparr>) ([], []) = Some (True, t', c', w') \<and>
     updates c' = [(x, y, wd, h)] \<and> in_rect x y wd h 1 2"
proof -
  let ?t = "fb_put_pixel 1 2 3 sample_fb" and ?c = "vnc_connected\<lparr>pending := True, rq := (0, 0, 16, 8)\<rparr>"
  have tk: "fb_take_dirty ?t = (Some (1, 2, 1, 1), ?t\<lparr>dirty_x0 := 0, dirty_x1 := 0\<rparr>)"
    by (simp add: fb_put_pixel_def sample_fb_def dirty_add_locked_def fb_take_dirty_def)
  have inv: "fb_inv (?t\<lparr>dirty_x0 := 0, dirty_x1 := 0\<rparr>)"
    by (simp add: fb_put_pixel_def sample_fb_def dirty_add_locked_def fb_inv_def)
  have "\<exists>c' wd'. send_update slow_sock \<lparr>ZERO_COPY = True, send_blit = True\<rparr> (?t\<lparr>dirty_x0 := 0, dirty_x1 := 0\<rparr>) 1 2 1 1 ?c ([], []) = Some (True, c', wd')"
    by (rule slow_update [OF inv])
      (simp_all add: fb_put_pixel_def sample_fb_def dirty_add_locked_def rect_on_screen_def vnc_connected_def)
  then obtain t' c' w' where s: "vnc_service slow_sock \<lparr>ZERO_COPY = True, send_blit = True\<rparr> 100 100 ?t ?c ([], []) = Some (True, t', c', w')"
    unfolding vnc_service_def tk
    by (auto simp: vnc_connected_def VNC_MIN_FRAME_MS_def rect_isect_def)
  have "pixel ?t 1 2 \<noteq> pixel sample_fb 1 2"
    by (simp add: fb_put_pixel_def sample_fb_def) (simp add: pixel_def)
  then have "\<exists>x y wd h. updates c' = (x, y, wd, h) # updates ?c \<and> in_rect x y wd h 1 2 \<and> \<not> pending c'"
    by (intro incremental_complete [OF sample_fb_inv _ _ _ _ _ _ s, of "[FbPut 1 2 3]"])
      (simp_all add: sample_fb_def rect_ok_def vnc_connected_def VNC_MIN_FRAME_MS_def on_screen_def)
  then show ?thesis using s by (auto simp: vnc_connected_def)
qed

text \<open>
  A full repaint forgets dirt it did not send.  After a non-incremental request for any
  region, however small, the dirty box is empty, although only the clamped region was sent;
  a change outside it is not announced by a later incremental update.
\<close>

theorem repaint_drops_dirt:
  assumes "fb_inv s" and "clamp_request s b = (x, y, wd, h)" and "0 < wd" and "0 < h" and "b ! 0 = 0"
    and "vnc_update_req so cfg now b s c w = Some (True, s', c', w')"
  shows "dirty_x1 s' \<le> dirty_x0 s' \<and> updates c' = (x, y, wd, h) # updates c"
proof -
  obtain box s1 where t: "fb_take_dirty s = (box, s1)" by (cases "fb_take_dirty s")
  show ?thesis
    using assms(2-6) take_dirty_frame(5) [OF assms(1) t] t unfolding vnc_update_req_def
    by (auto split: option.splits bool.splits dest!: send_update_frame)
qed

theorem repaint_drops_witness:
  "\<exists>s' c' w'. vnc_update_req slow_sock \<lparr>ZERO_COPY = True, send_blit = True\<rparr> 0 [0, 0, 9, 0, 1, 0, 1, 0, 1] (fb_put_pixel 1 2 3 sample_fb) vnc_connected ([], []) =
      Some (True, s', c', w') \<and> dirty_x1 s' \<le> dirty_x0 s' \<and> updates c' = [(9, 1, 1, 1)]"
proof -
  let ?t = "fb_put_pixel 1 2 3 sample_fb" and ?b = "[0, 0, 9, 0, 1, 0, 1, 0, 1] :: u8 list"
  have inv: "fb_inv ?t" by (simp add: fb_put_pixel_def sample_fb_def dirty_add_locked_def fb_inv_def)
  have cl: "clamp_request ?t ?b = (9, 1, 1, 1)"
    by (simp add: clamp_request_def rd16_def fb_put_pixel_def sample_fb_def)
  have "\<exists>c' wd'. send_update slow_sock \<lparr>ZERO_COPY = True, send_blit = True\<rparr> ?t 9 1 1 1 vnc_connected ([], []) = Some (True, c', wd')"
    by (rule slow_update [OF inv])
      (simp_all add: fb_put_pixel_def sample_fb_def rect_on_screen_def vnc_connected_def)
  then obtain s' c' w' where s: "vnc_update_req slow_sock \<lparr>ZERO_COPY = True, send_blit = True\<rparr> 0 ?b ?t vnc_connected ([], []) = Some (True, s', c', w')"
    unfolding vnc_update_req_def cl by auto
  show ?thesis
    using repaint_drops_dirt [OF inv cl _ _ _ s] s by (auto simp: vnc_connected_def)
qed

text \<open>
  The socket helpers deliver every byte exactly once.  However the stack splits the
  transfers, \<^verbatim>\<open>recv_all\<close> returns exactly the next \<open>n\<close> bytes of the incoming stream or fails,
  and \<^verbatim>\<open>send_all\<close> appends all of the buffer, or fails having appended a prefix of it.
\<close>

theorem sock_helpers_exact:
  assumes "stream_sock so inp out"
  shows "(\<forall>n w bs w'. recv_all so n w = (Some bs, w') \<longrightarrow>
      length bs = n \<and> inp w = bs @ inp w' \<and> out w' = out w) \<and>
    (\<forall>buf w ok w'. send_all so buf w = (ok, w') \<longrightarrow>
      inp w' = inp w \<and> (\<exists>k \<le> length buf. out w' = out w @ take k buf \<and> (ok \<longrightarrow> k = length buf)))"
  using recv_all_stream [OF assms] send_all_stream [OF assms] by blast

theorem sock_helpers_witness:
  "snd (snd (send_all slow_sock [1, 2, 3] ([], [9]))) = [9, 1, 2, 3]"
  using sock_helpers_exact [OF slow_sock_stream] slow_send_all [of "[1, 2, 3]" "([], [9])"] by simp

end
