(* ===== verification/Cstring.thy ===== *)
theory Cstring
  imports Klauss_Prelude "HOL-Library.Sublist"
begin

text \<open>
  The C string functions the servers and the shell use, on lists of characters: a buffer is a
  list, the string in it ends at the first NUL.  Indices stand for pointers into the string.
\<close>

section \<open>Strings\<close>

definition NUL :: char where
  "NUL = CHR 0x00"

definition cstr :: "string \<Rightarrow> string" where
  "cstr buf = takeWhile (\<lambda>c. c \<noteq> NUL) buf"

definition strchr :: "char \<Rightarrow> string \<Rightarrow> nat option" where
  "strchr c s = first_idx ((=) c) s"

fun strstr :: "string \<Rightarrow> string \<Rightarrow> nat option" where
  "strstr p [] = (if p = [] then Some 0 else None)"
| "strstr p (c # s) = (if take (length p) (c # s) = p then Some 0 else map_option Suc (strstr p s))"

text \<open>\<^verbatim>\<open>snprintf(out, n, "%s", s)\<close> and \<^verbatim>\<open>strncpy\<close> with termination keep \<open>n - 1\<close> characters.\<close>

definition fit :: "nat \<Rightarrow> string \<Rightarrow> string" where
  "fit n s = take (n - 1) s"

lemma strstr_None: "strstr p s = None \<longleftrightarrow> \<not> sublist p s"
proof (induction s)
  case (Cons c s)
  have "take (length p) (c # s) = p \<longleftrightarrow> prefix p (c # s)"
    by (metis append_eq_conv_conj prefix_def take_is_prefix)
  then show ?case using Cons by (auto simp: sublist_Cons_right)
qed auto

lemma strstr_Some: "strstr p s = Some i \<Longrightarrow> i + length p \<le> length s \<and> take (length p) (drop i s) = p"
proof (induction s arbitrary: i)
  case (Cons c s)
  then show ?case
    by (auto split: if_splits) (metis length_Cons length_take min.bounded_iff nat_le_linear order_refl take_all)
qed (auto split: if_splits)

lemma cstr_no_NUL [simp]: "NUL \<notin> set (cstr s)"
  by (auto simp: cstr_def dest: set_takeWhileD)

lemma cstr_id: "NUL \<notin> set s \<Longrightarrow> cstr s = s"
  unfolding cstr_def by (rule takeWhile_eq_all_conv [THEN iffD2]) auto

lemma length_cstr: "length (cstr s) \<le> length s"
  by (simp add: cstr_def length_takeWhile_le)

section \<open>Character classes and numbers\<close>

definition tolower :: "char \<Rightarrow> char" where
  "tolower c = (let n = of_char c :: nat in if 65 \<le> n \<and> n \<le> 90 then char_of (n + 32) else c)"

definition is_digit :: "char \<Rightarrow> bool" where
  "is_digit c \<longleftrightarrow> (let n = of_char c :: nat in 48 \<le> n \<and> n \<le> 57)"

definition is_xdigit :: "char \<Rightarrow> bool" where
  "is_xdigit c \<longleftrightarrow> (let n = of_char c :: nat in (48 \<le> n \<and> n \<le> 57) \<or> (65 \<le> n \<and> n \<le> 70) \<or> (97 \<le> n \<and> n \<le> 102))"

definition is_space :: "char \<Rightarrow> bool" where
  "is_space c \<longleftrightarrow> (let n = of_char c :: nat in n = 32 \<or> (9 \<le> n \<and> n \<le> 13))"

definition hex_val :: "char \<Rightarrow> nat" where
  "hex_val c = (let n = of_char c :: nat in if n \<le> 57 then n - 48 else if n \<le> 70 then n - 55 else n - 87)"

fun dec_val :: "nat \<Rightarrow> string \<Rightarrow> nat" where
  "dec_val acc [] = acc"
| "dec_val acc (c # s) = dec_val (10 * acc + (of_char c - 48)) s"

definition skip_sign :: "string \<Rightarrow> bool \<times> string" where
  "skip_sign s = (case dropWhile is_space s of
      [] \<Rightarrow> (False, [])
    | c # t \<Rightarrow> if c = CHR ''-'' then (True, t) else if c = CHR ''+'' then (False, t) else (False, c # t))"

text \<open>\<^verbatim>\<open>strtol\<close> and \<^verbatim>\<open>strtoul\<close> in base 10 with a 64-bit \<^verbatim>\<open>long\<close>; out of range saturates.\<close>

definition strtol10 :: "string \<Rightarrow> int" where
  "strtol10 s = (case skip_sign s of (neg, t) \<Rightarrow>
     let v = int (dec_val 0 (takeWhile is_digit t))
     in if neg then max (- (2 ^ 63)) (- v) else min (2 ^ 63 - 1) v)"

definition strtoul10 :: "string \<Rightarrow> nat" where
  "strtoul10 s = (case skip_sign s of (neg, t) \<Rightarrow>
     let v = dec_val 0 (takeWhile is_digit t)
     in if v > 2 ^ 64 - 1 then 2 ^ 64 - 1 else if neg \<and> v > 0 then 2 ^ 64 - v else v)"

definition digit :: "nat \<Rightarrow> char" where
  "digit n = char_of (48 + n)"

text \<open>\<^verbatim>\<open>%u\<close> and \<^verbatim>\<open>%lu\<close>.\<close>

fun dec :: "nat \<Rightarrow> string" where
  "dec n = (if n < 10 then [digit n] else dec (n div 10) @ [digit (n mod 10)])"

declare dec.simps [simp del]

lemma of_char_digit: "n < 10 \<Longrightarrow> of_char (digit n) = 48 + n"
  by (simp add: digit_def)

lemma is_digit_digit: "n < 10 \<Longrightarrow> is_digit (digit n)"
  by (simp add: is_digit_def of_char_digit Let_def)

lemma dec_digits: "\<forall>c \<in> set (dec n). is_digit c"
proof (induction n rule: dec.induct)
  case (1 n)
  then show ?case by (subst dec.simps) (simp add: is_digit_digit)
qed

lemma NUL_dec: "NUL \<notin> set (dec n)"
proof -
  have "\<not> is_digit NUL" by (simp add: is_digit_def NUL_def)
  then show ?thesis using dec_digits by blast
qed

lemma length_dec: "n < 10 ^ Suc k \<Longrightarrow> length (dec n) \<le> Suc k"
proof (induction k arbitrary: n)
  case 0
  then show ?case by (subst dec.simps) simp
next
  case (Suc k)
  have "n div 10 < 10 ^ Suc k" using Suc.prems by auto
  then show ?case using Suc.IH [of "n div 10"] by (subst dec.simps) simp
qed

lemma dec_val_append: "dec_val acc (s @ t) = dec_val (dec_val acc s) t"
  by (induction s arbitrary: acc) auto

lemma dec_val_dec: "dec_val 0 (dec n) = n"
proof (induction n rule: dec.induct)
  case (1 n)
  then show ?case by (subst dec.simps) (simp add: dec_val_append of_char_digit)
qed

lemma dec_nonempty: "dec n \<noteq> []"
  by (subst dec.simps) simp

lemma digit_not_sign: "is_digit c \<Longrightarrow> \<not> is_space c \<and> c \<noteq> CHR ''-'' \<and> c \<noteq> CHR ''+''"
  by (auto simp: is_digit_def is_space_def Let_def)

lemma skip_sign_dec:
  assumes "\<forall>c \<in> set d. is_digit c" and "d \<noteq> []"
  shows "skip_sign (d @ rest) = (False, d @ rest)"
  using assms by (cases d) (auto simp: skip_sign_def dest: digit_not_sign)

lemma takeWhile_dec:
  assumes "rest = [] \<or> \<not> is_digit (hd rest)"
  shows "takeWhile is_digit (dec n @ rest) = dec n"
proof -
  have "takeWhile is_digit rest = []" using assms by (cases rest) auto
  then show ?thesis using dec_digits [of n] by (simp add: takeWhile_append2)
qed

lemma strtol10_dec:
  assumes "n < 2 ^ 63" and "rest = [] \<or> \<not> is_digit (hd rest)"
  shows "strtol10 (dec n @ rest) = int n"
  using assms skip_sign_dec [OF dec_digits dec_nonempty]
  by (simp add: strtol10_def takeWhile_dec [OF assms(2)] dec_val_dec)

lemma strtol10_space: "is_space c \<Longrightarrow> strtol10 (c # s) = strtol10 s"
  by (simp add: strtol10_def skip_sign_def)

end
