(* ===== verification/Httpd.thy ===== *)
theory Httpd
  imports Cstring
begin

text \<open>
  The HTTP file server \<^verbatim>\<open>ssh/httpd.c\<close>: response helpers, directory listing, download, upload,
  request dispatch, the keep-alive loop and the pool of connection workers.  The transport (a
  socket or a TLS session), the file system, the loadable backends and the profiler are not
  part of this file: they are the operations of the record \<open>http_env\<close> over a world \<open>'w\<close>.
\<close>

section \<open>Environment and connection\<close>

datatype fs_type = FS_DIR_ENTRY_FILE | FS_DIR_ENTRY_DIR

record fs_dirent =
  d_type :: fs_type
  d_name :: string
  d_size :: nat

datatype fs_mode = ReadMode | CreateMode

record httpd_conn =
  xfer_sz :: nat
  head :: bool
  keepalive :: bool

text \<open>
  \<open>io_recv\<close> gives the bytes received, none or \<open>None\<close> for a result of at most 0; \<open>io_send\<close>
  the number of bytes accepted, 0 for a result of at most 0; \<open>None\<close> from the file system is
  an error code.
\<close>

record 'w http_env =
  io_recv :: "nat \<Rightarrow> 'w \<Rightarrow> string option \<times> 'w"
  io_send :: "string \<Rightarrow> 'w \<Rightarrow> nat \<times> 'w"
  fs_stat :: "string \<Rightarrow> 'w \<Rightarrow> fs_dirent option \<times> 'w"
  fs_open :: "string \<Rightarrow> fs_mode \<Rightarrow> 'w \<Rightarrow> nat option \<times> 'w"
  fs_read :: "nat \<Rightarrow> nat \<Rightarrow> 'w \<Rightarrow> string option \<times> 'w"
  fs_write :: "nat \<Rightarrow> string \<Rightarrow> 'w \<Rightarrow> 'w"
  fs_close :: "nat \<Rightarrow> 'w \<Rightarrow> 'w"
  fs_opendir :: "string \<Rightarrow> 'w \<Rightarrow> nat option \<times> 'w"
  fs_readdir :: "nat \<Rightarrow> 'w \<Rightarrow> fs_dirent option \<times> 'w"
  fs_closedir :: "nat \<Rightarrow> 'w \<Rightarrow> 'w"
  webapi_handle :: "httpd_conn \<Rightarrow> string \<Rightarrow> string \<Rightarrow> string \<Rightarrow> 'w \<Rightarrow> bool \<times> httpd_conn \<times> 'w"
  bench_prof_start :: "'w \<Rightarrow> 'w"
  bench_prof_report :: "'w \<Rightarrow> string \<times> 'w"

definition DOC_ROOT :: string where "DOC_ROOT = ''/SD:''"
definition REQ_MAX :: nat where "REQ_MAX = 1024"
definition XFER_SZ :: nat where "XFER_SZ = 16384"
definition URL_MAX :: nat where "URL_MAX = 256"
definition HTTPD_MAX_CONNS :: nat where "HTTPD_MAX_CONNS = 8"

definition CRLF :: string where "CRLF = [CHR 0x0D, CHR 0x0A]"
definition DQ :: string where "DQ = [CHR 0x22]"

section \<open>Small helpers\<close>

function http_send_all :: "'w http_env \<Rightarrow> string \<Rightarrow> 'w \<Rightarrow> bool \<times> 'w" where
  "http_send_all e buf w =
     (if buf = [] then (True, w)
      else case io_send e buf w of
             (n, w') \<Rightarrow> if n = 0 then (False, w') else http_send_all e (drop n buf) w')"
  by pat_completeness auto
termination by (relation "measure (\<lambda>(e, buf, w). length buf)") auto

declare http_send_all.simps [simp del]

definition send_str :: "'w http_env \<Rightarrow> string \<Rightarrow> 'w \<Rightarrow> bool \<times> 'w" where
  "send_str e str w = http_send_all e (cstr str) w"

definition conn_word :: "httpd_conn \<Rightarrow> string" where
  "conn_word c = (if keepalive c then ''keep-alive'' else ''close'')"

definition http_hdr :: "httpd_conn \<Rightarrow> string \<Rightarrow> string \<Rightarrow> nat \<Rightarrow> string" where
  "http_hdr c status ctype len =
     ''HTTP/1.1 '' @ status @ CRLF @ ''Content-Type: '' @ ctype @ CRLF @
     ''Content-Length: '' @ dec len @ CRLF @ ''Connection: '' @ conn_word c @ CRLF @ CRLF"

definition httpd_send :: "'w http_env \<Rightarrow> httpd_conn \<Rightarrow> string \<Rightarrow> string \<Rightarrow> string option \<Rightarrow> 'w \<Rightarrow> 'w" where
  "httpd_send e c status ctype body w =
     (let blen = (case body of None \<Rightarrow> 0 | Some b \<Rightarrow> length (cstr b) mod 2 ^ 32);
          w' = snd (send_str e (fit 200 (http_hdr c status ctype blen)) w)
      in case body of
           None \<Rightarrow> w'
         | Some b \<Rightarrow> if head c then w' else snd (send_str e b w'))"

definition send_status :: "'w http_env \<Rightarrow> httpd_conn \<Rightarrow> string \<Rightarrow> string option \<Rightarrow> 'w \<Rightarrow> 'w" where
  "send_status e c status body w = httpd_send e c status ''text/plain'' body w"

fun url_decode :: "string \<Rightarrow> string" where
  "url_decode [] = []"
| "url_decode (c # s) =
     (case s of
        a # b # t \<Rightarrow>
          if c = CHR ''%'' \<and> is_xdigit a \<and> is_xdigit b then char_of (16 * hex_val a + hex_val b) # url_decode t
          else if c = CHR ''+'' then CHR '' '' # url_decode s
          else c # url_decode s
      | _ \<Rightarrow> (if c = CHR ''+'' then CHR '' '' else c) # url_decode s)"

section \<open>Directory listing\<close>

definition list_head :: "string \<Rightarrow> string" where
  "list_head url =
     ''<!doctype html><html><head><meta charset=utf-8><title>'' @ url @
     ''</title></head><body><h2>Index of '' @ url @ ''</h2><ul>''"

definition list_entry :: "string \<Rightarrow> fs_dirent \<Rightarrow> string" where
  "list_entry url ent =
     (let slash = (if d_type ent = FS_DIR_ENTRY_DIR then ''/'' else '''')
      in ''<li><a href='' @ DQ @ url @ d_name ent @ slash @ DQ @ ''>'' @ d_name ent @ slash @ ''</a></li>'')"

definition list_size :: "fs_dirent \<Rightarrow> string" where
  "list_size ent =
     ''<li style='' @ DQ @ ''list-style:none;margin-left:1em;color:#888'' @ DQ @ ''>'' @
     dec (d_size ent mod 2 ^ 32) @ '' bytes</li>''"

definition send_entry :: "'w http_env \<Rightarrow> httpd_conn \<Rightarrow> string \<Rightarrow> fs_dirent \<Rightarrow> 'w \<Rightarrow> 'w" where
  "send_entry e c url ent w =
     (let w' = snd (send_str e (fit (xfer_sz c) (list_entry url ent)) w)
      in if d_type ent = FS_DIR_ENTRY_DIR then w'
         else snd (send_str e (fit (xfer_sz c) (list_size ent)) w'))"

partial_function (option) list_loop :: "'w http_env \<Rightarrow> httpd_conn \<Rightarrow> string \<Rightarrow> nat \<Rightarrow> 'w \<Rightarrow> 'w option" where
  "list_loop e c url d w =
     (case fs_readdir e d w of
        (None, w') \<Rightarrow> Some w'
      | (Some ent, w') \<Rightarrow> if d_name ent = [] then Some w' else list_loop e c url d (send_entry e c url ent w'))"

definition send_listing :: "'w http_env \<Rightarrow> httpd_conn \<Rightarrow> string \<Rightarrow> string \<Rightarrow> 'w \<Rightarrow> (httpd_conn \<times> 'w) option" where
  "send_listing e c fs_path url w =
     (case fs_opendir e fs_path w of
        (None, w1) \<Rightarrow> Some (c, send_status e c ''404 Not Found'' (Some (''no such directory'' @ [CHR 0x0A])) w1)
      | (Some d, w1) \<Rightarrow>
          let c' = c\<lparr>keepalive := False\<rparr>;
              w2 = snd (send_str e (''HTTP/1.1 200 OK'' @ CRLF @ ''Content-Type: text/html'' @ CRLF @
                     ''Connection: close'' @ CRLF @ CRLF) w1)
          in if head c' then Some (c', fs_closedir e d w2)
             else let w3 = snd (send_str e (fit (xfer_sz c') (list_head url)) w2);
                      w4 = (if url \<noteq> ''/'' then snd (send_str e (''<li><a href='' @ DQ @ ''../'' @ DQ @ ''>../</a></li>'') w3) else w3)
                  in map_option (\<lambda>w5. (c', snd (send_str e (''</ul></body></html>'' @ CRLF) (fs_closedir e d w5))))
                       (list_loop e c' url d w4))"

section \<open>Download\<close>

definition mime_map :: "(string \<times> string) list" where
  "mime_map =
     [(''html'', ''text/html''), (''htm'', ''text/html''), (''css'', ''text/css''), (''js'', ''text/javascript''),
      (''json'', ''application/json''), (''txt'', ''text/plain''), (''svg'', ''image/svg+xml''),
      (''png'', ''image/png''), (''jpg'', ''image/jpeg''), (''jpeg'', ''image/jpeg''), (''gif'', ''image/gif''),
      (''ico'', ''image/x-icon''), (''xml'', ''text/xml''), (''pdf'', ''application/pdf''),
      (''wasm'', ''application/wasm'')]"

text \<open>What follows the last dot, if there is one.\<close>

definition last_ext :: "string \<Rightarrow> string option" where
  "last_ext path = (if CHR ''.'' \<in> set path then Some (rev (takeWhile (\<lambda>c. c \<noteq> CHR ''.'') (rev path))) else None)"

definition mime_type :: "string \<Rightarrow> string" where
  "mime_type path =
     (case last_ext path of
        None \<Rightarrow> ''application/octet-stream''
      | Some ext \<Rightarrow> (case map_of mime_map (map tolower ext) of
                       Some t \<Rightarrow> t
                     | None \<Rightarrow> ''application/octet-stream''))"

partial_function (option) file_loop :: "'w http_env \<Rightarrow> httpd_conn \<Rightarrow> nat \<Rightarrow> 'w \<Rightarrow> 'w option" where
  "file_loop e c h w =
     (case fs_read e h (xfer_sz c) w of
        (None, w') \<Rightarrow> Some w'
      | (Some bs, w') \<Rightarrow>
          if bs = [] then Some w'
          else (case http_send_all e bs w' of
                  (ok, w'') \<Rightarrow> if ok then file_loop e c h w'' else Some w''))"

definition send_file :: "'w http_env \<Rightarrow> httpd_conn \<Rightarrow> string \<Rightarrow> nat \<Rightarrow> 'w \<Rightarrow> (httpd_conn \<times> 'w) option" where
  "send_file e c fs_path fsize w =
     (case fs_open e fs_path ReadMode w of
        (None, w1) \<Rightarrow> Some (c, send_status e c ''404 Not Found'' (Some (''cannot open file'' @ [CHR 0x0A])) w1)
      | (Some h, w1) \<Rightarrow>
          (case send_str e (fit 160 (http_hdr c ''200 OK'' (mime_type fs_path) (fsize mod 2 ^ 32))) w1 of
             (ok, w2) \<Rightarrow>
               map_option (\<lambda>w3. (c, fs_close e h w3))
                 (if ok \<and> \<not> head c then file_loop e c h w2 else Some w2)))"

definition serve_dir :: "'w http_env \<Rightarrow> httpd_conn \<Rightarrow> string \<Rightarrow> string \<Rightarrow> bool \<Rightarrow> 'w \<Rightarrow> (httpd_conn \<times> 'w) option" where
  "serve_dir e c fs_dir url force_list w =
     (if force_list then send_listing e c fs_dir url w
      else let idx = fit (length DOC_ROOT + URL_MAX + 12) (fs_dir @ ''/index.html'')
           in case fs_stat e idx w of
                (Some ent, w') \<Rightarrow>
                  if d_type ent = FS_DIR_ENTRY_FILE then send_file e c idx (d_size ent) w'
                  else send_listing e c fs_dir url w'
              | (None, w') \<Rightarrow> send_listing e c fs_dir url w')"

section \<open>Upload\<close>

function put_loop :: "'w http_env \<Rightarrow> httpd_conn \<Rightarrow> nat \<Rightarrow> int \<Rightarrow> 'w \<Rightarrow> int \<times> 'w" where
  "put_loop e c h remaining w =
     (if remaining \<le> 0 then (remaining, w)
      else case io_recv e (nat (min (int (xfer_sz c)) remaining)) w of
             (None, w') \<Rightarrow> (remaining, w')
           | (Some bs, w') \<Rightarrow>
               if bs = [] then (remaining, w')
               else put_loop e c h (remaining - int (length bs)) (fs_write e h bs w'))"
  by pat_completeness auto
termination by (relation "measure (\<lambda>(e, c, h, remaining, w). nat remaining)") auto

declare put_loop.simps [simp del]

text \<open>\<open>body\<close> holds the part of the body that came with the request, \<^verbatim>\<open>body_in_req\<close> bytes.\<close>

definition recv_put :: "'w http_env \<Rightarrow> httpd_conn \<Rightarrow> string \<Rightarrow> string \<Rightarrow> int \<Rightarrow> 'w \<Rightarrow> httpd_conn \<times> 'w" where
  "recv_put e c fs_path body content_len w =
     (case fs_open e fs_path CreateMode w of
        (None, w1) \<Rightarrow> (c, send_status e c ''500 Internal Server Error'' (Some (''cannot create file'' @ [CHR 0x0A])) w1)
      | (Some h, w1) \<Rightarrow>
          let w2 = (if body \<noteq> [] then fs_write e h body w1 else w1);
              (remaining, w3) = put_loop e c h (content_len - int (length body)) w2;
              w4 = fs_close e h w3
          in if remaining = 0 then (c, send_status e c ''201 Created'' (Some (''stored'' @ [CHR 0x0A])) w4)
             else let c' = c\<lparr>keepalive := False\<rparr>
                  in (c', send_status e c' ''400 Bad Request'' (Some (''short upload'' @ [CHR 0x0A])) w4))"

section \<open>Header search\<close>

fun find_header :: "string \<Rightarrow> string \<Rightarrow> string option" where
  "find_header key_lc [] = None"
| "find_header key_lc (c # s) =
     (if prefix key_lc (map tolower (c # s)) then Some (drop (length key_lc) (c # s)) else find_header key_lc s)"

fun line_has :: "string \<Rightarrow> string \<Rightarrow> bool" where
  "line_has token [] = False"
| "line_has token (c # v) =
     (if c = CHR 0x0D \<or> c = CHR 0x0A then False
      else prefix (map tolower token) (map tolower (c # v)) \<or> line_has token v)"

definition conn_has :: "string \<Rightarrow> string \<Rightarrow> bool" where
  "conn_has req token = (case find_header ''connection:'' req of None \<Rightarrow> False | Some v \<Rightarrow> line_has token v)"

section \<open>Request dispatch\<close>

function zero_loop :: "'w http_env \<Rightarrow> nat \<Rightarrow> nat \<Rightarrow> 'w \<Rightarrow> 'w option" where
  "zero_loop e sz left w =
     (if left = 0 then Some w
      else if sz = 0 then None
      else let n = (if left < sz then left else sz)
           in case http_send_all e (replicate n NUL) w of
                (ok, w') \<Rightarrow> if ok then zero_loop e sz (left - n) w' else Some w')"
  by pat_completeness auto
termination by (relation "measure (\<lambda>(e, sz, left, w). left)") auto

declare zero_loop.simps [simp del]

definition ZERO_CAP :: nat where "ZERO_CAP = 64 * 1024 * 1024"

definition serve_zero :: "'w http_env \<Rightarrow> httpd_conn \<Rightarrow> string \<Rightarrow> 'w \<Rightarrow> (httpd_conn \<times> 'w) option" where
  "serve_zero e c url w =
     (let left = min (strtoul10 (drop 8 url)) ZERO_CAP
      in case send_str e (fit 128 (http_hdr c ''200 OK'' ''application/octet-stream'' left)) w of
           (ok, w') \<Rightarrow> map_option (Pair c) (if ok then zero_loop e (xfer_sz c) left w' else Some w'))"

definition serve_get :: "'w http_env \<Rightarrow> httpd_conn \<Rightarrow> string \<Rightarrow> string \<Rightarrow> bool \<Rightarrow> 'w \<Rightarrow> (httpd_conn \<times> 'w) option" where
  "serve_get e c fs_path url force_list w =
     (if url = ''/'' then serve_dir e c DOC_ROOT ''/'' force_list w
      else case fs_stat e fs_path w of
             (None, w') \<Rightarrow> Some (c, send_status e c ''404 Not Found'' (Some (''not found'' @ [CHR 0x0A])) w')
           | (Some ent, w') \<Rightarrow>
               if d_type ent = FS_DIR_ENTRY_DIR
               then serve_dir e c fs_path (fit (URL_MAX + 1) (url @ (if last url = CHR ''/'' then '''' else ''/''))) force_list w'
               else send_file e c fs_path (d_size ent) w')"

text \<open>
  \<open>raw\<close> is what \<^verbatim>\<open>io_recv\<close> put into \<^verbatim>\<open>req\<close>; the string in \<^verbatim>\<open>req\<close> ends at the first NUL, the body
  that came along does not.
\<close>

definition serve_put :: "'w http_env \<Rightarrow> httpd_conn \<Rightarrow> string \<Rightarrow> string \<Rightarrow> 'w \<Rightarrow> httpd_conn \<times> 'w" where
  "serve_put e c fs_path raw w =
     (let req = cstr raw;
          clen = (case find_header ''content-length:'' req of None \<Rightarrow> 0 | Some v \<Rightarrow> strtol10 v);
          body = (case strstr (CRLF @ CRLF) req of None \<Rightarrow> [] | Some i \<Rightarrow> drop (i + 4) raw)
      in recv_put e c fs_path body clen w)"

definition doc_path :: "string \<Rightarrow> string" where
  "doc_path url =
     (let p = fit (length DOC_ROOT + URL_MAX + 2) (DOC_ROOT @ url)
      in if length p > length DOC_ROOT \<and> last p = CHR ''/'' then butlast p else p)"

text \<open>From the parsed request line on: \<open>url\<close> is the decoded path, \<open>query\<close> what followed the \<open>?\<close>.\<close>

definition serve_url ::
  "'w http_env \<Rightarrow> httpd_conn \<Rightarrow> string \<Rightarrow> string \<Rightarrow> string \<Rightarrow> string \<Rightarrow> 'w \<Rightarrow> (httpd_conn \<times> 'w) option" where
  "serve_url e c mthd url query raw w =
     (if url = [] \<or> hd url \<noteq> CHR ''/'' \<or> strstr ''..'' url \<noteq> None
      then Some (c, send_status e c ''403 Forbidden'' (Some (''bad path'' @ [CHR 0x0A])) w)
      else if url = ''/__prof/start''
      then Some (c, httpd_send e c ''200 OK'' ''text/plain'' (Some (''started'' @ [CHR 0x0A])) (bench_prof_start e w))
      else if url = ''/__prof/stop''
      then (case bench_prof_report e w of (rep, w') \<Rightarrow> Some (c, httpd_send e c ''200 OK'' ''text/plain'' (Some rep) w'))
      else if prefix ''/__zero/'' url \<and> \<not> head c then serve_zero e c url w
      else case webapi_handle e c mthd url query w of (handled, c1, w1) \<Rightarrow>
        if handled then Some (c1, w1)
        else let force_list = (strstr ''list'' query \<noteq> None);
                 fs_path = doc_path url;
                 c2 = c1\<lparr>head := (mthd = ''HEAD'')\<rparr>
             in if head c2 \<or> mthd = ''GET'' then serve_get e c2 fs_path url force_list w1
                else if mthd = ''PUT'' then Some (serve_put e c2 fs_path raw w1)
                else Some (c2, send_status e c2 ''405 Method Not Allowed'' (Some (''GET/HEAD/PUT only'' @ [CHR 0x0A])) w1))"

definition split_query :: "string \<Rightarrow> string \<times> string" where
  "split_query url = (case strchr (CHR ''?'') url of None \<Rightarrow> (url, []) | Some q \<Rightarrow> (take q url, drop (Suc q) url))"

datatype req_line = Malformed | TooLong | ReqLine (rl_method: string) (rl_url: string) (rl_rest: string)

definition parse_line :: "string \<Rightarrow> req_line" where
  "parse_line req =
     (case strchr (CHR '' '') req of
        None \<Rightarrow> Malformed
      | Some mlen \<Rightarrow>
          (case strchr (CHR '' '') (drop (Suc mlen) req) of
             None \<Rightarrow> Malformed
           | Some ulen \<Rightarrow>
               if mlen \<ge> 8 \<or> ulen \<ge> URL_MAX then TooLong
               else ReqLine (take mlen req) (take ulen (drop (Suc mlen) req)) (drop (Suc mlen + Suc ulen) req)))"

text \<open>The result is whether the connection stays open.\<close>

definition serve_request :: "'w http_env \<Rightarrow> httpd_conn \<Rightarrow> string \<Rightarrow> 'w \<Rightarrow> (bool \<times> httpd_conn \<times> 'w) option" where
  "serve_request e c raw w =
     (case parse_line (cstr raw) of
        Malformed \<Rightarrow> Some (False, c, send_status e c ''400 Bad Request'' None w)
      | TooLong \<Rightarrow> Some (False, c, send_status e c ''414 URI Too Long'' None w)
      | ReqLine mthd rawurl rest \<Rightarrow>
          let c1 = c\<lparr>keepalive :=
                 (if prefix ''HTTP/1.1'' rest then \<not> conn_has (cstr raw) ''close''
                  else conn_has (cstr raw) ''keep-alive'')\<rparr>;
              (path, query) = split_query rawurl
          in map_option (\<lambda>(c2, w2). (keepalive c2, c2, w2))
               (serve_url e c1 mthd (cstr (url_decode path)) query raw w))"

definition httpd_serve :: "'w http_env \<Rightarrow> httpd_conn \<Rightarrow> 'w \<Rightarrow> (bool \<times> httpd_conn \<times> 'w) option" where
  "httpd_serve e c0 w0 =
     (let c = c0\<lparr>head := False, keepalive := False\<rparr>
      in case io_recv e (REQ_MAX - 1) w0 of
           (None, w) \<Rightarrow> Some (False, c, w)
         | (Some raw, w) \<Rightarrow> if raw = [] then Some (False, c, w) else serve_request e c raw w)"

text \<open>The loop of a worker: requests are served on the connection until one asks to close it.\<close>

partial_function (option) serve_loop :: "'w http_env \<Rightarrow> httpd_conn \<Rightarrow> 'w \<Rightarrow> 'w option" where
  "serve_loop e c w =
     (case httpd_serve e c w of
        None \<Rightarrow> None
      | Some r \<Rightarrow> if fst r then serve_loop e (fst (snd r)) (snd (snd r)) else Some (snd (snd r)))"

declare list_loop.simps [code] and file_loop.simps [code] and serve_loop.simps [code]

section \<open>Confinement to the document root\<close>

definition safe_path :: "string \<Rightarrow> bool" where
  "safe_path p \<longleftrightarrow> (p = DOC_ROOT \<or> prefix (DOC_ROOT @ ''/'') p) \<and> \<not> sublist ''..'' p"

text \<open>Two environments that differ at most in what the file system does with unsafe paths.\<close>

definition same_transport :: "'w http_env \<Rightarrow> 'w http_env \<Rightarrow> bool" where
  "same_transport e e' \<longleftrightarrow>
     io_recv e = io_recv e' \<and> io_send e = io_send e' \<and> fs_read e = fs_read e' \<and> fs_write e = fs_write e' \<and>
     fs_close e = fs_close e' \<and> fs_readdir e = fs_readdir e' \<and> fs_closedir e = fs_closedir e' \<and>
     webapi_handle e = webapi_handle e' \<and> bench_prof_start e = bench_prof_start e' \<and>
     bench_prof_report e = bench_prof_report e'"

definition same_root :: "'w http_env \<Rightarrow> 'w http_env \<Rightarrow> bool" where
  "same_root e e' \<longleftrightarrow> same_transport e e' \<and>
     (\<forall>p. safe_path p \<longrightarrow> fs_stat e p = fs_stat e' p \<and> fs_open e p = fs_open e' p \<and> fs_opendir e p = fs_opendir e' p)"

lemma transport_send:
  assumes "same_transport e e'"
  shows "http_send_all e buf w = http_send_all e' buf w"
proof (induction "length buf" arbitrary: buf w rule: less_induct)
  case less
  have io: "io_send e = io_send e'" using assms by (simp add: same_transport_def)
  show ?case
  proof (cases "buf = [] \<or> fst (io_send e buf w) = 0")
    case True
    then show ?thesis by (auto simp: http_send_all.simps [of _ buf] io split: prod.splits)
  next
    case False
    then show ?thesis
      using less [of "drop (fst (io_send e buf w)) buf"]
      by (simp add: http_send_all.simps [of _ buf] io case_prod_beta)
  qed
qed

lemma transport_msgs:
  assumes "same_transport e e'"
  shows "send_str e s w = send_str e' s w" and "httpd_send e c st ty b w = httpd_send e' c st ty b w"
    and "send_status e c st b w = send_status e' c st b w" and "send_entry e c url ent w = send_entry e' c url ent w"
proof -
  have 1: "send_str e = send_str e'" by (intro ext) (simp add: send_str_def transport_send [OF assms])
  have 2: "httpd_send e = httpd_send e'" unfolding httpd_send_def 1 ..
  show "send_str e s w = send_str e' s w" "httpd_send e c st ty b w = httpd_send e' c st ty b w" by (simp_all add: 1 2)
  show "send_status e c st b w = send_status e' c st b w" by (simp add: send_status_def 2)
  show "send_entry e c url ent w = send_entry e' c url ent w" unfolding send_entry_def 1 ..
qed

lemma transport_sym: "same_transport e e' \<Longrightarrow> same_transport e' e"
  by (simp add: same_transport_def)

lemma transport_list_imp:
  assumes "same_transport e e'" and "list_loop e c url d w = Some r"
  shows "list_loop e' c url d w = Some r"
proof -
  have rd: "fs_readdir e' = fs_readdir e" using assms(1) by (simp add: same_transport_def)
  have "e = e \<longrightarrow> list_loop e' c url d w = Some r"
    by (rule list_loop.raw_induct [where P = "\<lambda>x c url d w r. x = e \<longrightarrow> list_loop e' c url d w = Some r", OF _ assms(2)],
        subst list_loop.simps)
      (auto simp: rd transport_msgs [OF assms(1)] split: prod.splits option.splits if_splits)
  then show ?thesis by simp
qed

lemma transport_file_imp:
  assumes "same_transport e e'" and "file_loop e c h w = Some r"
  shows "file_loop e' c h w = Some r"
proof -
  have rd: "fs_read e' = fs_read e" using assms(1) by (simp add: same_transport_def)
  have "e = e \<longrightarrow> file_loop e' c h w = Some r"
    by (rule file_loop.raw_induct [where P = "\<lambda>x c h w r. x = e \<longrightarrow> file_loop e' c h w = Some r", OF _ assms(2)],
        subst file_loop.simps)
      (auto simp: rd transport_send [OF assms(1)] split: prod.splits option.splits if_splits)
  then show ?thesis by simp
qed

lemma transport_loops:
  assumes "same_transport e e'"
  shows "list_loop e c url d w = list_loop e' c url d w" and "file_loop e c h w = file_loop e' c h w"
  using transport_list_imp [OF assms] transport_list_imp [OF transport_sym [OF assms]]
    transport_file_imp [OF assms] transport_file_imp [OF transport_sym [OF assms]]
  by (metis not_Some_eq)+

lemma same_root_transport: "same_root e e' \<Longrightarrow> same_transport e e'"
  by (simp add: same_root_def)

lemma root_funs:
  assumes "same_transport e e'"
  shows "send_str e = send_str e'" and "httpd_send e = httpd_send e'" and "send_status e = send_status e'"
    and "http_send_all e = http_send_all e'" and "list_loop e = list_loop e'" and "file_loop e = file_loop e'"
  by (intro ext, simp add: transport_msgs [OF assms] transport_send [OF assms] transport_loops [OF assms])+

lemma root_ops:
  assumes "same_transport e e'"
  shows "io_recv e = io_recv e'" and "fs_write e = fs_write e'" and "fs_close e = fs_close e'"
    and "fs_closedir e = fs_closedir e'" and "webapi_handle e = webapi_handle e'"
    and "bench_prof_start e = bench_prof_start e'" and "bench_prof_report e = bench_prof_report e'"
  using assms by (simp_all add: same_transport_def)

lemma root_put_loop:
  assumes "same_transport e e'"
  shows "put_loop e c h n w = put_loop e' c h n w"
proof (induction "nat n" arbitrary: n w rule: less_induct)
  case less
  show ?case
    using less
    by (subst (1 2) put_loop.simps)
      (auto simp: root_ops [OF assms] split: prod.splits option.splits)
qed

lemma root_zero_loop:
  assumes "same_transport e e'"
  shows "zero_loop e sz n w = zero_loop e' sz n w"
proof (induction n arbitrary: w rule: less_induct)
  case (less n)
  show ?case
    using less
    by (subst (1 2) zero_loop.simps) (auto simp: root_funs [OF assms] Let_def split: prod.splits)
qed

text \<open>The path that a request names, and the index file in it, are safe once the check has passed.\<close>

lemma sublist_dots_append:
  assumes "\<not> sublist ''..'' a" and "\<not> sublist ''..'' b" and "a = [] \<or> last a \<noteq> CHR ''.'' \<or> b = [] \<or> hd b \<noteq> CHR ''.''"
  shows "\<not> sublist ''..'' (a @ b)"
proof
  assume "sublist ''..'' (a @ b)"
  then obtain x y where xy: "a @ b = x @ ''..'' @ y" by (auto simp: sublist_def)
  consider "length x + 2 \<le> length a" | "length a \<le> length x" | "length a = length x + 1" by linarith
  then show False
  proof cases
    case 1
    then have "take (length x + 2) a = x @ ''..''" using arg_cong [OF xy, of "take (length x + 2)"] by simp
    then show False using assms(1) by (metis append_take_drop_id append_assoc sublist_appendI)
  next
    case 2
    then have "b = drop (length a) x @ ''..'' @ y" using arg_cong [OF xy, of "drop (length a)"] by simp
    then show False using assms(2) by (metis sublist_appendI)
  next
    case 3
    have "a = x @ ''.''" "b = ''.'' @ y"
      using arg_cong [OF xy, of "take (length a)"] arg_cong [OF xy, of "drop (length a)"] 3 by simp_all
    then show False using assms(3) by simp
  qed
qed

lemma sublist_dots_butlast: "\<not> sublist ''..'' p \<Longrightarrow> \<not> sublist ''..'' (butlast p)"
  by (metis prefixeq_butlast prefix_imp_sublist sublist_order.order_trans)

lemma doc_path_safe:
  assumes "url \<noteq> []" and "hd url = CHR ''/''" and "strstr ''..'' url = None" and "length url < URL_MAX"
  shows "safe_path (doc_path url)" and "length (doc_path url) \<le> length DOC_ROOT + length url"
proof -
  have nd: "\<not> sublist ''..'' (DOC_ROOT @ url)"
    using sublist_dots_append [of DOC_ROOT url] assms(1-3) by (simp add: strstr_None DOC_ROOT_def sublist_Cons_right)
  have p: "fit (length DOC_ROOT + URL_MAX + 2) (DOC_ROOT @ url) = DOC_ROOT @ url"
    using assms(4) by (simp add: fit_def)
  obtain u where u: "url = CHR ''/'' # u" using assms(1,2) by (cases url) auto
  have "butlast (DOC_ROOT @ url) = DOC_ROOT @ butlast url" using assms(1) by (simp add: butlast_append)
  then show "safe_path (doc_path url)"
    using nd sublist_dots_butlast [OF nd] unfolding doc_path_def p Let_def
    by (cases u) (auto simp: safe_path_def u)
  show "length (doc_path url) \<le> length DOC_ROOT + length url"
    unfolding doc_path_def p Let_def by simp
qed

lemma index_safe:
  assumes "safe_path d" and "length d \<le> length DOC_ROOT + URL_MAX"
  shows "safe_path (fit (length DOC_ROOT + URL_MAX + 12) (d @ ''/index.html''))"
proof -
  have "\<not> sublist ''..'' (d @ ''/index.html'')"
    using assms(1) by (intro sublist_dots_append) (auto simp: safe_path_def sublist_Cons_right)
  moreover have "fit (length DOC_ROOT + URL_MAX + 12) (d @ ''/index.html'') = d @ ''/index.html''"
    using assms(2) by (simp add: fit_def)
  ultimately show ?thesis using assms(1) by (auto simp: safe_path_def)
qed

lemma root_dir:
  assumes "same_root e e'" and "safe_path p" and "length p \<le> length DOC_ROOT + URL_MAX"
  shows "send_file e c p n w = send_file e' c p n w" and "serve_dir e c p url fl w = serve_dir e' c p url fl w"
    and "fs_stat e p = fs_stat e' p" and "recv_put e c p b len w = recv_put e' c p b len w"
proof -
  note tr = same_root_transport [OF assms(1)]
  have fs: "fs_stat e q = fs_stat e' q" "fs_open e q = fs_open e' q" "fs_opendir e q = fs_opendir e' q" if "safe_path q" for q
    using assms(1) that by (simp_all add: same_root_def)
  have dl: "send_file e c q n w = send_file e' c q n w" if "safe_path q" for q n w
    unfolding send_file_def root_funs [OF tr] root_ops [OF tr] fs [OF that] ..
  have listing: "send_listing e c p url w = send_listing e' c p url w" for w
    unfolding send_listing_def root_funs [OF tr] root_ops [OF tr] fs [OF assms(2)] ..
  show "send_file e c p n w = send_file e' c p n w" "fs_stat e p = fs_stat e' p" by (simp_all add: dl fs assms(2))
  show "serve_dir e c p url fl w = serve_dir e' c p url fl w"
    unfolding serve_dir_def Let_def listing dl [OF index_safe [OF assms(2,3)]] fs [OF index_safe [OF assms(2,3)]] ..
  have pl: "put_loop e = put_loop e'" by (intro ext) (rule root_put_loop [OF tr])
  show "recv_put e c p b len w = recv_put e' c p b len w"
    unfolding recv_put_def root_funs [OF tr] root_ops [OF tr] fs [OF assms(2)] pl ..
qed

lemma root_url:
  assumes "same_root e e'" and "length url < URL_MAX"
  shows "serve_url e c m url q raw w = serve_url e' c m url q raw w"
proof (cases "url = [] \<or> hd url \<noteq> CHR ''/'' \<or> strstr ''..'' url \<noteq> None")
  case True
  then show ?thesis by (simp add: serve_url_def root_funs [OF same_root_transport [OF assms(1)]])
next
  case False
  note tr = same_root_transport [OF assms(1)]
  have ok: "safe_path (doc_path url)" "length (doc_path url) \<le> length DOC_ROOT + URL_MAX"
    using doc_path_safe [of url] False assms(2) by auto
  have root: "safe_path DOC_ROOT" "length DOC_ROOT \<le> length DOC_ROOT + URL_MAX"
    by (simp_all add: safe_path_def DOC_ROOT_def sublist_Cons_right)
  have z: "zero_loop e = zero_loop e'" by (intro ext) (rule root_zero_loop [OF tr])
  show ?thesis
    unfolding serve_url_def serve_zero_def serve_get_def serve_put_def root_funs [OF tr] root_ops [OF tr] z Let_def
      root_dir [OF assms(1) ok] root_dir [OF assms(1) root] ..
qed

lemma length_url_decode: "length (url_decode s) \<le> length s"
proof (induction s rule: url_decode.induct)
  case (2 c s)
  show ?case
    using "2.IH" by (subst url_decode.simps) (force simp del: url_decode.simps split: list.split)
qed simp

lemma length_split_query: "length (fst (split_query u)) \<le> length u"
  by (simp add: split_query_def split: option.splits)

lemma parse_line_bounds:
  assumes "parse_line req = ReqLine m u rest"
  shows "length m < 8" and "length u < URL_MAX" and "req = m @ '' '' @ u @ '' '' @ rest"
    and "CHR '' '' \<notin> set m" and "CHR '' '' \<notin> set u"
proof -
  obtain i j where i: "strchr (CHR '' '') req = Some i" and j: "strchr (CHR '' '') (drop (Suc i) req) = Some j"
    and b: "i < 8" "j < URL_MAX" and r: "m = take i req" "u = take j (drop (Suc i) req)" "rest = drop (Suc i + Suc j) req"
    using assms by (auto simp: parse_line_def split: option.splits if_splits)
  have li: "i < length req" "req ! i = CHR '' ''" "j < length (drop (Suc i) req)" "drop (Suc i) req ! j = CHR '' ''"
    using i j by (auto simp: strchr_def first_idx_Some)
  show "length m < 8" "length u < URL_MAX" using r b li by simp_all
  have "req = take i req @ req ! i # drop (Suc i) req" using li(1) by (rule id_take_nth_drop)
  moreover have "drop (Suc i) req = take j (drop (Suc i) req) @ drop (Suc i) req ! j # drop (Suc j) (drop (Suc i) req)"
    using li(3) by (rule id_take_nth_drop)
  ultimately show "req = m @ '' '' @ u @ '' '' @ rest" using li(2,4) r by (simp add: add.commute)
  show "CHR '' '' \<notin> set m" "CHR '' '' \<notin> set u"
    using i j r by (auto simp: strchr_def first_idx_Some in_set_conv_nth)
qed

section \<open>Requests are answered\<close>

text \<open>
  What is assumed of the file system for termination: some measure of what is left to read
  goes down with every directory entry and every piece of a file, and sending does not
  increase it.
\<close>

definition finite_fs :: "'w http_env \<Rightarrow> ('w \<Rightarrow> nat) \<Rightarrow> bool" where
  "finite_fs e m \<longleftrightarrow>
     (\<forall>d w ent w'. fs_readdir e d w = (Some ent, w') \<longrightarrow> d_name ent \<noteq> [] \<longrightarrow> m w' < m w) \<and>
     (\<forall>h n w bs w'. fs_read e h n w = (Some bs, w') \<longrightarrow> bs \<noteq> [] \<longrightarrow> m w' < m w) \<and>
     (\<forall>buf w. m (snd (io_send e buf w)) \<le> m w)"

lemma finite_send:
  assumes "finite_fs e m"
  shows "m (snd (http_send_all e buf w)) \<le> m w"
proof (induction "length buf" arbitrary: buf w rule: less_induct)
  case less
  have io: "m (snd (io_send e buf w)) \<le> m w" using assms by (simp add: finite_fs_def)
  show ?case
  proof (cases "buf = [] \<or> fst (io_send e buf w) = 0")
    case True
    then show ?thesis using io by (auto simp: http_send_all.simps [of _ buf] case_prod_beta)
  next
    case False
    then show ?thesis
      using io less [of "drop (fst (io_send e buf w)) buf" "snd (io_send e buf w)"]
      by (simp add: http_send_all.simps [of _ buf] case_prod_beta)
  qed
qed

lemma finite_entry: "finite_fs e m \<Longrightarrow> m (send_entry e c url ent w) \<le> m w"
  by (auto simp: send_entry_def send_str_def Let_def intro: order_trans finite_send)

lemma list_loop_returns:
  assumes "finite_fs e m"
  shows "\<exists>w'. list_loop e c url d w = Some w'"
proof (induction "m w" arbitrary: w rule: less_induct)
  case less
  show ?case
  proof (cases "fs_readdir e d w")
    case (Pair r w1)
    have "m (send_entry e c url ent w1) < m w" if "r = Some ent" "d_name ent \<noteq> []" for ent
      using assms that Pair finite_entry [OF assms, of c url ent w1]
      by (fastforce simp: finite_fs_def intro: le_less_trans)
    then show ?thesis using less by (subst list_loop.simps) (auto simp: Pair split: option.splits)
  qed
qed

lemma file_loop_returns:
  assumes "finite_fs e m"
  shows "\<exists>w'. file_loop e c h w = Some w'"
proof (induction "m w" arbitrary: w rule: less_induct)
  case less
  show ?case
  proof (cases "fs_read e h (xfer_sz c) w")
    case (Pair r w1)
    have "m (snd (http_send_all e bs w1)) < m w" if "r = Some bs" "bs \<noteq> []" for bs
      using assms that Pair finite_send [OF assms, of bs w1]
      by (fastforce simp: finite_fs_def intro: le_less_trans)
    then show ?thesis
      using less by (subst file_loop.simps) (auto simp: Pair case_prod_beta split: option.splits)
  qed
qed

lemma zero_loop_returns: "0 < sz \<Longrightarrow> \<exists>w'. zero_loop e sz n w = Some w'"
proof (induction n arbitrary: w rule: less_induct)
  case (less n)
  then show ?case by (subst zero_loop.simps) (auto simp: case_prod_beta Let_def)
qed

lemma serve_dir_returns:
  assumes "finite_fs e m"
  shows "\<exists>r. send_file e c p n w = Some r" and "\<exists>r. serve_dir e c p url fl w = Some r"
proof -
  have f: "\<exists>r. send_file e c p n w = Some r" for p n w
    using file_loop_returns [OF assms] by (auto simp: send_file_def split: option.splits prod.splits)
  have l: "\<exists>r. send_listing e c p url w = Some r" for w
    using list_loop_returns [OF assms] by (auto simp: send_listing_def Let_def split: option.splits prod.splits)
  show "\<exists>r. send_file e c p n w = Some r" by (rule f)
  show "\<exists>r. serve_dir e c p url fl w = Some r"
    using f l by (auto simp: serve_dir_def Let_def split: option.splits prod.splits)
qed

lemma serve_url_returns:
  assumes "finite_fs e m" and "0 < xfer_sz c"
  shows "\<exists>r. serve_url e c mthd url q raw w = Some r"
proof -
  have z: "\<exists>r. serve_zero e c url w = Some r"
    using zero_loop_returns [OF assms(2), of e] by (auto simp: serve_zero_def Let_def split: prod.splits)
  have g: "\<exists>r. serve_get e c2 p url fl w1 = Some r" for c2 p fl w1
    using serve_dir_returns [OF assms(1)] by (auto simp: serve_get_def split: option.splits prod.splits)
  show ?thesis
    using z g unfolding serve_url_def Let_def case_prod_beta by (simp del: not_None_eq)
qed

section \<open>Transfers\<close>




text \<open>
  And for a download: reads come off the front of what is left of the file and end only with
  it, the transport accepts at least one byte at a time, and closing does not disturb it.
\<close>

definition download_env :: "'w http_env \<Rightarrow> ('w \<Rightarrow> string) \<Rightarrow> ('w \<Rightarrow> string) \<Rightarrow> bool" where
  "download_env e rest out \<longleftrightarrow>
     (\<forall>h n w. \<exists>bs w'. fs_read e h n w = (Some bs, w') \<and> length bs \<le> n \<and> rest w = bs @ rest w' \<and> out w' = out w \<and>
        (bs = [] \<longrightarrow> n = 0 \<or> rest w = [])) \<and>
     (\<forall>buf w. buf \<noteq> [] \<longrightarrow> (\<exists>r w'. io_send e buf w = (r, w') \<and> 0 < r \<and> r \<le> length buf \<and> out w' = out w @ take r buf \<and> rest w' = rest w)) \<and>
     (\<forall>h w. out (fs_close e h w) = out w)"

lemma download_send:
  assumes "download_env e rest out"
  shows "\<exists>w'. http_send_all e buf w = (True, w') \<and> out w' = out w @ buf \<and> rest w' = rest w"
proof (induction "length buf" arbitrary: buf w rule: less_induct)
  case less
  show ?case
  proof (cases "buf = []")
    case False
    then obtain r w1 where r: "io_send e buf w = (r, w1)" "0 < r" "r \<le> length buf" "out w1 = out w @ take r buf" "rest w1 = rest w"
      using assms unfolding download_env_def by blast
    obtain w2 where "http_send_all e (drop r buf) w1 = (True, w2)" "out w2 = out w1 @ drop r buf" "rest w2 = rest w1"
      using less [of "drop r buf" w1] False r(2) by auto
    then show ?thesis using r False by (simp add: http_send_all.simps [of _ buf])
  qed (simp add: http_send_all.simps)
qed

lemma file_loop_exact:
  assumes "download_env e rest out" and "0 < xfer_sz c"
  shows "\<exists>w'. file_loop e c h w = Some w' \<and> out w' = out w @ rest w \<and> rest w' = []"
proof (induction "length (rest w)" arbitrary: w rule: less_induct)
  case less
  obtain bs w1 where b: "fs_read e h (xfer_sz c) w = (Some bs, w1)" "rest w = bs @ rest w1" "out w1 = out w"
      "bs = [] \<longrightarrow> rest w = []"
    using assms unfolding download_env_def by (metis less_numeral_extra(3))
  show ?case
  proof (cases "bs = []")
    case True
    then show ?thesis using b by (subst file_loop.simps) simp
  next
    case False
    obtain w2 where s: "http_send_all e bs w1 = (True, w2)" "out w2 = out w1 @ bs" "rest w2 = rest w1"
      using download_send [OF assms(1)] by blast
    obtain w3 where "file_loop e c h w2 = Some w3" "out w3 = out w2 @ rest w2" "rest w3 = []"
      using less [of w2] b(2) s(3) False by auto
    then show ?thesis using b s False by (subst file_loop.simps) simp
  qed
qed

lemma mime_type_text: "length (mime_type p) \<le> 24 \<and> NUL \<notin> set (mime_type p)"
proof -
  have "\<forall>t \<in> snd ` set mime_map. length t \<le> 24 \<and> NUL \<notin> set t" by (simp add: mime_map_def NUL_def)
  moreover have "t \<in> snd ` set mime_map" if "map_of mime_map x = Some t" for x t
    using map_of_SomeD [OF that] by force
  ultimately show ?thesis by (auto simp: mime_type_def NUL_def split: option.splits)
qed

lemma hdr_text:
  assumes "n < 2 ^ 32" and "length ty \<le> 24" and "NUL \<notin> set ty" and "128 \<le> k"
  shows "cstr (fit k (http_hdr c ''200 OK'' ty n)) = http_hdr c ''200 OK'' ty n"
proof -
  have "length (dec n) \<le> Suc 9" using assms(1) by (intro length_dec) simp
  then have "length (http_hdr c ''200 OK'' ty n) \<le> 127"
    using assms(2) by (simp add: http_hdr_def conn_word_def CRLF_def)
  moreover have "NUL \<notin> set (http_hdr c ''200 OK'' ty n)"
    using assms(3) NUL_dec [of n] by (auto simp: http_hdr_def conn_word_def CRLF_def NUL_def)
  ultimately show ?thesis using assms(4) by (simp add: fit_def cstr_id)
qed

lemmas file_hdr_text = hdr_text [OF _ mime_type_text [THEN conjunct1] mime_type_text [THEN conjunct2]]

section \<open>URL encoding\<close>

text \<open>
  The encoding a client applies, as the reference for \<^verbatim>\<open>url_decode\<close>: any set of characters may
  be left as they are except the two that decoding treats specially.
\<close>

definition hex_digit :: "nat \<Rightarrow> char" where
  "hex_digit n = (if n < 10 then char_of (48 + n) else char_of (55 + n))"

definition url_encode :: "(char \<Rightarrow> bool) \<Rightarrow> string \<Rightarrow> string" where
  "url_encode keep s = concat (map (\<lambda>c.
     if keep c \<and> c \<noteq> CHR ''%'' \<and> c \<noteq> CHR ''+'' then [c]
     else [CHR ''%'', hex_digit (of_char c div 16), hex_digit (of_char c mod 16)]) s)"

lemma hex_digit_val: "n < 16 \<Longrightarrow> is_xdigit (hex_digit n) \<and> hex_val (hex_digit n) = n"
  by (auto simp: hex_digit_def is_xdigit_def hex_val_def Let_def)

lemma url_decode_plain: "c \<noteq> CHR ''%'' \<Longrightarrow> c \<noteq> CHR ''+'' \<Longrightarrow> url_decode (c # s) = c # url_decode s"
  by (subst url_decode.simps) (simp del: url_decode.simps split: list.split)

lemma url_decode_hex:
  "is_xdigit a \<Longrightarrow> is_xdigit b \<Longrightarrow> url_decode (CHR ''%'' # a # b # s) = char_of (16 * hex_val a + hex_val b) # url_decode s"
  by simp

lemma url_decode_encode: "url_decode (url_encode keep s) = s"
proof (induction s)
  case (Cons c s)
  have n: "of_char c div 16 < (16 :: nat)" "of_char c mod 16 < (16 :: nat)"
    using nat_of_char_less_256 [of c] by (simp_all add: div_less_iff_less_mult)
  have "url_decode (CHR ''%'' # hex_digit (of_char c div 16) # hex_digit (of_char c mod 16) # t) = c # url_decode t" for t
    using hex_digit_val [OF n(1)] hex_digit_val [OF n(2)] by (simp add: url_decode_hex del: url_decode.simps)
  then show ?case
    using Cons by (simp add: url_encode_def url_decode_plain del: url_decode.simps)
qed (simp add: url_encode_def)

section \<open>A sample environment\<close>

text \<open>Files in memory, one open at a time; a transport that delivers what is there and accepts everything.\<close>

record mem =
  m_in :: string
  m_out :: string
  m_files :: "(string \<times> string) list"
  m_cur :: string
  m_left :: string

definition mem_env :: "mem http_env" where
  "mem_env = \<lparr>
     io_recv = (\<lambda>n w. if m_in w = [] then (None, w) else (Some (take n (m_in w)), w\<lparr>m_in := drop n (m_in w)\<rparr>)),
     io_send = (\<lambda>buf w. (length buf, w\<lparr>m_out := m_out w @ buf\<rparr>)),
     fs_stat = (\<lambda>p w. (map_option (\<lambda>f. \<lparr>d_type = FS_DIR_ENTRY_FILE, d_name = p, d_size = length f\<rparr>) (map_of (m_files w) p), w)),
     fs_open = (\<lambda>p md w. case md of
        ReadMode \<Rightarrow> (case map_of (m_files w) p of None \<Rightarrow> (None, w) | Some f \<Rightarrow> (Some 0, w\<lparr>m_left := f\<rparr>))
      | CreateMode \<Rightarrow> (Some 0, w\<lparr>m_cur := []\<rparr>)),
     fs_read = (\<lambda>h n w. (Some (take n (m_left w)), w\<lparr>m_left := drop n (m_left w)\<rparr>)),
     fs_write = (\<lambda>h bs w. w\<lparr>m_cur := m_cur w @ bs\<rparr>),
     fs_close = (\<lambda>h w. w),
     fs_opendir = (\<lambda>p w. (None, w)),
     fs_readdir = (\<lambda>d w. (None, w)),
     fs_closedir = (\<lambda>d w. w),
     webapi_handle = (\<lambda>c mthd url query w. (False, c, w)),
     bench_prof_start = (\<lambda>w. w),
     bench_prof_report = (\<lambda>w. ([], w))\<rparr>"

text \<open>The same, but with something to find outside the document root.\<close>

definition leaky_env :: "mem http_env" where
  "leaky_env = mem_env\<lparr>fs_stat := (\<lambda>p w.
     if safe_path p then fs_stat mem_env p w
     else (Some \<lparr>d_type = FS_DIR_ENTRY_FILE, d_name = p, d_size = 1\<rparr>, w))\<rparr>"

definition mem_conn :: httpd_conn where
  "mem_conn = \<lparr>xfer_sz = 4, head = False, keepalive = False\<rparr>"

definition mem_start :: "string \<Rightarrow> mem" where
  "mem_start req = \<lparr>m_in = req, m_out = [], m_files = [(''/SD:/a.txt'', ''hello!'')], m_cur = [], m_left = []\<rparr>"

lemma mem_finite: "finite_fs mem_env (\<lambda>w. length (m_left w))"
  by (auto simp: finite_fs_def mem_env_def)


lemma mem_download: "download_env mem_env m_left m_out"
  by (auto simp: download_env_def mem_env_def)

lemma mem_send: "http_send_all mem_env buf w = (True, w\<lparr>m_out := m_out w @ buf\<rparr>)"
  by (simp add: http_send_all.simps [of _ buf] http_send_all.simps [of _ "[]"] mem_env_def)

section \<open>Properties\<close>

text \<open>
  C10: the file server is confined to the SD card.  Whatever a client sends, what a request
  does depends only on what the file system does with paths that are \<^verbatim>\<open>/SD:\<close> or start with
  \<^verbatim>\<open>/SD:/\<close> and contain no \<^verbatim>\<open>..\<close>: two environments that agree on those give the same
  response, the same uploads and the same reads, also for encoded paths and embedded NULs.
\<close>

theorem httpd_confined:
  assumes "same_root e e'"
  shows "httpd_serve e c w = httpd_serve e' c w"
proof -
  note tr = same_root_transport [OF assms]
  have "serve_request e c raw w = serve_request e' c raw w" for c raw w
  proof (cases "parse_line (cstr raw)")
    case (ReqLine m u rest)
    have "length (cstr (url_decode (fst (split_query u)))) < URL_MAX"
      using parse_line_bounds(2) [OF ReqLine] length_split_query [of u] length_url_decode [of "fst (split_query u)"]
        length_cstr [of "url_decode (fst (split_query u))"] by linarith
    then show ?thesis
      unfolding serve_request_def ReqLine by (simp add: case_prod_beta Let_def root_url [OF assms])
  qed (simp_all add: serve_request_def root_funs [OF tr])
  then have sr: "serve_request e = serve_request e'" by (intro ext)
  show ?thesis unfolding httpd_serve_def root_ops [OF tr] sr ..
qed

theorem httpd_confined_witness:
  "httpd_serve leaky_env mem_conn (mem_start ''GET /%2e%2e/key HTTP/1.1'') =
   httpd_serve mem_env mem_conn (mem_start ''GET /%2e%2e/key HTTP/1.1'')"
  by (rule httpd_confined) (simp add: same_root_def same_transport_def leaky_env_def)

text \<open>
  C26: every request is answered.  On a file system whose directories and files end, and with a
  non-empty transfer buffer, \<^verbatim>\<open>httpd_serve\<close> returns for every request and every behaviour of
  the transport, however little it accepts or delivers at a time.
\<close>

theorem httpd_returns:
  assumes "finite_fs e m" and "0 < xfer_sz c"
  shows "\<exists>stay c' w'. httpd_serve e c w = Some (stay, c', w')"
proof -
  have "\<exists>r. serve_request e c1 raw w1 = Some r" if "xfer_sz c1 = xfer_sz c" for c1 raw w1
    using serve_url_returns [OF assms(1)] assms(2) that
    by (cases "parse_line (cstr raw)") (auto simp: serve_request_def Let_def case_prod_beta)
  then show ?thesis by (auto simp: httpd_serve_def Let_def split: prod.splits option.splits)
qed

theorem httpd_returns_witness: "\<exists>stay c' w'. httpd_serve mem_env mem_conn (mem_start ''GET /a.txt HTTP/1.1'') = Some (stay, c', w')"
  by (rule httpd_returns [OF mem_finite]) (simp add: mem_conn_def)

text \<open>
  URL decoding undoes URL encoding, whatever the client leaves unencoded, and since it
  never makes a string longer it can be done in place.
\<close>

theorem url_roundtrip: "url_decode (url_encode keep s) = s \<and> length (url_decode u) \<le> length u"
  by (simp add: url_decode_encode length_url_decode)


text \<open>
  C25: downloads are exact.  A file that can be opened is sent as a complete header with its
  type and length, followed by all of its bytes, or by nothing for \<^verbatim>\<open>HEAD\<close>, and the call
  returns with the connection as it was.
\<close>

theorem download_exact:
  assumes "download_env e rest out" and "0 < xfer_sz c" and "fs_open e p ReadMode w = (Some h, w1)" and "n < 2 ^ 32"
  shows "\<exists>w'. send_file e c p n w = Some (c, w') \<and>
    out w' = out w1 @ http_hdr c ''200 OK'' (mime_type p) n @ (if head c then [] else rest w1)"
proof -
  obtain w2 where s: "http_send_all e (http_hdr c ''200 OK'' (mime_type p) n) w1 = (True, w2)"
      "out w2 = out w1 @ http_hdr c ''200 OK'' (mime_type p) n" "rest w2 = rest w1"
    using download_send [OF assms(1)] by blast
  obtain w3 where f: "file_loop e c h w2 = Some w3" "out w3 = out w2 @ rest w2"
    using file_loop_exact [OF assms(1,2)] by blast
  have "out (fs_close e h w4) = out w4" for w4 using assms(1) unfolding download_env_def by blast
  then show ?thesis
    using assms(3,4) s f by (simp add: send_file_def send_str_def file_hdr_text)
qed

theorem download_exact_witness:
  "\<exists>w'. send_file mem_env mem_conn ''/SD:/a.txt'' 6 (mem_start []) = Some (mem_conn, w') \<and>
     m_out w' = http_hdr mem_conn ''200 OK'' (mime_type ''/SD:/a.txt'') 6 @ ''hello!''"
  using download_exact [OF mem_download, of mem_conn "''/SD:/a.txt''" "mem_start []" 0 "(mem_start [])\<lparr>m_left := ''hello!''\<rparr>" 6]
  by (simp add: mem_conn_def mem_start_def mem_env_def)


text \<open>
  \<^verbatim>\<open>HEAD\<close> does not suppress the body of the measuring URL.  The request is recognised as
  \<^verbatim>\<open>HEAD\<close> only after \<^verbatim>\<open>/__zero/\<close> has been dealt with, so the guard on \<^verbatim>\<open>c->head\<close> there never
  applies and the zero bytes follow the header.
\<close>

theorem head_zero_sends_body:
  "map_option (\<lambda>(stay, c, w). (stay, m_out w))
     (httpd_serve mem_env mem_conn (mem_start (''HEAD /__zero/5 HTTP/1.0'' @ CRLF @ CRLF))) =
   Some (False, http_hdr mem_conn ''200 OK'' ''application/octet-stream'' 5 @ replicate 5 NUL)"
proof -
  let ?r = "''HEAD /__zero/5 HTTP/1.0'' @ CRLF @ CRLF"
  let ?c = "mem_conn\<lparr>head := False, keepalive := False\<rparr>" and ?w = "(mem_start ?r)\<lparr>m_in := []\<rparr>"
  let ?h = "http_hdr mem_conn ''200 OK'' ''application/octet-stream'' 5"
  have c: "cstr ?r = ?r" "cstr ''/__zero/5'' = ''/__zero/5''" by (rule cstr_id, simp add: NUL_def CRLF_def)+
  have p: "parse_line ?r = ReqLine ''HEAD'' ''/__zero/5'' (''HTTP/1.0'' @ CRLF @ CRLF)"
    by (simp add: parse_line_def strchr_def first_idx.simps URL_MAX_def CRLF_def)
  have n: "strtoul10 ''5'' = 5" by (simp add: strtoul10_def skip_sign_def is_space_def is_digit_def)
  have hd: "cstr (fit 128 ?h) = ?h"
    by (rule hdr_text) (simp_all add: NUL_def)
  have z: "zero_loop mem_env 4 5 w = Some (w\<lparr>m_out := m_out w @ replicate 5 NUL\<rparr>)" for w
    by (simp add: zero_loop.simps mem_send numeral_eq_Suc)
  have sz: "serve_zero mem_env ?c ''/__zero/5'' ?w = Some (?c, ?w\<lparr>m_out := ?h @ replicate 5 NUL\<rparr>)"
    using hd by (simp add: serve_zero_def n ZERO_CAP_def send_str_def mem_send z mem_conn_def mem_start_def)
  have su: "serve_url mem_env ?c ''HEAD'' ''/__zero/5'' [] ?r ?w = serve_zero mem_env ?c ''/__zero/5'' ?w"
    unfolding serve_url_def by simp
  have q: "split_query ''/__zero/5'' = (''/__zero/5'', [])" "url_decode ''/__zero/5'' = ''/__zero/5''"
    "\<not> prefix ''HTTP/1.1'' (''HTTP/1.0'' @ CRLF @ CRLF)" "\<not> conn_has ?r ''keep-alive''"
    by code_simp+
  have kc: "?c\<lparr>keepalive := False\<rparr> = ?c" by simp
  have "serve_request mem_env ?c ?r ?w = Some (False, ?c, ?w\<lparr>m_out := ?h @ replicate 5 NUL\<rparr>)"
    unfolding serve_request_def c(1) p req_line.case Let_def q(1) case_prod_conv q(2) c(2)
    using q(3,4) by (simp only: if_False kc su sz) simp
  moreover have "io_recv mem_env (REQ_MAX - 1) (mem_start ?r) = (Some ?r, ?w)"
    by (simp add: mem_env_def mem_start_def REQ_MAX_def CRLF_def)
  ultimately show ?thesis
    unfolding httpd_serve_def Let_def by simp
qed

end
