(* ===== verification/Conn_Pool.thy ===== *)
theory Conn_Pool
  imports Klauss_Prelude
begin

text \<open>
  The pool of connection workers that \<^verbatim>\<open>ssh/httpd.c\<close>, \<^verbatim>\<open>ssh/httpsd.c\<close> and \<^verbatim>\<open>ssh/ssh_server.c\<close>
  have in common: an accept loop that claims a slot, stores the socket (and the session) in
  it, joins the slot's previous thread and starts a new one, and workers that release their
  slot shortly before they end.  The accept loop and the workers interleave between the
  steps below; the parts inside one step hold the mutex or touch data of one thread only.
\<close>

section \<open>State\<close>

text \<open>
  A thread object is \<open>Dead\<close> (never created, or ended), \<open>Created\<close>, \<open>Serving\<close> with its own
  copy of the socket and the session, or \<open>Leaving\<close> after it has given up its slot.
\<close>

datatype worker = Dead | Created | Serving int nat | Leaving

record conn_slot =
  conn_busy :: bool
  conn_used :: bool
  conn_sock :: int
  conn_sess :: nat
  conn_thread :: worker

datatype acceptor = Accepting | Joining nat

text \<open>\<open>open_socks\<close> records the accepted descriptors that have not been closed.\<close>

record conn_pool =
  slots :: "conn_slot list"
  accept_pc :: acceptor
  open_socks :: "int set"




section \<open>The accept loop\<close>








section \<open>The workers\<close>






section \<open>Invariant\<close>

text \<open>A slot is held by the acceptor that fills it or by a worker that serves it.\<close>

definition worker_live :: "worker \<Rightarrow> bool" where
  "worker_live t = (case t of Created \<Rightarrow> True | Serving _ _ \<Rightarrow> True | _ \<Rightarrow> False)"

definition held :: "conn_pool \<Rightarrow> nat \<Rightarrow> bool" where
  "held p i \<longleftrightarrow> i < length (slots p) \<and> (accept_pc p = Joining i \<or> worker_live (conn_thread (slots p ! i)))"

definition sock_at :: "conn_pool \<Rightarrow> nat \<Rightarrow> int" where
  "sock_at p i = conn_sock (slots p ! i)"

definition slot_inv :: "conn_slot \<Rightarrow> bool" where
  "slot_inv s \<longleftrightarrow>
     (worker_live (conn_thread s) \<longrightarrow> conn_busy s) \<and>
     (\<not> conn_used s \<longrightarrow> conn_thread s = Dead) \<and>
     (\<forall>fd se. conn_thread s = Serving fd se \<longrightarrow> conn_sock s = fd \<and> conn_sess s = se)"




lemmas pool_simps = held_def sock_at_def slot_inv_def worker_live_def nth_upd
















section \<open>Properties\<close>



end
