(* ===== verification/Shell_Paths.thy ===== *)
theory Shell_Paths
  imports Cstring
begin

text \<open>
  \<^verbatim>\<open>ssh/shell_paths.c\<close>: the working directory of every shell, the normalisation of paths, and
  output redirection.  A shell is a non-zero number, as its pointer is.  The file system and
  the shell's own output are operations of the record \<open>sh_env\<close>.
\<close>

section \<open>Per-shell slots\<close>

definition FS_ROOT :: string where "FS_ROOT = ''/SD:''"
definition FS_ROOTSL :: string where "FS_ROOTSL = ''/SD:/''"
definition N_SLOTS :: nat where "N_SLOTS = 4"
definition MAX_COMPS :: nat where "MAX_COMPS = 32"
definition SHELL_PATH_MAX :: nat where "SHELL_PATH_MAX = 192"

record cwd_slot =
  sh :: nat
  cwd :: string
  rf :: nat
  redir :: bool

type_synonym cwd_tab = "cwd_slot list"

definition slot_claim :: "nat \<Rightarrow> unit \<Rightarrow> cwd_slot \<Rightarrow> cwd_slot" where
  "slot_claim k _ s = s\<lparr>sh := k, cwd := FS_ROOTSL, redir := False\<rparr>"

definition slot_for :: "nat \<Rightarrow> cwd_tab \<Rightarrow> nat option \<times> cwd_tab" where
  "slot_for k tab = (case first_idx (\<lambda>s. sh s = k) tab of
      Some i \<Rightarrow> (Some i, tab)
    | None \<Rightarrow> (case first_idx (\<lambda>s. sh s = 0) tab of
                 Some i \<Rightarrow> (Some i, tab[i := slot_claim k () (tab ! i)])
               | None \<Rightarrow> (None, tab)))"

definition shell_cwd :: "nat \<Rightarrow> cwd_tab \<Rightarrow> string \<times> cwd_tab" where
  "shell_cwd k tab = (case slot_for k tab of
      (Some i, tab') \<Rightarrow> (cwd (tab' ! i), tab')
    | (None, tab') \<Rightarrow> (FS_ROOTSL, tab'))"

definition shell_cwd_set :: "nat \<Rightarrow> string \<Rightarrow> cwd_tab \<Rightarrow> cwd_tab" where
  "shell_cwd_set k abs_path tab = (case slot_for k tab of
      (Some i, tab') \<Rightarrow> tab'[i := (tab' ! i)\<lparr>cwd := fit SHELL_PATH_MAX abs_path\<rparr>]
    | (None, tab') \<Rightarrow> tab')"

definition shell_cwd_reset :: "nat \<Rightarrow> cwd_tab \<Rightarrow> cwd_tab" where
  "shell_cwd_reset k tab = shell_cwd_set k FS_ROOTSL tab"

section \<open>Normalisation\<close>

text \<open>The tokens between slashes, empty ones skipped.\<close>

function comps_of :: "string \<Rightarrow> string list" where
  "comps_of s =
     (let p = dropWhile (\<lambda>c. c = CHR ''/'') s
      in if p = [] then []
         else takeWhile (\<lambda>c. c \<noteq> CHR ''/'') p # comps_of (drop (Suc (length (takeWhile (\<lambda>c. c \<noteq> CHR ''/'') p))) p))"
  by pat_completeness auto
termination
proof (relation "measure length")
  fix s p :: string
  assume "p = dropWhile (\<lambda>c. c = CHR ''/'') s" and "p \<noteq> []"
  moreover have "length (dropWhile (\<lambda>c. c = CHR ''/'') s) \<le> length s" by (rule length_dropWhile_le)
  ultimately have "length p \<le> length s" "0 < length p" by auto
  then show "(drop (Suc (length (takeWhile (\<lambda>c. c \<noteq> CHR ''/'') p))) p, s) \<in> measure length"
    unfolding in_measure length_drop by linarith
qed simp

declare comps_of.simps [simp del]

text \<open>One component: \<^verbatim>\<open>.\<close> is skipped, \<^verbatim>\<open>..\<close> drops the last one kept, more than 32 are not kept.\<close>

definition norm_step :: "string list \<Rightarrow> string \<Rightarrow> string list" where
  "norm_step st tok =
     (if tok = ''.'' then st
      else if tok = ''..'' then butlast st
      else if length st < MAX_COMPS then st @ [tok] else st)"

text \<open>
  The output loop: \<open>n\<close> counts what \<^verbatim>\<open>snprintf\<close> would have written, so that it can pass the size
  of the buffer although the text is cut there.
\<close>

fun norm_out :: "nat \<Rightarrow> nat \<Rightarrow> string \<Rightarrow> string list \<Rightarrow> string" where
  "norm_out sz n out [] = out"
| "norm_out sz n out (c # cs) =
     (if n < sz then norm_out sz (n + length (CHR ''/'' # c)) (out @ fit (sz - n) (CHR ''/'' # c)) cs else out)"

definition normalize :: "string \<Rightarrow> nat \<Rightarrow> string" where
  "normalize raw out_sz =
     (let tmp = fit SHELL_PATH_MAX raw;
          comps = foldl norm_step [] (comps_of (drop (length FS_ROOT) tmp));
          out = fit out_sz FS_ROOT; n = length FS_ROOT
      in if comps = [] then out @ fit (out_sz - n) ''/'' else norm_out out_sz n out comps)"

text \<open>The raw path that a command's argument stands for; \<open>None\<close> is a null pointer.\<close>

definition raw_path :: "string \<Rightarrow> string option \<Rightarrow> string" where
  "raw_path dir arg = fit SHELL_PATH_MAX (case arg of
      None \<Rightarrow> dir
    | Some s \<Rightarrow>
        if s = [] then dir
        else if prefix FS_ROOT s then s
        else if hd s = CHR ''/'' then FS_ROOT @ s
        else dir @ ''/'' @ s)"

definition shell_path_resolve :: "nat \<Rightarrow> string option \<Rightarrow> nat \<Rightarrow> cwd_tab \<Rightarrow> string \<times> cwd_tab" where
  "shell_path_resolve k arg out_sz tab =
     (case shell_cwd k tab of (dir, tab') \<Rightarrow> (normalize (raw_path dir arg) out_sz, tab'))"

text \<open>The prompt: the working directory, or its tail when it does not fit \<open>psz\<close> bytes.\<close>

definition prompt_text :: "nat \<Rightarrow> string \<Rightarrow> string" where
  "prompt_text psz dir =
     (let suffix = '' $ ''; cl = length dir; avail = psz - 1 - length suffix
      in if cl \<le> avail then fit psz (dir @ suffix)
         else fit psz (''<'' @ drop (cl - (avail - 1)) dir @ suffix))"

section \<open>Output redirection\<close>

record 'w sh_env =
  rd_open :: "string \<Rightarrow> bool \<Rightarrow> 'w \<Rightarrow> nat option \<times> 'w"
  rd_write :: "nat \<Rightarrow> string \<Rightarrow> 'w \<Rightarrow> 'w"
  rd_close :: "nat \<Rightarrow> 'w \<Rightarrow> 'w"
  shell_print :: "nat \<Rightarrow> string \<Rightarrow> 'w \<Rightarrow> 'w"
  shell_fprintf :: "nat \<Rightarrow> string \<Rightarrow> 'w \<Rightarrow> 'w"

datatype redir_arg = NoRedir | NoName | Redir nat bool string

text \<open>The search for the first argument that starts with \<open>>\<close>; \<open>i\<close> is its index.\<close>

fun find_redir :: "nat \<Rightarrow> string list \<Rightarrow> redir_arg" where
  "find_redir i [] = NoRedir"
| "find_redir i (a # as) =
     (if take 1 a \<noteq> ''>'' then find_redir (Suc i) as
      else let app = (take 2 a = ''>>''); rest = drop (if app then 2 else 1) a
           in if rest \<noteq> [] then Redir i app rest
              else (case as of [] \<Rightarrow> NoName | b # _ \<Rightarrow> Redir i app b))"

text \<open>The result code, the new argument count, the table and the world.\<close>

definition shell_redir_begin ::
  "'w sh_env \<Rightarrow> nat \<Rightarrow> string list \<Rightarrow> cwd_tab \<Rightarrow> 'w \<Rightarrow> int \<times> nat \<times> cwd_tab \<times> 'w" where
  "shell_redir_begin e k argv tab w =
     (case find_redir 1 (tl argv) of
        NoRedir \<Rightarrow> (0, length argv, tab, w)
      | NoName \<Rightarrow> (- 2, length argv, tab, w)
      | Redir i app fname \<Rightarrow>
          (case slot_for k tab of
             (None, tab1) \<Rightarrow> (- 3, length argv, tab1, w)
           | (Some j, tab1) \<Rightarrow>
               (case shell_path_resolve k (Some fname) SHELL_PATH_MAX tab1 of (path, tab2) \<Rightarrow>
                  (case rd_open e path app w of
                     (None, w') \<Rightarrow> (- 1, length argv, tab2[j := (tab2 ! j)\<lparr>rf := 0\<rparr>], w')
                   | (Some h, w') \<Rightarrow> (1, i, tab2[j := (tab2 ! j)\<lparr>rf := h, redir := True\<rparr>], w')))))"

definition shell_redir_end :: "'w sh_env \<Rightarrow> nat \<Rightarrow> cwd_tab \<Rightarrow> 'w \<Rightarrow> cwd_tab \<times> 'w" where
  "shell_redir_end e k tab w = (case slot_for k tab of
      (None, tab') \<Rightarrow> (tab', w)
    | (Some j, tab') \<Rightarrow>
        if redir (tab' ! j) then (tab'[j := (tab' ! j)\<lparr>redir := False\<rparr>], rd_close e (rf (tab' ! j)) w) else (tab', w))"

text \<open>\<open>msg\<close> is the formatted text, \<open>None\<close> when formatting failed.\<close>

definition sh_print :: "'w sh_env \<Rightarrow> nat \<Rightarrow> string option \<Rightarrow> cwd_tab \<Rightarrow> 'w \<Rightarrow> cwd_tab \<times> 'w" where
  "sh_print e k msg tab w = (case msg of
      None \<Rightarrow> (tab, w)
    | Some s \<Rightarrow>
        let buf = fit 256 s
        in case slot_for k tab of
             (Some j, tab') \<Rightarrow>
               if redir (tab' ! j) then (tab', rd_write e (rf (tab' ! j)) [CHR 0x0A] (rd_write e (rf (tab' ! j)) buf w))
               else (tab', shell_print e k buf w)
           | (None, tab') \<Rightarrow> (tab', shell_print e k buf w))"

definition sh_write :: "'w sh_env \<Rightarrow> nat \<Rightarrow> string \<Rightarrow> cwd_tab \<Rightarrow> 'w \<Rightarrow> cwd_tab \<times> 'w" where
  "sh_write e k data tab w = (case slot_for k tab of
      (Some j, tab') \<Rightarrow>
        if redir (tab' ! j) then (tab', rd_write e (rf (tab' ! j)) data w)
        else (tab', shell_fprintf e k (cstr data) w)
    | (None, tab') \<Rightarrow> (tab', shell_fprintf e k (cstr data) w))"

section \<open>Canonical paths\<close>

definition comp_ok :: "string \<Rightarrow> bool" where
  "comp_ok c \<longleftrightarrow> c \<noteq> [] \<and> CHR ''/'' \<notin> set c \<and> c \<noteq> ''.'' \<and> c \<noteq> ''..''"

definition join_comps :: "string list \<Rightarrow> string" where
  "join_comps cs = concat (map (\<lambda>c. CHR ''/'' # c) cs)"

text \<open>The root, or components that are neither empty nor \<^verbatim>\<open>.\<close> nor \<^verbatim>\<open>..\<close>, each after a slash.\<close>

definition canonical :: "string \<Rightarrow> bool" where
  "canonical p \<longleftrightarrow> p = FS_ROOTSL \<or> (\<exists>cs. cs \<noteq> [] \<and> p = FS_ROOT @ join_comps cs \<and> (\<forall>c \<in> set cs. comp_ok c))"

lemma join_comps_simps [simp]: "join_comps [] = []" "join_comps (c # cs) = CHR ''/'' # c @ join_comps cs"
  "join_comps (xs @ ys) = join_comps xs @ join_comps ys"
  by (simp_all add: join_comps_def)








definition path_ok :: "string \<Rightarrow> bool" where
  "path_ok p \<longleftrightarrow> canonical p \<and> length p < SHELL_PATH_MAX"





section \<open>The table of working directories\<close>

definition slot_taken :: "cwd_slot \<Rightarrow> bool" where
  "slot_taken s \<longleftrightarrow> sh s \<noteq> 0"

interpretation st: slot_table slot_taken sh slot_claim "\<lambda>s. s\<lparr>sh := 0\<rparr>" "\<lambda>k. k \<noteq> 0"
  by unfold_locales (simp_all add: slot_claim_def slot_taken_def)

lemma slot_for_eq:
  assumes "k \<noteq> 0"
  shows "slot_for k tab = (case st.lookup k tab of
      Some i \<Rightarrow> (Some i, tab)
    | None \<Rightarrow> (case st.free_slot tab of
                 Some i \<Rightarrow> (Some i, tab[i := slot_claim k () (tab ! i)])
               | None \<Rightarrow> (None, tab)))"
proof -
  have e: "(\<lambda>s. sh s = k) = (\<lambda>s. slot_taken s \<and> sh s = k)" "(\<lambda>s. sh s = 0) = (\<lambda>s. \<not> slot_taken s)"
    using assms by (auto simp: slot_taken_def)
  show ?thesis unfolding slot_for_def st.lookup_def st.free_slot_def e ..
qed

text \<open>
  What the table stands for: a working directory for every shell, the root for a shell that
  has no slot yet.
\<close>

definition cwd_abs :: "cwd_tab \<Rightarrow> nat \<Rightarrow> string" where
  "cwd_abs tab k = (case st.lookup k tab of Some i \<Rightarrow> cwd (tab ! i) | None \<Rightarrow> FS_ROOTSL)"

definition tab_inv :: "cwd_tab \<Rightarrow> bool" where
  "tab_inv tab \<longleftrightarrow> st.unique_keys tab \<and> (\<forall>s \<in> set tab. slot_taken s \<longrightarrow> path_ok (cwd s))"

definition tab_room :: "cwd_tab \<Rightarrow> nat \<Rightarrow> bool" where
  "tab_room tab k \<longleftrightarrow> st.lookup k tab \<noteq> None \<or> st.free_slot tab \<noteq> None"

lemma root_ok: "path_ok FS_ROOTSL"
  by (simp add: path_ok_def canonical_def SHELL_PATH_MAX_def FS_ROOTSL_def)

lemma lookup_cwd:
  assumes "tab_inv tab" and "st.lookup k tab = Some i"
  shows "i < length tab" and "sh (tab ! i) = k" and "k \<noteq> 0" and "path_ok (cwd (tab ! i))"
proof -
  show i: "i < length tab" and k: "sh (tab ! i) = k" "k \<noteq> 0"
    using assms(2) by (auto simp: st.lookup_def first_idx_Some slot_taken_def)
  show "path_ok (cwd (tab ! i))" using assms(1) i k by (auto simp: tab_inv_def slot_taken_def)
qed

lemma slot_for_spec:
  assumes "tab_inv tab" and "k \<noteq> 0" and "slot_for k tab = (r, tab')"
  shows "tab_inv tab'" and "cwd_abs tab' = cwd_abs tab" and "r = st.lookup k tab'" and "tab_room tab k \<longleftrightarrow> r \<noteq> None"
proof -
  consider i where "st.lookup k tab = Some i" "r = Some i" "tab' = tab"
    | i where "st.lookup k tab = None" "st.free_slot tab = Some i" "r = Some i" "tab' = tab[i := slot_claim k () (tab ! i)]"
    | "st.lookup k tab = None" "st.free_slot tab = None" "r = None" "tab' = tab"
    using assms(3) unfolding slot_for_eq [OF assms(2)] by (auto split: option.splits)
  then have "tab_inv tab' \<and> cwd_abs tab' = cwd_abs tab \<and> r = st.lookup k tab' \<and> (tab_room tab k \<longleftrightarrow> r \<noteq> None)"
  proof cases
    case (2 i)
    have u: "st.unique_keys tab" using assms(1) by (simp add: tab_inv_def)
    have i: "i < length tab" using 2(2) by (simp add: st.free_slot_def first_idx_less)
    have lk: "st.lookup k tab' = Some i" using st.lookup_put [OF u 2(1,2) assms(2)] 2(4) by simp
    have other: "st.lookup k' tab' = st.lookup k' tab" if "k' \<noteq> k" for k'
      using st.lookup_put_other [OF u 2(1,2) assms(2) that] 2(4) by simp
    have "cwd_abs tab' k' = cwd_abs tab k'" for k'
    proof (cases "k' = k")
      case True
      then show ?thesis using lk 2(1,4) i by (simp add: cwd_abs_def slot_claim_def)
    next
      case False
      then have "cwd (tab' ! j) = cwd (tab ! j)" if "st.lookup k' tab = Some j" for j
        using lookup_cwd [OF assms(1) that] 2(2,4) by (cases "j = i") (auto simp: st.free_slot_def first_idx_Some slot_taken_def)
      then show ?thesis using other [OF False] by (simp add: cwd_abs_def split: option.split)
    qed
    moreover have "tab_inv tab'"
      using st.unique_keys_put [OF u 2(1) assms(2)] assms(1) root_ok 2(4)
      by (auto simp: tab_inv_def slot_claim_def dest!: set_update_subset_insert [THEN subsetD])
    ultimately show ?thesis using lk 2 by (auto simp: tab_room_def)
  qed (use assms(1) in \<open>auto simp: tab_room_def\<close>)
  then show "tab_inv tab'" and "cwd_abs tab' = cwd_abs tab" and "r = st.lookup k tab'" and "tab_room tab k \<longleftrightarrow> r \<noteq> None"
    by auto
qed

lemma shell_cwd_spec:
  assumes "tab_inv tab" and "k \<noteq> 0" and "shell_cwd k tab = (d, tab')"
  shows "d = cwd_abs tab k" and "tab_inv tab'" and "cwd_abs tab' = cwd_abs tab" and "path_ok d"
proof -
  obtain r where s: "slot_for k tab = (r, tab')" and d: "d = (case r of Some i \<Rightarrow> cwd (tab' ! i) | None \<Rightarrow> FS_ROOTSL)"
    using assms(3) by (auto simp: shell_cwd_def split: prod.splits option.splits)
  note sp = slot_for_spec [OF assms(1,2) s]
  show d': "d = cwd_abs tab k" using d sp(2,3) by (metis cwd_abs_def)
  show "tab_inv tab'" "cwd_abs tab' = cwd_abs tab" by (rule sp(1), rule sp(2))
  show "path_ok d" using d sp(3) lookup_cwd(4) [OF sp(1)] root_ok by (auto split: option.splits)
qed

lemma shell_cwd_set_spec:
  assumes "tab_inv tab" and "k \<noteq> 0" and "path_ok p" and "tab_room tab k"
  shows "tab_inv (shell_cwd_set k p tab)" and "cwd_abs (shell_cwd_set k p tab) = (cwd_abs tab)(k := p)"
proof -
  obtain r tab' where s: "slot_for k tab = (r, tab')" by (cases "slot_for k tab")
  note sp = slot_for_spec [OF assms(1,2) s]
  obtain i where i: "r = Some i" using sp(4) assms(4) by auto
  have lk: "st.lookup k tab' = Some i" using sp(3) i by simp
  note l = lookup_cwd [OF sp(1) lk]
  let ?t = "tab'[i := (tab' ! i)\<lparr>cwd := p\<rparr>]"
  have e: "shell_cwd_set k p tab = ?t"
    using s i assms(3) by (auto simp: shell_cwd_set_def fit_def path_ok_def)
  have same: "st.lookup k' ?t = st.lookup k' tab'" for k'
    unfolding st.lookup_def using l(1)
    by (intro first_idx_cong) (auto simp: nth_upd slot_taken_def)
  have "cwd_abs ?t k' = (if k' = k then p else cwd_abs tab' k')" for k'
  proof (cases "k' = k")
    case True
    then show ?thesis using same lk l(1) by (simp add: cwd_abs_def)
  next
    case False
    have "j \<noteq> i" if "st.lookup k' tab' = Some j" for j using lookup_cwd(2) [OF sp(1) that] l(2) False by auto
    then show ?thesis using same False by (auto simp: cwd_abs_def split: option.split)
  qed
  then show "cwd_abs (shell_cwd_set k p tab) = (cwd_abs tab)(k := p)" unfolding e using sp(2) by auto
  have "st.unique_keys ?t"
    using sp(1) by (intro st.unique_keys_same) (auto simp: tab_inv_def slot_taken_def)
  then show "tab_inv (shell_cwd_set k p tab)"
    unfolding e using sp(1) assms(3) by (auto simp: tab_inv_def dest!: set_update_subset_insert [THEN subsetD])
qed

section \<open>Properties\<close>



text \<open>
  C33: the table implements one working directory per shell.  As long as there is a slot for
  the shell, reading gives the shell's own directory and changes no one's, and setting it
  to a resolved path changes that shell's and no other's, whichever slots they are in.
\<close>

theorem cwd_refines:
  assumes "tab_inv tab" and "k \<noteq> 0" and "tab_room tab k" and "path_ok p"
  shows "fst (shell_cwd k tab) = cwd_abs tab k \<and> cwd_abs (snd (shell_cwd k tab)) = cwd_abs tab \<and>
    cwd_abs (shell_cwd_set k p tab) = (cwd_abs tab)(k := p) \<and>
    cwd_abs (shell_cwd_reset k tab) = (cwd_abs tab)(k := FS_ROOTSL)"
  using shell_cwd_spec [OF assms(1,2) surjective_pairing]
    shell_cwd_set_spec(2) [OF assms(1,2,4,3)] shell_cwd_set_spec(2) [OF assms(1,2) root_ok assms(3)]
  by (simp add: shell_cwd_reset_def)

theorem cwd_refines_witness:
  "cwd_abs (shell_cwd_set 7 ''/SD:/a'' (replicate 4 \<lparr>sh = 0, cwd = [], rf = 0, redir = False\<rparr>)) 7 = ''/SD:/a'' \<and>
   cwd_abs (shell_cwd_set 7 ''/SD:/a'' (replicate 4 \<lparr>sh = 0, cwd = [], rf = 0, redir = False\<rparr>)) 9 =
   cwd_abs (replicate 4 \<lparr>sh = 0, cwd = [], rf = 0, redir = False\<rparr>) 9"
proof -
  let ?t = "replicate 4 \<lparr>sh = 0, cwd = [], rf = 0, redir = False\<rparr>"
  have "tab_inv ?t" by (auto simp: tab_inv_def st.unique_keys_def slot_taken_def)
  moreover have "tab_room ?t 7" by (simp add: tab_room_def st.free_slot_def slot_taken_def)
  moreover have "path_ok ''/SD:/a''"
    by (auto simp: path_ok_def canonical_def SHELL_PATH_MAX_def FS_ROOT_def comp_ok_def intro!: exI [of _ "[''a'']"])
  ultimately show ?thesis using cwd_refines [of ?t 7 "''/SD:/a''"] by simp
qed

end
