(* ===== verification/Netboot.thy ===== *)
theory Netboot
  imports Klauss_Prelude
begin

unbundle bit_operations_syntax

text \<open>
  The network program loader \<^verbatim>\<open>baremetal/programs/netboot.c\<close>: the receive state machine that
  stages an image in DDR, its checksum, the accept and receive callbacks, and the relocation
  trampoline that copies the image to address 0 and jumps to it.  lwIP calls the callbacks; a
  run is a sequence of such calls.  Memory is a function from byte addresses.
\<close>

section \<open>State\<close>

definition NETBOOT_MAGIC :: u32 where "NETBOOT_MAGIC = 0x54454E4B"
definition STAGING_BASE :: nat where "STAGING_BASE = 0x04000000"
definition TRAMP_BASE :: nat where "TRAMP_BASE = 0x07FF0000"
definition MAX_IMG_BYTES :: u32 where "MAX_IMG_BYTES = 0x01000000"

datatype rx_phase = RX_HEADER | RX_IMAGE | RX_DONE

type_synonym ddr = "nat \<Rightarrow> u8"

text \<open>\<open>nb_acks\<close> lists the replies sent, the latest first.\<close>

record netboot =
  g_phase :: rx_phase
  g_hdr :: "u8 list"
  g_hdr_have :: u32
  g_img_len :: u32
  g_entry_pc :: u32
  g_offset :: u32
  g_image_ready :: bool
  nb_mem :: ddr
  nb_acks :: "(u32 \<times> u32) list"

definition memcpy :: "nat \<Rightarrow> u8 list \<Rightarrow> ddr \<Rightarrow> ddr" where
  "memcpy dst bs m = (\<lambda>a. if dst \<le> a \<and> a < dst + length bs then bs ! (a - dst) else m a)"

definition rd_le32 :: "u8 list \<Rightarrow> u32" where
  "rd_le32 p = ucast (p ! 0) OR push_bit 8 (ucast (p ! 1)) OR push_bit 16 (ucast (p ! 2)) OR push_bit 24 (ucast (p ! 3))"

definition mem_le32 :: "ddr \<Rightarrow> nat \<Rightarrow> u32" where
  "mem_le32 m a = rd_le32 [m a, m (a + 1), m (a + 2), m (a + 3)]"

text \<open>The checksum loop runs over the whole words below \<open>len\<close>.\<close>

fun sum_words :: "ddr \<Rightarrow> nat \<Rightarrow> u32" where
  "sum_words m 0 = 0"
| "sum_words m (Suc k) = sum_words m k + mem_le32 m (STAGING_BASE + 4 * k)"

definition image_checksum :: "u32 \<Rightarrow> ddr \<Rightarrow> u32" where
  "image_checksum len m = sum_words m (unat len div 4)"

section \<open>Receiving\<close>

definition send_ack :: "u32 \<Rightarrow> u32 \<Rightarrow> netboot \<Rightarrow> netboot" where
  "send_ack status checksum s = s\<lparr>nb_acks := (status, checksum) # nb_acks s\<rparr>"

text \<open>One pass of the loop: how many bytes it takes and the state after them.\<close>

definition take_of :: "u32 \<Rightarrow> u8 list \<Rightarrow> nat" where
  "take_of need src = (if length src < unat need then length src else unat need)"

definition header_check :: "netboot \<Rightarrow> netboot" where
  "header_check s1 =
     (if g_hdr_have s1 \<noteq> 12 then s1
      else if rd_le32 (g_hdr s1) \<noteq> NETBOOT_MAGIC then (send_ack 1 0 s1)\<lparr>g_phase := RX_DONE\<rparr>
      else let s2 = s1\<lparr>g_img_len := rd_le32 (drop 4 (g_hdr s1)), g_entry_pc := rd_le32 (drop 8 (g_hdr s1)), g_offset := 0\<rparr>
           in if g_img_len s2 = 0 \<or> g_img_len s2 \<ge> MAX_IMG_BYTES then (send_ack 2 0 s2)\<lparr>g_phase := RX_DONE\<rparr>
              else s2\<lparr>g_phase := RX_IMAGE\<rparr>)"

definition rx_header :: "u8 list \<Rightarrow> netboot \<Rightarrow> nat \<times> netboot" where
  "rx_header src s =
     (let k = take_of (12 - g_hdr_have s) src; i = unat (g_hdr_have s)
      in (k, header_check (s\<lparr>g_hdr := take i (g_hdr s) @ take k src @ drop (i + k) (g_hdr s),
                             g_hdr_have := g_hdr_have s + of_nat k\<rparr>)))"

definition image_check :: "netboot \<Rightarrow> netboot" where
  "image_check s1 =
     (if g_offset s1 \<noteq> g_img_len s1 then s1
      else (send_ack 0 (image_checksum (g_img_len s1) (nb_mem s1)) s1)\<lparr>g_phase := RX_DONE, g_image_ready := True\<rparr>)"

definition rx_image :: "u8 list \<Rightarrow> netboot \<Rightarrow> nat \<times> netboot" where
  "rx_image src s =
     (let k = take_of (g_img_len s - g_offset s) src
      in (k, image_check (s\<lparr>nb_mem := memcpy (STAGING_BASE + unat (g_offset s)) (take k src) (nb_mem s),
                            g_offset := g_offset s + of_nat k\<rparr>)))"

definition phase_rank :: "rx_phase \<Rightarrow> nat" where
  "phase_rank p = (case p of RX_HEADER \<Rightarrow> 2 | RX_IMAGE \<Rightarrow> 1 | RX_DONE \<Rightarrow> 0)"

lemma take_of_le: "take_of need src \<le> length src"
  by (simp add: take_of_def)

lemma take_of_0: "take_of need src = 0 \<longleftrightarrow> src = [] \<or> need = 0"
  by (auto simp: take_of_def unat_eq_0)

lemma rank_header:
  assumes "src \<noteq> []" and "g_phase s = RX_HEADER"
  shows "phase_rank (g_phase (snd (rx_header src s))) + 3 * (length src - fst (rx_header src s)) < 2 + 3 * length src"
proof (cases "take_of (12 - g_hdr_have s) src = 0")
  case True
  then have "g_hdr_have s = 12" using assms(1) by (simp add: take_of_0)
  then show ?thesis using True by (simp add: rx_header_def header_check_def Let_def phase_rank_def)
next
  case False
  then show ?thesis
    using take_of_le [of "12 - g_hdr_have s" src] assms(2)
    by (auto simp: rx_header_def header_check_def Let_def phase_rank_def send_ack_def)
qed

lemma rank_image:
  assumes "src \<noteq> []" and "g_phase s = RX_IMAGE"
  shows "phase_rank (g_phase (snd (rx_image src s))) + 3 * (length src - fst (rx_image src s)) < 1 + 3 * length src"
proof (cases "take_of (g_img_len s - g_offset s) src = 0")
  case True
  then have "g_img_len s = g_offset s" using assms(1) by (simp add: take_of_0)
  then show ?thesis using True by (simp add: rx_image_def image_check_def Let_def phase_rank_def)
next
  case False
  then show ?thesis
    using take_of_le [of "g_img_len s - g_offset s" src] assms(2)
    by (auto simp: rx_image_def image_check_def Let_def phase_rank_def send_ack_def)
qed

function consume :: "u8 list \<Rightarrow> netboot \<Rightarrow> netboot" where
  "consume src s =
     (if src = [] then s
      else case g_phase s of
             RX_HEADER \<Rightarrow> (let r = rx_header src s in consume (drop (fst r) src) (snd r))
           | RX_IMAGE \<Rightarrow> (let r = rx_image src s in consume (drop (fst r) src) (snd r))
           | RX_DONE \<Rightarrow> s)"
  by pat_completeness auto
termination
  by (relation "measure (\<lambda>(src, s). phase_rank (g_phase s) + 3 * length src)")
    (use rank_header rank_image in \<open>auto simp: phase_rank_def\<close>)

declare consume.simps [simp del]

text \<open>The callbacks: a chain of buffers, and a new connection, which resets the state machine.\<close>

definition netboot_recv :: "u8 list list \<Rightarrow> netboot \<Rightarrow> netboot" where
  "netboot_recv chain s = fold consume chain s"

definition netboot_accept :: "netboot \<Rightarrow> netboot" where
  "netboot_accept s = s\<lparr>g_phase := RX_HEADER, g_hdr_have := 0, g_offset := 0, g_img_len := 0\<rparr>"

section \<open>Launching\<close>

record cpu =
  cpu_pc :: u64
  cpu_sp :: u64
  cpu_mem :: ddr

text \<open>The copy loop of the trampoline, with its registers r0, r2 and r3.\<close>

partial_function (option) tramp_loop :: "u64 \<Rightarrow> u64 \<Rightarrow> u64 \<Rightarrow> ddr \<Rightarrow> ddr option" where
  "tramp_loop r0 r2 r3 m =
     (if r0 = 0 then Some m
      else tramp_loop (r0 - 8) (r2 + 8) (r3 + 8)
             (memcpy (unat r3) (map (\<lambda>i. m (unat r2 + i)) [0..<8]) m))"

definition nb_tramp :: "u64 \<Rightarrow> u64 \<Rightarrow> ddr \<Rightarrow> cpu option" where
  "nb_tramp len entry m =
     map_option (\<lambda>m'. \<lparr>cpu_pc = entry, cpu_sp = 0x08000000, cpu_mem = m'\<rparr>) (tramp_loop len 0x04000000 0 m)"

text \<open>\<open>code\<close> is the assembled trampoline.\<close>

definition launch_image :: "u8 list \<Rightarrow> u32 \<Rightarrow> u32 \<Rightarrow> ddr \<Rightarrow> cpu option" where
  "launch_image code entry_pc img_len m =
     nb_tramp (ucast ((img_len + 7) AND NOT 7)) (ucast entry_pc) (memcpy TRAMP_BASE code m)"

text \<open>
  The main loop: calls from lwIP, and once an image is ready some more of them for about
  100 ms before the launch.
\<close>

datatype nb_event = NbAccept | NbRecv "u8 list list"

fun nb_exec :: "nb_event \<Rightarrow> netboot \<Rightarrow> netboot" where
  "nb_exec NbAccept s = netboot_accept s"
| "nb_exec (NbRecv chain) s = netboot_recv chain s"

definition flush_and_launch :: "u8 list \<Rightarrow> nb_event list \<Rightarrow> netboot \<Rightarrow> cpu option" where
  "flush_and_launch code late s =
     (let s' = fold nb_exec late s in launch_image code (g_entry_pc s') (g_img_len s') (nb_mem s'))"

section \<open>Splitting of the stream\<close>

definition nb_inv :: "netboot \<Rightarrow> bool" where
  "nb_inv s \<longleftrightarrow> length (g_hdr s) = 12 \<and>
     (g_phase s = RX_HEADER \<longrightarrow> g_hdr_have s < 12) \<and>
     (g_phase s = RX_IMAGE \<longrightarrow> g_offset s < g_img_len s \<and> g_img_len s < MAX_IMG_BYTES)"

lemma memcpy_Cons: "memcpy a (b # bs) m = memcpy (a + 1) bs (memcpy a [b] m)"
proof
  fix x
  show "memcpy a (b # bs) m x = memcpy (a + 1) bs (memcpy a [b] m) x"
    by (cases "x - a") (auto simp: memcpy_def diff_Suc split: nat.split)
qed

lemma memcpy_Nil [simp]: "memcpy a [] m = m"
  by (rule ext) (auto simp: memcpy_def)

lemma rx_header_byte:
  assumes "nb_inv s" and "g_phase s = RX_HEADER" and "g_hdr_have s < 11"
  shows "g_phase (snd (rx_header [b] s)) = RX_HEADER" and "fst (rx_header [b] s) = 1"
    and "fst (rx_header (b # src) s) = Suc (fst (rx_header src (snd (rx_header [b] s))))"
    and "snd (rx_header (b # src) s) = snd (rx_header src (snd (rx_header [b] s)))"
proof -
  define i where "i = unat (g_hdr_have s)"
  have i: "i < 11" "g_hdr_have s = of_nat i" using assms(3) by (simp_all add: i_def word_less_nat_alt)
  have l: "length (g_hdr s) = 12" using assms(1) by (simp add: nb_inv_def)
  have need: "unat (12 - g_hdr_have s) = 12 - i" "unat (12 - (g_hdr_have s + 1)) = 11 - i" "unat (g_hdr_have s + 1) = Suc i"
    using i(1) unfolding i(2) by (simp_all add: unat_sub_if' unat_word_ariths unat_of_nat)
  have k1: "take_of (12 - g_hdr_have s) [b] = 1" using need(1) i(1) by (simp add: take_of_def)
  have ne: "g_hdr_have s + 1 \<noteq> 12"
  proof
    assume "g_hdr_have s + 1 = 12"
    then have "unat (g_hdr_have s + 1) = 12" by simp
    then show False using need(3) i(1) by simp
  qed
  let ?s = "s\<lparr>g_hdr := take i (g_hdr s) @ [b] @ drop (i + 1) (g_hdr s), g_hdr_have := g_hdr_have s + 1\<rparr>"
  have s1: "snd (rx_header [b] s) = ?s" using k1 ne by (simp add: rx_header_def header_check_def Let_def i_def)
  have kk: "take_of (12 - g_hdr_have s) (b # src) = Suc (take_of (12 - (g_hdr_have s + 1)) src)"
    using need i(1) by (auto simp: take_of_def)
  have hdr: "take i (g_hdr s) @ take (Suc k) (b # src) @ drop (i + Suc k) (g_hdr s) =
      take (Suc i) (g_hdr ?s) @ take k src @ drop (Suc i + k) (g_hdr ?s)" for k
    using l i(1) by (simp add: min_def Suc_diff_le add.commute)
  show "g_phase (snd (rx_header [b] s)) = RX_HEADER" unfolding s1 using assms(2) by simp
  show "fst (rx_header [b] s) = 1" using k1 by (simp add: rx_header_def Let_def)
  show "fst (rx_header (b # src) s) = Suc (fst (rx_header src (snd (rx_header [b] s))))"
    unfolding s1 using kk by (simp add: rx_header_def Let_def)
  define k where "k = take_of (12 - (g_hdr_have s + 1)) src"
  have "snd (rx_header (b # src) s) = header_check (s\<lparr>g_hdr := take (Suc i) (g_hdr ?s) @ take k src @ drop (Suc i + k) (g_hdr ?s),
      g_hdr_have := g_hdr_have s + 1 + of_nat k\<rparr>)"
    unfolding rx_header_def Let_def kk k_def [symmetric] snd_conv i_def [symmetric] hdr by (simp only: of_nat_Suc add.assoc)
  also have "\<dots> = snd (rx_header src ?s)"
    unfolding rx_header_def Let_def k_def by (simp add: need(3))
  finally show "snd (rx_header (b # src) s) = snd (rx_header src (snd (rx_header [b] s)))" unfolding s1 .
qed

lemma rx_image_byte:
  assumes "nb_inv s" and "g_phase s = RX_IMAGE" and "g_offset s + 1 < g_img_len s"
  shows "g_phase (snd (rx_image [b] s)) = RX_IMAGE" and "fst (rx_image [b] s) = 1"
    and "fst (rx_image (b # src) s) = Suc (fst (rx_image src (snd (rx_image [b] s))))"
    and "snd (rx_image (b # src) s) = snd (rx_image src (snd (rx_image [b] s)))"
proof -
  have lt: "g_offset s < g_img_len s" using assms(1,2) by (simp add: nb_inv_def)
  then have o1: "unat (g_offset s + 1) = Suc (unat (g_offset s))"
    using unsigned_less [of "g_img_len s", where ?'a = nat] by (simp add: unat_word_ariths word_less_nat_alt)
  have need: "unat (g_img_len s - g_offset s) = unat (g_img_len s) - unat (g_offset s)"
    "unat (g_img_len s - (g_offset s + 1)) = unat (g_img_len s) - Suc (unat (g_offset s))"
    using unat_sub [OF less_imp_le [OF lt]] unat_sub [OF less_imp_le [OF assms(3)]] o1 by simp_all
  have ul: "Suc (unat (g_offset s)) < unat (g_img_len s)" using assms(3) o1 by (simp add: word_less_nat_alt)
  have k1: "take_of (g_img_len s - g_offset s) [b] = 1" using need(1) ul by (simp add: take_of_def)
  let ?s = "s\<lparr>nb_mem := memcpy (STAGING_BASE + unat (g_offset s)) [b] (nb_mem s), g_offset := g_offset s + 1\<rparr>"
  have s1: "snd (rx_image [b] s) = ?s" using k1 assms(3) by (simp add: rx_image_def image_check_def Let_def)
  have kk: "take_of (g_img_len s - g_offset s) (b # src) = Suc (take_of (g_img_len s - (g_offset s + 1)) src)"
    using need ul by (auto simp: take_of_def)
  show "g_phase (snd (rx_image [b] s)) = RX_IMAGE" unfolding s1 using assms(2) by simp
  show "fst (rx_image [b] s) = 1" using k1 by (simp add: rx_image_def Let_def)
  show "fst (rx_image (b # src) s) = Suc (fst (rx_image src (snd (rx_image [b] s))))"
    unfolding s1 using kk by (simp add: rx_image_def Let_def)
  define k where "k = take_of (g_img_len s - (g_offset s + 1)) src"
  have "snd (rx_image (b # src) s) = image_check (s\<lparr>nb_mem := memcpy (STAGING_BASE + unat (g_offset s) + 1) (take k src) (nb_mem ?s),
      g_offset := g_offset s + 1 + of_nat k\<rparr>)"
    using memcpy_Cons [of "STAGING_BASE + unat (g_offset s)" b "take k src" "nb_mem s"]
    unfolding rx_image_def Let_def kk k_def [symmetric] snd_conv take_Suc_Cons by (simp add: add.assoc)
  also have "\<dots> = snd (rx_image src ?s)"
    unfolding rx_image_def Let_def k_def by (simp add: o1)
  finally show "snd (rx_image (b # src) s) = snd (rx_image src (snd (rx_image [b] s)))" unfolding s1 .
qed

lemma consume_done: "g_phase s = RX_DONE \<Longrightarrow> consume src s = s"
  by (simp add: consume.simps)

lemma consume_Nil [simp]: "consume [] s = s"
  by (simp add: consume.simps)

lemma consume_header:
  "g_phase s = RX_HEADER \<Longrightarrow> src \<noteq> [] \<Longrightarrow> consume src s = consume (drop (fst (rx_header src s)) src) (snd (rx_header src s))"
  by (subst consume.simps) (simp add: Let_def)

lemma consume_image:
  "g_phase s = RX_IMAGE \<Longrightarrow> src \<noteq> [] \<Longrightarrow> consume src s = consume (drop (fst (rx_image src s)) src) (snd (rx_image src s))"
  by (subst consume.simps) (simp add: Let_def)

lemma consume_byte:
  assumes "nb_inv s"
  shows "consume (b # src) s = consume src (consume [b] s)"
proof (cases "g_phase s")
  case RX_HEADER
  have lt: "g_hdr_have s < 12" using assms RX_HEADER by (simp add: nb_inv_def)
  show ?thesis
  proof (cases "g_hdr_have s < 11")
    case True
    note r = rx_header_byte [OF assms RX_HEADER True]
    have "consume [b] s = snd (rx_header [b] s)" by (simp add: consume_header [OF RX_HEADER] r(2))
    then show ?thesis
      using consume_header [OF RX_HEADER, of "b # src"] consume_header [OF r(1) [of b], of src] r(3,4) [of b src]
      by (cases "src = []") auto
  next
    case False
    then have "unat (12 - g_hdr_have s) = 1"
      using lt by (simp add: word_less_nat_alt unat_sub_if')
    then have "take_of (12 - g_hdr_have s) (b # bs) = 1" for bs by (simp add: take_of_def)
    then have e: "rx_header (b # src) s = rx_header [b] s" "fst (rx_header [b] s) = 1" by (simp_all add: rx_header_def Let_def)
    have "consume [b] s = snd (rx_header [b] s)" by (simp add: consume_header [OF RX_HEADER] e(2))
    then show ?thesis using consume_header [OF RX_HEADER, of "b # src"] e by simp
  qed
next
  case RX_IMAGE
  have lt: "g_offset s < g_img_len s" using assms RX_IMAGE by (simp add: nb_inv_def)
  show ?thesis
  proof (cases "g_offset s + 1 < g_img_len s")
    case True
    note r = rx_image_byte [OF assms RX_IMAGE True]
    have "consume [b] s = snd (rx_image [b] s)" by (simp add: consume_image [OF RX_IMAGE] r(2))
    then show ?thesis
      using consume_image [OF RX_IMAGE, of "b # src"] consume_image [OF r(1) [of b], of src] r(3,4) [of b src]
      by (cases "src = []") auto
  next
    case False
    then have "g_img_len s - g_offset s = 1" using lt by (metis add.commute add_diff_cancel_right' inc_le order_le_neq_trans)
    then have "take_of (g_img_len s - g_offset s) (b # bs) = 1" for bs by (simp add: take_of_def)
    then have e: "rx_image (b # src) s = rx_image [b] s" "fst (rx_image [b] s) = 1" by (simp_all add: rx_image_def Let_def)
    have "consume [b] s = snd (rx_image [b] s)" by (simp add: consume_image [OF RX_IMAGE] e(2))
    then show ?thesis using consume_image [OF RX_IMAGE, of "b # src"] e by simp
  qed
qed (simp add: consume_done)

lemma image_check_simps [simp]:
  "nb_mem (image_check s) = nb_mem s" "g_hdr (image_check s) = g_hdr s" "g_offset (image_check s) = g_offset s"
  "g_img_len (image_check s) = g_img_len s" "g_hdr_have (image_check s) = g_hdr_have s"
  by (simp_all add: image_check_def send_ack_def)

lemma header_check_simps [simp]: "nb_mem (header_check s) = nb_mem s" "g_hdr (header_check s) = g_hdr s"
  by (simp_all add: header_check_def send_ack_def Let_def)

lemma header_check_inv:
  assumes "length (g_hdr s) = 12" and "g_phase s = RX_HEADER" and "g_hdr_have s \<le> 12"
  shows "nb_inv (header_check s)"
  using assms by (auto simp: nb_inv_def header_check_def send_ack_def Let_def word_gt_0 not_le order_le_less)

lemma image_check_inv:
  assumes "length (g_hdr s) = 12" and "g_phase s = RX_IMAGE" and "g_offset s \<le> g_img_len s" and "g_img_len s < MAX_IMG_BYTES"
  shows "nb_inv (image_check s)"
  using assms by (auto simp: nb_inv_def image_check_def send_ack_def)

text \<open>One byte keeps the invariant and writes, if at all, into the staging area.\<close>

definition in_staging :: "nat \<Rightarrow> bool" where
  "in_staging a \<longleftrightarrow> STAGING_BASE \<le> a \<and> a < STAGING_BASE + unat MAX_IMG_BYTES"

lemma step_word:
  assumes "x < (y :: u32)"
  shows "x + 1 \<le> y" and "unat (y - x) \<ge> 1"
  using assms unat_sub [OF less_imp_le [OF assms]] by (auto simp: inc_le word_less_nat_alt)

lemma consume_byte_inv:
  assumes "nb_inv s"
  shows "nb_inv (consume [b] s)" and "\<not> in_staging a \<Longrightarrow> nb_mem (consume [b] s) a = nb_mem s a"
proof -
  have l: "length (g_hdr s) = 12" using assms by (simp add: nb_inv_def)
  have "nb_inv (consume [b] s) \<and> (\<not> in_staging a \<longrightarrow> nb_mem (consume [b] s) a = nb_mem s a)"
  proof (cases "g_phase s")
    case RX_HEADER
    have lt: "g_hdr_have s < 12" using assms RX_HEADER by (simp add: nb_inv_def)
    have k: "take_of (12 - g_hdr_have s) [b] = 1" using step_word(2) [OF lt] by (simp add: take_of_def)
    have "unat (g_hdr_have s) < 12" using lt by (simp add: word_less_nat_alt)
    then show ?thesis
      using k l RX_HEADER step_word(1) [OF lt]
      by (auto simp: consume_header [OF RX_HEADER] rx_header_def Let_def intro!: header_check_inv)
  next
    case RX_IMAGE
    have lt: "g_offset s < g_img_len s" and m: "g_img_len s < MAX_IMG_BYTES" using assms RX_IMAGE by (simp_all add: nb_inv_def)
    have k: "take_of (g_img_len s - g_offset s) [b] = 1" using step_word(2) [OF lt] by (simp add: take_of_def)
    have "unat (g_offset s) < unat MAX_IMG_BYTES" using lt m by (simp add: word_less_nat_alt)
    then show ?thesis
      using k l RX_IMAGE step_word(1) [OF lt] m
      by (auto simp: consume_image [OF RX_IMAGE] rx_image_def Let_def memcpy_def in_staging_def intro!: image_check_inv)
  qed (use assms in \<open>simp add: consume_done\<close>)
  then show "nb_inv (consume [b] s)" and "\<not> in_staging a \<Longrightarrow> nb_mem (consume [b] s) a = nb_mem s a" by auto
qed

lemma consume_inv:
  assumes "nb_inv s"
  shows "nb_inv (consume src s)" and "\<not> in_staging a \<Longrightarrow> nb_mem (consume src s) a = nb_mem s a"
proof -
  have "nb_inv (consume src s) \<and> (\<not> in_staging a \<longrightarrow> nb_mem (consume src s) a = nb_mem s a)"
    using assms
  proof (induction src arbitrary: s)
    case (Cons b src)
    then show ?case
      using Cons.IH [OF consume_byte_inv(1) [OF Cons.prems, of b]] consume_byte_inv(2) [OF Cons.prems, of a b]
      unfolding consume_byte [OF Cons.prems, of b src] by simp
  qed simp
  then show "nb_inv (consume src s)" and "\<not> in_staging a \<Longrightarrow> nb_mem (consume src s) a = nb_mem s a" by auto
qed

lemma consume_append: "nb_inv s \<Longrightarrow> consume (xs @ ys) s = consume ys (consume xs s)"
proof (induction xs arbitrary: s)
  case (Cons b xs)
  show ?case
    unfolding append_Cons consume_byte [OF Cons.prems, of b "xs @ ys"] consume_byte [OF Cons.prems, of b xs]
    by (rule Cons.IH [OF consume_byte_inv(1) [OF Cons.prems]])
qed simp

lemma recv_inv:
  assumes "nb_inv s"
  shows "nb_inv (netboot_recv chain s)" and "\<not> in_staging a \<Longrightarrow> nb_mem (netboot_recv chain s) a = nb_mem s a"
    and "netboot_recv chain s = consume (concat chain) s"
proof -
  have "nb_inv (netboot_recv chain s) \<and> netboot_recv chain s = consume (concat chain) s"
    using assms unfolding netboot_recv_def
  proof (induction chain arbitrary: s)
    case (Cons c chain)
    then show ?case by (simp add: consume_append consume_inv(1))
  qed simp
  then show "nb_inv (netboot_recv chain s)" "netboot_recv chain s = consume (concat chain) s"
    "\<not> in_staging a \<Longrightarrow> nb_mem (netboot_recv chain s) a = nb_mem s a"
    using consume_inv(2) [OF assms] by auto
qed

lemma recvs_consume: "nb_inv s \<Longrightarrow> fold netboot_recv pbufs s = consume (concat (concat pbufs)) s"
  by (induction pbufs arbitrary: s) (simp_all add: recv_inv(1,3) consume_append consume_inv(1))

lemma accept_nb_inv: "length (g_hdr s) = 12 \<Longrightarrow> nb_inv (netboot_accept s)"
  by (simp add: nb_inv_def netboot_accept_def)

section \<open>The trampoline\<close>

lemma round_up:
  assumes "len < (MAX_IMG_BYTES :: u32)"
  shows "unat ((len + 7) AND NOT 7) = 8 * ((unat len + 7) div 8)"
proof -
  have l: "unat len < 0x1000000" using assms by (simp add: MAX_IMG_BYTES_def word_less_nat_alt)
  have m: "(7 :: u32) = mask 3" by (simp add: mask_eq_exp_minus_1)
  have "(x :: u32) AND NOT (mask 3) = push_bit 3 (drop_bit 3 x)" for x
    by (rule bit_word_eqI) (auto simp: bit_simps)
  then have "(len + 7) AND NOT 7 = push_bit 3 (drop_bit 3 (len + 7))" unfolding m .
  moreover have "unat (len + 7) = unat len + 7" using l by (simp add: unat_word_ariths)
  moreover have "(unat len + 7) div 8 * 8 < 2 ^ 32" using l div_times_less_eq_dividend [of "unat len + 7" 8] by simp
  ultimately show ?thesis
    by (simp add: drop_bit_eq_div push_bit_eq_mult unat_word_ariths unat_div)
qed

definition copied :: "nat \<Rightarrow> nat \<Rightarrow> ddr \<Rightarrow> ddr" where
  "copied lo hi m = (\<lambda>a. if lo \<le> a \<and> a < hi then m (STAGING_BASE + a) else m a)"

lemma unat64: "n < 2 ^ 64 \<Longrightarrow> unat (of_nat n :: u64) = n"
  by (simp add: unat_of_nat)

lemma tramp_loop_copies:
  assumes "j + k \<le> 0x200000"
  shows "tramp_loop (of_nat (8 * k)) (of_nat (STAGING_BASE + 8 * j)) (of_nat (8 * j)) m = Some (copied (8 * j) (8 * (j + k)) m)"
  using assms
proof (induction k arbitrary: j m)
  case 0
  then show ?case by (subst tramp_loop.simps) (auto simp: copied_def fun_eq_iff)
next
  case (Suc k)
  let ?m = "memcpy (8 * j) (map (\<lambda>i. m (STAGING_BASE + 8 * j + i)) [0..<8]) m"
  have u: "unat (of_nat (8 * j) :: u64) = 8 * j" "unat (of_nat (STAGING_BASE + 8 * j) :: u64) = STAGING_BASE + 8 * j"
    by (rule unat64, use Suc.prems in \<open>simp add: STAGING_BASE_def\<close>)+
  have "unat (of_nat (8 * Suc k) :: u64) = 8 * Suc k" by (rule unat64) (use Suc.prems in simp)
  then have nz: "of_nat (8 * Suc k) \<noteq> (0 :: u64)" by (metis mult_eq_0_iff nat.distinct(1) unat_0 zero_neq_numeral)
  have "tramp_loop (of_nat (8 * Suc k)) (of_nat (STAGING_BASE + 8 * j)) (of_nat (8 * j)) m =
      tramp_loop (of_nat (8 * k)) (of_nat (STAGING_BASE + 8 * Suc j)) (of_nat (8 * Suc j)) ?m"
    using nz u by (subst tramp_loop.simps) (simp add: algebra_simps)
  also have "\<dots> = Some (copied (8 * Suc j) (8 * (Suc j + k)) ?m)" using Suc.prems by (intro Suc.IH) simp
  also have "copied (8 * Suc j) (8 * (Suc j + k)) ?m = copied (8 * j) (8 * (j + Suc k)) m"
    using Suc.prems by (auto simp: copied_def memcpy_def STAGING_BASE_def fun_eq_iff)
  finally show ?case .
qed

lemma launch_copies:
  assumes "len < MAX_IMG_BYTES"
  shows "launch_image code entry len m =
    Some \<lparr>cpu_pc = ucast entry, cpu_sp = 0x08000000,
      cpu_mem = copied 0 (8 * ((unat len + 7) div 8)) (memcpy TRAMP_BASE code m)\<rparr>"
proof -
  let ?k = "(unat len + 7) div 8"
  have "unat len < 0x1000000" using assms by (simp add: MAX_IMG_BYTES_def word_less_nat_alt)
  then have k: "?k \<le> 0x200000" by simp
  have "ucast ((len + 7) AND NOT 7) = (of_nat (8 * ?k) :: u64)"
  proof -
    have "ucast x = (of_nat (unat x) :: u64)" for x :: u32 by simp
    then show ?thesis using round_up [OF assms] by metis
  qed
  then show ?thesis
    using tramp_loop_copies [of 0 ?k "memcpy TRAMP_BASE code m"] k
    by (simp add: launch_image_def nb_tramp_def STAGING_BASE_def)
qed

section \<open>Images\<close>

definition le_bytes :: "u32 \<Rightarrow> u8 list" where
  "le_bytes w = [ucast w, ucast (drop_bit 8 w), ucast (drop_bit 16 w), ucast (drop_bit 24 w)]"

lemma rd_le_bytes: "rd_le32 (le_bytes w @ rest) = w"
proof (rule bit_word_eqI)
  fix n assume "n < LENGTH(32)"
  then consider "n < 8" | "8 \<le> n" "n < 16" | "16 \<le> n" "n < 24" | "24 \<le> n" "n < 32" by force
  then show "bit (rd_le32 (le_bytes w @ rest)) n = bit w n"
    by cases (auto simp: rd_le32_def le_bytes_def bit_simps)
qed

lemma length_le_bytes [simp]: "length (le_bytes w) = 4"
  by (simp add: le_bytes_def)

definition image_stream :: "u32 \<Rightarrow> u8 list \<Rightarrow> u8 list" where
  "image_stream entry img = le_bytes NETBOOT_MAGIC @ le_bytes (of_nat (length img)) @ le_bytes entry @ img"

text \<open>The sum of the little-endian words of an image.\<close>

definition word_sum :: "u8 list \<Rightarrow> u32" where
  "word_sum img = (\<Sum>i < length img div 4. rd_le32 (drop (4 * i) img))"

lemma rd_le32_nth: "rd_le32 (drop k p) = rd_le32 [p ! k, p ! (k + 1), p ! (k + 2), p ! (k + 3)]" if "k + 3 < length p"
  using that by (simp add: rd_le32_def)

lemma checksum_words:
  assumes "k \<le> length img div 4"
  shows "sum_words (memcpy STAGING_BASE img m) k = (\<Sum>i < k. rd_le32 (drop (4 * i) img))"
  using assms
proof (induction k)
  case (Suc k)
  then have b: "4 * k + 3 < length img" by simp
  have "mem_le32 (memcpy STAGING_BASE img m) (STAGING_BASE + 4 * k) = rd_le32 (drop (4 * k) img)"
    unfolding rd_le32_nth [OF b] mem_le32_def using b by (simp add: memcpy_def add.assoc)
  then show ?case using Suc by simp
qed simp

lemma consume_stream:
  assumes "length (g_hdr s) = 12" and "g_phase s = RX_HEADER" and "g_hdr_have s = 0"
    and "img \<noteq> []" and "length img < unat MAX_IMG_BYTES"
  shows "consume (image_stream entry img @ extra) s =
    s\<lparr>g_hdr := le_bytes NETBOOT_MAGIC @ le_bytes (of_nat (length img)) @ le_bytes entry, g_hdr_have := 12,
      g_img_len := of_nat (length img), g_entry_pc := entry, g_offset := of_nat (length img),
      g_phase := RX_DONE, g_image_ready := True, nb_mem := memcpy STAGING_BASE img (nb_mem s),
      nb_acks := (0, word_sum img) # nb_acks s\<rparr>"
proof -
  let ?l = "of_nat (length img) :: u32" and ?h = "le_bytes NETBOOT_MAGIC @ le_bytes (of_nat (length img)) @ le_bytes entry"
  have ll: "length img < 0x1000000" using assms(5) by (simp add: MAX_IMG_BYTES_def)
  then have ul: "unat ?l = length img" by (simp add: unat_of_nat)
  then have lm: "?l < MAX_IMG_BYTES" "?l \<noteq> 0" using ll assms(4) by (auto simp: word_less_nat_alt MAX_IMG_BYTES_def simp flip: unat_eq_0)
  let ?s = "s\<lparr>g_hdr := ?h, g_hdr_have := 12, g_img_len := ?l, g_entry_pc := entry, g_offset := 0, g_phase := RX_IMAGE\<rparr>"
  have h: "rd_le32 ?h = NETBOOT_MAGIC" "rd_le32 (drop 4 ?h) = ?l" "rd_le32 (drop 8 ?h) = entry"
    using rd_le_bytes [of entry "[]"] by (simp_all add: rd_le_bytes)
  have s1: "image_stream entry img @ extra = ?h @ img @ extra" by (simp add: image_stream_def)
  have "rx_header (?h @ img @ extra) s = (12, ?s)"
    using assms(1,3) h lm by (simp add: rx_header_def header_check_def take_of_def Let_def not_le)
  then have "consume (image_stream entry img @ extra) s = consume (img @ extra) ?s"
    unfolding s1 by (subst consume_header [OF assms(2)]) (simp_all add: le_bytes_def)
  moreover have "rx_image (img @ extra) ?s = (length img, image_check (?s\<lparr>nb_mem := memcpy STAGING_BASE img (nb_mem s), g_offset := ?l\<rparr>))"
    using ul by (simp add: rx_image_def take_of_def Let_def)
  moreover have "image_checksum ?l (memcpy STAGING_BASE img (nb_mem s)) = word_sum img"
    using ul checksum_words by (simp add: image_checksum_def word_sum_def)
  ultimately show ?thesis
    using assms(4) by (simp add: consume_image image_check_def send_ack_def consume_done)
qed

section \<open>Properties\<close>

text \<open>
  C19: a sent image is received and run.  However lwIP splits the stream into buffers, chains
  and callbacks, after a connection has sent a header and an image of fewer than 16 MiB the
  board has answered with status 0 and the sum of the image's words, and launching leaves the
  image at address 0, the stack pointer where the hardware loader leaves it, and the program
  counter at the entry.
\<close>

theorem netboot_exact:
  assumes "length (g_hdr s) = 12" and "img \<noteq> []" and "length img < unat MAX_IMG_BYTES"
    and "concat (concat pbufs) = image_stream entry img @ extra"
  shows "let t = fold netboot_recv pbufs (netboot_accept s)
    in g_image_ready t \<and> nb_acks t = (0, word_sum img) # nb_acks s \<and>
       (\<exists>c. flush_and_launch code [] t = Some c \<and> cpu_pc c = ucast entry \<and> cpu_sp c = 0x08000000 \<and>
            (\<forall>i < length img. cpu_mem c i = img ! i))"
proof -
  let ?t = "fold netboot_recv pbufs (netboot_accept s)"
  have t: "?t = consume (image_stream entry img @ extra) (netboot_accept s)"
    using recvs_consume [OF accept_nb_inv [OF assms(1)], of pbufs] assms(4) by simp
  have u: "unat (of_nat (length img) :: u32) = length img"
    using assms(3) by (simp add: unat_of_nat MAX_IMG_BYTES_def)
  then have lm: "(of_nat (length img) :: u32) < MAX_IMG_BYTES" using assms(3) by (simp add: word_less_nat_alt)
  have m: "g_image_ready ?t" "nb_acks ?t = (0, word_sum img) # nb_acks s" "g_img_len ?t = of_nat (length img)"
      "g_entry_pc ?t = entry" "nb_mem ?t = memcpy STAGING_BASE img (nb_mem s)"
    unfolding t by (subst consume_stream, use assms(1-3) in \<open>simp_all add: netboot_accept_def\<close>)+
  have l: "i < 8 * ((length img + 7) div 8)" if "i < length img" for i using that by linarith
  have "length img < 0x1000000" using assms(3) by (simp add: MAX_IMG_BYTES_def)
  then have "copied 0 (8 * ((length img + 7) div 8)) (memcpy TRAMP_BASE code (memcpy STAGING_BASE img (nb_mem s))) i = img ! i"
    if "i < length img" for i
    using that l [OF that] by (simp add: copied_def memcpy_def STAGING_BASE_def TRAMP_BASE_def)
  then show ?thesis
    using m launch_copies [OF lm, of code entry] by (simp add: flush_and_launch_def Let_def u)
qed

definition nb_idle :: netboot where
  "nb_idle = \<lparr>g_phase = RX_HEADER, g_hdr = replicate 12 0, g_hdr_have = 0, g_img_len = 0, g_entry_pc = 0,
     g_offset = 0, g_image_ready = False, nb_mem = (\<lambda>_. 0), nb_acks = []\<rparr>"

theorem netboot_exact_witness:
  "g_image_ready (fold netboot_recv [[[0x4B, 0x4E], [0x45, 0x54, 2, 0, 0]], [[0, 0x20, 0, 0, 0, 7, 9]]] (netboot_accept nb_idle))"
  using netboot_exact [of nb_idle "[7, 9]" "[[[0x4B, 0x4E], [0x45, 0x54, 2, 0, 0]], [[0, 0x20, 0, 0, 0, 7, 9]]]" "0x20" "[]" "[]"]
  by (simp add: nb_idle_def MAX_IMG_BYTES_def image_stream_def le_bytes_def NETBOOT_MAGIC_def Let_def)

text \<open>
  C20: the loader writes nothing but the staging area.  Whatever is received, in any number of
  connections, memory outside the 16 MiB from \<^verbatim>\<open>0x0400_0000\<close> keeps its contents until the
  launch: the running loader, the trampoline's place and the stack are not overwritten.
\<close>

theorem netboot_confined:
  assumes "nb_inv s" and "\<not> in_staging a"
  shows "nb_mem (fold nb_exec evs s) a = nb_mem s a"
  using assms(1)
proof (induction evs arbitrary: s)
  case (Cons ev evs)
  have "nb_inv (nb_exec ev s) \<and> nb_mem (nb_exec ev s) a = nb_mem s a"
    using Cons.prems recv_inv(1,2) [OF Cons.prems] assms(2) accept_nb_inv [of s]
    by (cases ev) (simp_all add: nb_inv_def netboot_accept_def)
  then show ?case using Cons.IH [of "nb_exec ev s"] by simp
qed simp

theorem netboot_confined_witness:
  "nb_mem (fold nb_exec [NbAccept, NbRecv [[1, 2, 3]]] nb_idle) 0x20 = 0"
  using netboot_confined [of nb_idle "0x20" "[NbAccept, NbRecv [[1, 2, 3]]]"]
  by (simp add: nb_idle_def nb_inv_def in_staging_def STAGING_BASE_def)

text \<open>
  A connection accepted while the reply of a finished transfer is being flushed spoils
  the launch.  It resets the image length, so the trampoline copies nothing and jumps to the
  entry address in memory that still holds the loader.
\<close>

theorem late_accept_spoils_launch:
  "flush_and_launch code [NbAccept] s =
     Some \<lparr>cpu_pc = ucast (g_entry_pc s), cpu_sp = 0x08000000, cpu_mem = memcpy TRAMP_BASE code (nb_mem s)\<rparr>"
proof -
  have "copied 0 0 m = m" for m by (simp add: copied_def)
  then show ?thesis
    using launch_copies [of 0 code "g_entry_pc s" "nb_mem s"]
    by (simp add: flush_and_launch_def netboot_accept_def MAX_IMG_BYTES_def)
qed

end
