(* ===== verification/Sd_Disk.thy ===== *)
theory Sd_Disk
  imports Klauss_Prelude
begin

unbundle bit_operations_syntax

text \<open>
  The SD card driver \<^verbatim>\<open>drivers/disk/disk_klausscpu_sd.c\<close>: SPI transfers in a plain and a
  pipelined form, commands, initialisation, single- and multi-block transfers, retries and the
  disk-access operations.  The SPI controller and the card behind it are hardware: the
  operations of the record \<open>sd_io\<close> over a world \<open>'w\<close>.  A busy loop on the controller is one
  such operation; a loop with a deadline polls as often as \<open>polls\<close> says the time allows.
\<close>

section \<open>Registers and state\<close>

record 'w sd_io =
  wr_data :: "u8 \<Rightarrow> 'w \<Rightarrow> 'w"
  rd_data :: "'w \<Rightarrow> u8 \<times> 'w"
  rd_busy :: "'w \<Rightarrow> bool \<times> 'w"
  wait_idle :: "'w \<Rightarrow> 'w"
  wr_ctrl :: "u32 \<Rightarrow> 'w \<Rightarrow> 'w"
  polls :: "nat \<Rightarrow> 'w \<Rightarrow> nat"

record 'w sd_drv =
  s_ready :: bool
  s_blockaddr :: bool
  sd_pipeline :: bool
  sd_multiblock :: bool
  r_ctrl :: u32
  sd_info :: u8
  sd_rd_late :: nat
  hw :: 'w

definition SD_CTRL_CS_HI :: u32 where "SD_CTRL_CS_HI = push_bit 16 1"
definition SD_CTRL_PWR_ON :: u32 where "SD_CTRL_PWR_ON = push_bit 17 1"
definition SD_CLK_INIT :: u32 where "SD_CLK_INIT = 249"
definition SD_CLK_FAST :: u32 where "SD_CLK_FAST = 1"
definition SD_READY_MS :: nat where "SD_READY_MS = 500"
definition SD_TOKEN_MS :: nat where "SD_TOKEN_MS = 250"
definition SD_WBUSY_MS :: nat where "SD_WBUSY_MS = 750"
definition SD_RETRIES :: nat where "SD_RETRIES = 3"

section \<open>Transfers\<close>

definition spi_xfer :: "'w sd_io \<Rightarrow> u8 \<Rightarrow> 'w sd_drv \<Rightarrow> u8 \<times> 'w sd_drv" where
  "spi_xfer io tx s = (case rd_data io (wait_idle io (wr_data io tx (hw s))) of (b, w) \<Rightarrow> (b, s\<lparr>hw := w\<rparr>))"

fun rx_plain :: "'w sd_io \<Rightarrow> nat \<Rightarrow> 'w sd_drv \<Rightarrow> u8 list \<times> 'w sd_drv" where
  "rx_plain io 0 s = ([], s)"
| "rx_plain io (Suc n) s =
     (case spi_xfer io 0xFF s of (b, s1) \<Rightarrow> (case rx_plain io n s1 of (bs, s2) \<Rightarrow> (b # bs, s2)))"

text \<open>\<open>n\<close> more bytes of the pipelined loop; the result says whether one of them was late.\<close>

fun rx_pipe :: "'w sd_io \<Rightarrow> nat \<Rightarrow> 'w \<Rightarrow> u8 list \<times> bool \<times> 'w" where
  "rx_pipe io 0 w = ([], False, w)"
| "rx_pipe io (Suc n) w =
     (let w1 = wr_data io 0xFF (wait_idle io w);
          (b, w2) = rd_data io w1;
          (busy, w3) = rd_busy io w2;
          (bs, late, w4) = rx_pipe io n w3
      in (b # bs, \<not> busy \<or> late, w4))"

definition sd_rx_block :: "'w sd_io \<Rightarrow> bool \<Rightarrow> 'w sd_drv \<Rightarrow> int \<times> u8 list \<times> 'w sd_drv" where
  "sd_rx_block io pipe s =
     (if \<not> pipe then (case rx_plain io 512 s of (bs, s1) \<Rightarrow> (0, bs, s1))
      else case rx_pipe io 511 (wr_data io 0xFF (hw s)) of (bs, late, w1) \<Rightarrow>
        (case rd_data io (wait_idle io w1) of (b, w2) \<Rightarrow>
           if late then (- 5, bs @ [b], s\<lparr>hw := w2, sd_rd_late := Suc (sd_rd_late s)\<rparr>)
           else (0, bs @ [b], s\<lparr>hw := w2\<rparr>)))"

fun tx_plain :: "'w sd_io \<Rightarrow> u8 list \<Rightarrow> 'w sd_drv \<Rightarrow> 'w sd_drv" where
  "tx_plain io [] s = s"
| "tx_plain io (b # bs) s = tx_plain io bs (snd (spi_xfer io b s))"

definition sd_tx_block :: "'w sd_io \<Rightarrow> u8 list \<Rightarrow> 'w sd_drv \<Rightarrow> 'w sd_drv" where
  "sd_tx_block io buf s =
     (if \<not> sd_pipeline s then tx_plain io buf s
      else s\<lparr>hw := wait_idle io (fold (\<lambda>b w. wr_data io b (wait_idle io w)) buf (hw s))\<rparr>)"

definition set_ctrl :: "'w sd_io \<Rightarrow> u32 \<Rightarrow> 'w sd_drv \<Rightarrow> 'w sd_drv" where
  "set_ctrl io v s = s\<lparr>r_ctrl := v, hw := wr_ctrl io v (hw s)\<rparr>"

definition cs_assert :: "'w sd_io \<Rightarrow> 'w sd_drv \<Rightarrow> 'w sd_drv" where
  "cs_assert io s = set_ctrl io ((r_ctrl s AND 0xFFFF) OR SD_CTRL_PWR_ON) s"

definition cs_deassert :: "'w sd_io \<Rightarrow> 'w sd_drv \<Rightarrow> 'w sd_drv" where
  "cs_deassert io s = set_ctrl io ((r_ctrl s AND 0xFFFF) OR SD_CTRL_CS_HI OR SD_CTRL_PWR_ON) s"

definition set_clk :: "'w sd_io \<Rightarrow> u32 \<Rightarrow> 'w sd_drv \<Rightarrow> 'w sd_drv" where
  "set_clk io d s = set_ctrl io ((r_ctrl s AND NOT 0xFFFF) OR (d AND 0xFFFF)) s"

section \<open>Waiting and commands\<close>

text \<open>
  Poll until a byte satisfies \<open>P\<close>, at least once and \<open>k\<close> more times at most: the byte, or
  \<open>None\<close> when the time was up.
\<close>

fun poll :: "'w sd_io \<Rightarrow> (u8 \<Rightarrow> bool) \<Rightarrow> nat \<Rightarrow> 'w sd_drv \<Rightarrow> u8 option \<times> 'w sd_drv" where
  "poll io P 0 s = (case spi_xfer io 0xFF s of (b, s1) \<Rightarrow> (if P b then Some b else None, s1))"
| "poll io P (Suc k) s = (case spi_xfer io 0xFF s of (b, s1) \<Rightarrow> if P b then (Some b, s1) else poll io P k s1)"

definition sd_wait_ready :: "'w sd_io \<Rightarrow> nat \<Rightarrow> 'w sd_drv \<Rightarrow> int \<times> 'w sd_drv" where
  "sd_wait_ready io ms s = (case poll io (\<lambda>b. b = 0xFF) (polls io ms (hw s)) s of
      (Some _, s1) \<Rightarrow> (0, s1) | (None, s1) \<Rightarrow> (- 1, s1))"

definition sd_wait_token :: "'w sd_io \<Rightarrow> 'w sd_drv \<Rightarrow> int \<times> 'w sd_drv" where
  "sd_wait_token io s = (case poll io (\<lambda>b. b \<noteq> 0xFF) (polls io SD_TOKEN_MS (hw s)) s of
      (None, s1) \<Rightarrow> (- 2, s1)
    | (Some t, s1) \<Rightarrow> if t \<noteq> 0xFE then (- 3, s1\<lparr>sd_info := t\<rparr>) else (0, s1))"

definition sd_wait_not_busy :: "'w sd_io \<Rightarrow> nat \<Rightarrow> 'w sd_drv \<Rightarrow> int \<times> 'w sd_drv" where
  "sd_wait_not_busy io ms s = (case poll io (\<lambda>b. b \<noteq> 0) (polls io ms (hw s)) s of
      (None, s1) \<Rightarrow> (- 4, s1) | (Some _, s1) \<Rightarrow> (0, s1))"

text \<open>The response: the first of eight bytes whose top bit is clear, or \<^verbatim>\<open>0xFF\<close>.\<close>

definition read_r1 :: "'w sd_io \<Rightarrow> 'w sd_drv \<Rightarrow> u8 \<times> 'w sd_drv" where
  "read_r1 io s = (case poll io (\<lambda>r. r AND 0x80 = 0) 7 s of (None, s1) \<Rightarrow> (0xFF, s1) | (Some r, s1) \<Rightarrow> (r, s1))"

definition cmd_frame :: "u8 \<Rightarrow> u32 \<Rightarrow> u8 \<Rightarrow> u8 list" where
  "cmd_frame cmd arg crc =
     [0x40 OR (cmd AND 0x3F), ucast (drop_bit 24 arg), ucast (drop_bit 16 arg), ucast (drop_bit 8 arg), ucast arg, crc OR 1]"

definition sd_cmd :: "'w sd_io \<Rightarrow> u8 \<Rightarrow> u32 \<Rightarrow> u8 \<Rightarrow> 'w sd_drv \<Rightarrow> u8 \<times> 'w sd_drv" where
  "sd_cmd io cmd arg crc s =
     (let (rc, s1) = (if cmd = 0 then (0, snd (spi_xfer io 0xFF s)) else sd_wait_ready io SD_READY_MS s)
      in if rc \<noteq> 0 then (0xFF, s1) else read_r1 io (tx_plain io (cmd_frame cmd arg crc) s1))"

definition sd_acmd :: "'w sd_io \<Rightarrow> u8 \<Rightarrow> u32 \<Rightarrow> 'w sd_drv \<Rightarrow> u8 \<times> 'w sd_drv" where
  "sd_acmd io acmd arg s = sd_cmd io acmd arg 0x77 (snd (sd_cmd io 55 0 0x65 s))"

section \<open>Initialisation\<close>

definition clock_out :: "'w sd_io \<Rightarrow> nat \<Rightarrow> 'w sd_drv \<Rightarrow> 'w sd_drv" where
  "clock_out io n s = tx_plain io (replicate n 0xFF) s"

fun acmd41_loop :: "'w sd_io \<Rightarrow> nat \<Rightarrow> 'w sd_drv \<Rightarrow> bool \<times> 'w sd_drv" where
  "acmd41_loop io 0 s = (False, s)"
| "acmd41_loop io (Suc k) s =
     (case sd_acmd io 41 0x40000000 s of (r, s1) \<Rightarrow> if r = 0 then (True, s1) else acmd41_loop io k s1)"

text \<open>From the label \<^verbatim>\<open>ready\<close> on.\<close>

definition sd_read_ocr :: "'w sd_io \<Rightarrow> 'w sd_drv \<Rightarrow> int \<times> 'w sd_drv" where
  "sd_read_ocr io s =
     (case sd_cmd io 58 0 0xFD s of (r, s1) \<Rightarrow>
        if r \<noteq> 0 then (- 4, cs_deassert io s1)
        else case spi_xfer io 0xFF s1 of (ocr, s2) \<Rightarrow>
          let s3 = (clock_out io 3 s2)\<lparr>s_blockaddr := (ocr AND 0x40 \<noteq> 0)\<rparr>;
              (r16, s4) = (if s_blockaddr s3 then (0, s3) else sd_cmd io 16 512 0xFF s3)
          in if r16 \<noteq> 0 then (- 5, cs_deassert io s4)
             else (0, (set_clk io SD_CLK_FAST (cs_deassert io s4))\<lparr>s_ready := True\<rparr>))"

definition sd_hw_init :: "'w sd_io \<Rightarrow> 'w sd_drv \<Rightarrow> int \<times> 'w sd_drv" where
  "sd_hw_init io s0 =
     (let s1 = set_ctrl io (SD_CLK_INIT OR SD_CTRL_CS_HI OR SD_CTRL_PWR_ON) (s0\<lparr>s_ready := False\<rparr>);
          s2 = cs_assert io (clock_out io 10 s1)
      in case sd_cmd io 0 0 0x95 s2 of (r0, s3) \<Rightarrow>
         if r0 \<noteq> 1 then (- 1, cs_deassert io s3)
         else case sd_cmd io 8 0x1AA 0x87 s3 of (r8, s4) \<Rightarrow>
           if r8 \<noteq> 1 then (- 2, cs_deassert io s4)
           else case acmd41_loop io 2000 (clock_out io 4 s4) of (ok, s5) \<Rightarrow>
             if \<not> ok then (- 3, cs_deassert io s5) else sd_read_ocr io s5)"

section \<open>Blocks\<close>

definition blk_arg :: "u32 \<Rightarrow> 'w sd_drv \<Rightarrow> u32" where
  "blk_arg lba s = (if s_blockaddr s then lba else lba * 512)"

text \<open>The data of a failed read are whatever the buffer holds; the callers do not look at them.\<close>

definition sd_read_block :: "'w sd_io \<Rightarrow> u32 \<Rightarrow> bool \<Rightarrow> 'w sd_drv \<Rightarrow> int \<times> u8 list \<times> 'w sd_drv" where
  "sd_read_block io lba pipe s0 =
     (let s = cs_assert io s0
      in case sd_cmd io 17 (blk_arg lba s) 0xFF s of (r1, s1) \<Rightarrow>
         if r1 \<noteq> 0 then (- 1, [], cs_deassert io (s1\<lparr>sd_info := r1\<rparr>))
         else case sd_wait_token io s1 of (rc, s2) \<Rightarrow>
           if rc \<noteq> 0 then (rc, [], cs_deassert io s2)
           else case sd_rx_block io pipe s2 of (rc2, bs, s3) \<Rightarrow> (rc2, bs, cs_deassert io (clock_out io 2 s3)))"

text \<open>One data packet of a write: gap, token, block, checksum; the data response.\<close>

definition tx_packet :: "'w sd_io \<Rightarrow> u8 \<Rightarrow> u8 list \<Rightarrow> 'w sd_drv \<Rightarrow> u8 \<times> 'w sd_drv" where
  "tx_packet io token buf s =
     (case spi_xfer io 0xFF (clock_out io 2 (sd_tx_block io buf (tx_plain io [0xFF, token] s))) of
        (r, s1) \<Rightarrow> (r AND 0x1F, s1))"

definition sd_write_block :: "'w sd_io \<Rightarrow> u32 \<Rightarrow> u8 list \<Rightarrow> 'w sd_drv \<Rightarrow> int \<times> 'w sd_drv" where
  "sd_write_block io lba buf s0 =
     (let s = cs_assert io s0
      in case sd_cmd io 24 (blk_arg lba s) 0xFF s of (r1, s1) \<Rightarrow>
         if r1 \<noteq> 0 then (- 1, cs_deassert io (s1\<lparr>sd_info := r1\<rparr>))
         else case tx_packet io 0xFE buf s1 of (resp, s2) \<Rightarrow>
           if resp \<noteq> 5 then (- 3, cs_deassert io (s2\<lparr>sd_info := resp\<rparr>))
           else case sd_wait_not_busy io SD_WBUSY_MS s2 of (rc, s3) \<Rightarrow> (rc, cs_deassert io s3))"

definition sd_stop_read :: "'w sd_io \<Rightarrow> 'w sd_drv \<Rightarrow> 'w sd_drv" where
  "sd_stop_read io s =
     snd (sd_wait_not_busy io SD_WBUSY_MS (snd (read_r1 io (tx_plain io [0x40 OR 12, 0, 0, 0, 0, 0x61, 0xFF] s))))"

fun read_multi_loop :: "'w sd_io \<Rightarrow> nat \<Rightarrow> 'w sd_drv \<Rightarrow> int \<times> u8 list \<times> 'w sd_drv" where
  "read_multi_loop io 0 s = (0, [], s)"
| "read_multi_loop io (Suc n) s =
     (case sd_wait_token io s of (rc, s1) \<Rightarrow>
        if rc \<noteq> 0 then (rc, [], s1)
        else case sd_rx_block io (sd_pipeline s1) s1 of (rc2, bs, s2) \<Rightarrow>
          if rc2 \<noteq> 0 then (rc2, bs, s2)
          else case read_multi_loop io n (clock_out io 2 s2) of (rc3, cs, s3) \<Rightarrow> (rc3, bs @ cs, s3))"

definition sd_read_multi :: "'w sd_io \<Rightarrow> u32 \<Rightarrow> nat \<Rightarrow> 'w sd_drv \<Rightarrow> int \<times> u8 list \<times> 'w sd_drv" where
  "sd_read_multi io lba n s0 =
     (let s = cs_assert io s0
      in case sd_cmd io 18 (blk_arg lba s) 0xFF s of (r1, s1) \<Rightarrow>
         if r1 \<noteq> 0 then (- 1, [], cs_deassert io (s1\<lparr>sd_info := r1\<rparr>))
         else case read_multi_loop io n s1 of (rc, bs, s2) \<Rightarrow> (rc, bs, cs_deassert io (sd_stop_read io s2)))"

fun write_multi_loop :: "'w sd_io \<Rightarrow> nat \<Rightarrow> u8 list \<Rightarrow> 'w sd_drv \<Rightarrow> int \<times> 'w sd_drv" where
  "write_multi_loop io 0 buf s = (0, s)"
| "write_multi_loop io (Suc n) buf s =
     (case tx_packet io 0xFC (take 512 buf) s of (resp, s1) \<Rightarrow>
        if resp \<noteq> 5 then (- 3, s1\<lparr>sd_info := resp\<rparr>)
        else case sd_wait_not_busy io SD_WBUSY_MS s1 of (rc, s2) \<Rightarrow>
          if rc \<noteq> 0 then (rc, s2) else write_multi_loop io n (drop 512 buf) s2)"

definition sd_write_multi :: "'w sd_io \<Rightarrow> u32 \<Rightarrow> u8 list \<Rightarrow> nat \<Rightarrow> 'w sd_drv \<Rightarrow> int \<times> 'w sd_drv" where
  "sd_write_multi io lba buf n s0 =
     (let s = snd (sd_acmd io 23 (of_nat n) (cs_assert io s0))
      in case sd_cmd io 25 (blk_arg lba s) 0xFF s of (r1, s1) \<Rightarrow>
         if r1 \<noteq> 0 then (- 1, cs_deassert io (s1\<lparr>sd_info := r1\<rparr>))
         else case write_multi_loop io n buf s1 of (rc, s2) \<Rightarrow>
           (case sd_wait_not_busy io SD_WBUSY_MS (tx_plain io [0xFD, 0xFF] (snd (sd_wait_not_busy io SD_WBUSY_MS s2))) of
              (brc, s3) \<Rightarrow> (if rc \<noteq> 0 then rc else brc, cs_deassert io s3)))"

fun csd_token :: "'w sd_io \<Rightarrow> nat \<Rightarrow> 'w sd_drv \<Rightarrow> bool \<times> 'w sd_drv" where
  "csd_token io 0 s = (False, s)"
| "csd_token io (Suc k) s = (case spi_xfer io 0xFF s of (b, s1) \<Rightarrow> if b = 0xFE then (True, s1) else csd_token io k s1)"

definition sd_read_csd :: "'w sd_io \<Rightarrow> 'w sd_drv \<Rightarrow> int \<times> u8 list \<times> 'w sd_drv" where
  "sd_read_csd io s =
     (case sd_cmd io 9 0 0xAF (cs_assert io s) of (r1, s1) \<Rightarrow>
        if r1 \<noteq> 0 then (- 1, [], cs_deassert io s1)
        else case csd_token io 200000 s1 of (ok, s2) \<Rightarrow>
          if \<not> ok then (- 2, [], cs_deassert io s2)
          else case rx_plain io 16 s2 of (csd, s3) \<Rightarrow> (0, csd, cs_deassert io (clock_out io 2 s3)))"

section \<open>Disk access\<close>

definition ENODEV :: int where "ENODEV = 19"
definition EIO :: int where "EIO = 5"
definition ENOTSUP :: int where "ENOTSUP = 134"

text \<open>The retry loops: \<open>k\<close> tries are left; the result of the last try.\<close>

fun multi_read_tries :: "'w sd_io \<Rightarrow> nat \<Rightarrow> u32 \<Rightarrow> nat \<Rightarrow> 'w sd_drv \<Rightarrow> u8 list option \<times> 'w sd_drv" where
  "multi_read_tries io 0 lba n s = (None, s)"
| "multi_read_tries io (Suc k) lba n s =
     (case sd_read_multi io lba n s of (rc, bs, s1) \<Rightarrow>
        if rc = 0 then (Some bs, s1) else multi_read_tries io k lba n s1)"

fun block_read_tries :: "'w sd_io \<Rightarrow> nat \<Rightarrow> u32 \<Rightarrow> 'w sd_drv \<Rightarrow> u8 list option \<times> 'w sd_drv" where
  "block_read_tries io 0 lba s = (None, s)"
| "block_read_tries io (Suc k) lba s =
     (case sd_read_block io lba (sd_pipeline s \<and> k > 0) s of (rc, bs, s1) \<Rightarrow>
        if rc = 0 then (Some bs, s1) else block_read_tries io k lba s1)"

fun read_blocks :: "'w sd_io \<Rightarrow> nat \<Rightarrow> u32 \<Rightarrow> 'w sd_drv \<Rightarrow> u8 list option \<times> 'w sd_drv" where
  "read_blocks io 0 sector s = (Some [], s)"
| "read_blocks io (Suc n) sector s =
     (case block_read_tries io SD_RETRIES sector s of
        (None, s1) \<Rightarrow> (None, s1)
      | (Some bs, s1) \<Rightarrow>
          (case read_blocks io n (sector + 1) s1 of
             (None, s2) \<Rightarrow> (None, s2)
           | (Some cs, s2) \<Rightarrow> (Some (bs @ cs), s2)))"

definition access_read :: "'w sd_io \<Rightarrow> u32 \<Rightarrow> nat \<Rightarrow> 'w sd_drv \<Rightarrow> int \<times> u8 list \<times> 'w sd_drv" where
  "access_read io sector count s =
     (if \<not> s_ready s then (- ENODEV, [], s)
      else case (if count > 1 \<and> sd_multiblock s then multi_read_tries io SD_RETRIES sector count s else (None, s)) of
             (Some bs, s1) \<Rightarrow> (0, bs, s1)
           | (None, s1) \<Rightarrow>
               (case read_blocks io count sector s1 of
                  (None, s2) \<Rightarrow> (- EIO, [], s2)
                | (Some bs, s2) \<Rightarrow> (0, bs, s2)))"

fun multi_write_tries :: "'w sd_io \<Rightarrow> nat \<Rightarrow> u32 \<Rightarrow> u8 list \<Rightarrow> nat \<Rightarrow> 'w sd_drv \<Rightarrow> bool \<times> 'w sd_drv" where
  "multi_write_tries io 0 lba buf n s = (False, s)"
| "multi_write_tries io (Suc k) lba buf n s =
     (case sd_write_multi io lba buf n s of (rc, s1) \<Rightarrow>
        if rc = 0 then (True, s1) else multi_write_tries io k lba buf n s1)"

fun block_write_tries :: "'w sd_io \<Rightarrow> nat \<Rightarrow> u32 \<Rightarrow> u8 list \<Rightarrow> 'w sd_drv \<Rightarrow> bool \<times> 'w sd_drv" where
  "block_write_tries io 0 lba buf s = (False, s)"
| "block_write_tries io (Suc k) lba buf s =
     (case sd_write_block io lba buf s of (rc, s1) \<Rightarrow>
        if rc = 0 then (True, s1) else if rc = - 4 then (False, s1) else block_write_tries io k lba buf s1)"

fun write_blocks :: "'w sd_io \<Rightarrow> nat \<Rightarrow> u32 \<Rightarrow> u8 list \<Rightarrow> 'w sd_drv \<Rightarrow> bool \<times> 'w sd_drv" where
  "write_blocks io 0 sector buf s = (True, s)"
| "write_blocks io (Suc n) sector buf s =
     (case block_write_tries io SD_RETRIES sector (take 512 buf) s of
        (ok, s1) \<Rightarrow> if ok then write_blocks io n (sector + 1) (drop 512 buf) s1 else (False, s1))"

definition access_write :: "'w sd_io \<Rightarrow> u8 list \<Rightarrow> u32 \<Rightarrow> nat \<Rightarrow> 'w sd_drv \<Rightarrow> int \<times> 'w sd_drv" where
  "access_write io buf sector count s =
     (if \<not> s_ready s then (- ENODEV, s)
      else case (if count > 1 \<and> sd_multiblock s then multi_write_tries io SD_RETRIES sector buf count s else (False, s)) of
             (ok, s1) \<Rightarrow>
               if ok then (0, s1)
               else (case write_blocks io count sector buf s1 of (ok2, s2) \<Rightarrow> (if ok2 then 0 else - EIO, s2)))"

definition access_init :: "'w sd_io \<Rightarrow> 'w sd_drv \<Rightarrow> int \<times> 'w sd_drv" where
  "access_init io s = sd_hw_init io s"

definition DISK_STATUS_OK :: int where "DISK_STATUS_OK = 0"
definition DISK_STATUS_UNINIT :: int where "DISK_STATUS_UNINIT = 1"

definition access_status :: "'w sd_drv \<Rightarrow> int" where
  "access_status s = (if \<not> s_ready s then DISK_STATUS_UNINIT else DISK_STATUS_OK)"

text \<open>The capacity in sectors from the card's CSD register, \<open>None\<close> for an unknown structure version.\<close>

definition csd_sectors :: "u8 list \<Rightarrow> u32 option" where
  "csd_sectors csd =
     (let v = drop_bit 6 (csd ! 0) AND 3
      in if v = 0 then
           let read_bl_len = unat (csd ! 5 AND 0x0F);
               c_size = push_bit 10 (ucast (csd ! 6 AND 3)) OR push_bit 2 (ucast (csd ! 7)) OR (drop_bit 6 (ucast (csd ! 8)) :: u32);
               c_size_mult = unat (push_bit 1 (ucast (csd ! 9 AND 3)) OR (drop_bit 7 (ucast (csd ! 10)) :: u32))
           in Some (ucast (drop_bit 9 (push_bit read_bl_len (push_bit (c_size_mult + 2) (ucast (c_size + 1) :: u64)))))
         else if v = 1 then
           let c_size = push_bit 16 (ucast (csd ! 7 AND 0x3F)) OR push_bit 8 (ucast (csd ! 8)) OR (ucast (csd ! 9) :: u32)
           in Some ((c_size + 1) * 1024)
         else None)"

datatype sd_ioctl = CTRL_SYNC | GET_SECTOR_SIZE | GET_SECTOR_COUNT | GET_ERASE_BLOCK_SZ | OtherIoctl

definition access_ioctl :: "'w sd_io \<Rightarrow> sd_ioctl \<Rightarrow> 'w sd_drv \<Rightarrow> int \<times> u32 option \<times> 'w sd_drv" where
  "access_ioctl io cmd s =
     (if \<not> s_ready s then (- ENODEV, None, s)
      else case cmd of
             CTRL_SYNC \<Rightarrow> (0, None, s)
           | GET_SECTOR_SIZE \<Rightarrow> (0, Some 512, s)
           | GET_SECTOR_COUNT \<Rightarrow>
               (case sd_read_csd io s of (rc, csd, s1) \<Rightarrow>
                  if rc \<noteq> 0 then (- EIO, None, s1)
                  else (case csd_sectors csd of None \<Rightarrow> (- ENOTSUP, None, s1) | Some n \<Rightarrow> (0, Some n, s1)))
           | GET_ERASE_BLOCK_SZ \<Rightarrow> (0, Some 1, s)
           | OtherIoctl \<Rightarrow> (- ENOTSUP, None, s))"

section \<open>The controller\<close>

text \<open>
  What is assumed of the SPI controller, as the driver's comments describe it.  Its state is
  the byte being shifted in, if any, the latch behind \<^verbatim>\<open>DATA\<close>, and the bytes the card will
  send next.  Starting a transfer puts the next byte on the wire; it may complete at any
  moment, also during an access, and moves to the latch then.  What the card sends after
  anything but the filler \<^verbatim>\<open>0xFF\<close> is left open.
\<close>

type_synonym 'w sd_view = "'w \<Rightarrow> u8 option \<times> u8 \<times> (nat \<Rightarrow> u8)"

definition flying :: "'w sd_view \<Rightarrow> u8 \<Rightarrow> u8 \<Rightarrow> (nat \<Rightarrow> u8) \<Rightarrow> 'w \<Rightarrow> bool" where
  "flying view c l st w \<longleftrightarrow> view w = (Some c, l, st) \<or> view w = (None, c, st)"

definition sd_ctrl_ok :: "'w sd_io \<Rightarrow> 'w sd_view \<Rightarrow> bool" where
  "sd_ctrl_ok io view \<longleftrightarrow>
     (\<forall>w l st. view w = (None, l, st) \<longrightarrow> flying view (st 0) l (\<lambda>i. st (Suc i)) (wr_data io 0xFF w)) \<and>
     (\<forall>w l st b. view w = (None, l, st) \<longrightarrow> (\<exists>c st'. flying view c l st' (wr_data io b w))) \<and>
     (\<forall>w c l st. flying view c l st w \<longrightarrow> view (wait_idle io w) = (None, c, st)) \<and>
     (\<forall>w l st. view w = (None, l, st) \<longrightarrow> fst (rd_data io w) = l \<and> view (snd (rd_data io w)) = (None, l, st)) \<and>
     (\<forall>w c l st. view w = (Some c, l, st) \<longrightarrow>
        fst (rd_data io w) = l \<and> flying view c l st (snd (rd_data io w)) \<or>
        fst (rd_data io w) = c \<and> view (snd (rd_data io w)) = (None, c, st)) \<and>
     (\<forall>w l st. view w = (None, l, st) \<longrightarrow> \<not> fst (rd_busy io w) \<and> view (snd (rd_busy io w)) = (None, l, st)) \<and>
     (\<forall>w c l st. view w = (Some c, l, st) \<longrightarrow>
        fst (rd_busy io w) \<and> flying view c l st (snd (rd_busy io w)) \<or>
        \<not> fst (rd_busy io w) \<and> view (snd (rd_busy io w)) = (None, c, st)) \<and>
     (\<forall>w v. fst (view w) = None \<longrightarrow> fst (view (wr_ctrl io v w)) = None)"

lemma sd_ctrlD:
  assumes "sd_ctrl_ok io view"
  shows "view w = (None, l, st) \<Longrightarrow> flying view (st 0) l (\<lambda>i. st (Suc i)) (wr_data io 0xFF w)"
    and "view w = (None, l, st) \<Longrightarrow> \<exists>c st'. flying view c l st' (wr_data io b w)"
    and "flying view c l st w \<Longrightarrow> view (wait_idle io w) = (None, c, st)"
    and "view w = (None, l, st) \<Longrightarrow> fst (rd_data io w) = l"
    and "view w = (None, l, st) \<Longrightarrow> view (snd (rd_data io w)) = (None, l, st)"
    and "view w = (Some c, l, st) \<Longrightarrow> fst (rd_data io w) = l \<and> flying view c l st (snd (rd_data io w)) \<or>
        fst (rd_data io w) = c \<and> view (snd (rd_data io w)) = (None, c, st)"
    and "view w = (None, l, st) \<Longrightarrow> \<not> fst (rd_busy io w) \<and> view (snd (rd_busy io w)) = (None, l, st)"
    and "view w = (Some c, l, st) \<Longrightarrow> fst (rd_busy io w) \<and> flying view c l st (snd (rd_busy io w)) \<or>
        \<not> fst (rd_busy io w) \<and> view (snd (rd_busy io w)) = (None, c, st)"
    and "fst (view w) = None \<Longrightarrow> fst (view (wr_ctrl io v w)) = None"
  using assms [unfolded sd_ctrl_ok_def, THEN conjunct1, rule_format, of w l st]
    assms [unfolded sd_ctrl_ok_def, THEN conjunct2, THEN conjunct1, rule_format, of w l st b]
    assms [unfolded sd_ctrl_ok_def, THEN conjunct2, THEN conjunct2, THEN conjunct1, rule_format, of c l st w]
    assms [unfolded sd_ctrl_ok_def, THEN conjunct2, THEN conjunct2, THEN conjunct2]
  by simp_all

text \<open>
  One turn of the pipelined loop: whatever the timing, the next byte is in flight afterwards,
  and if the bus was still busy the byte read is the right one.
\<close>

lemma pipe_turn:
  assumes ok: "sd_ctrl_ok io view" and idle: "view w = (None, c, st)"
  defines "w1 \<equiv> wr_data io 0xFF w"
  defines "w2 \<equiv> snd (rd_data io w1)"
  shows "\<exists>l. flying view (st 0) l (\<lambda>i. st (Suc i)) (snd (rd_busy io w2))"
    and "fst (rd_busy io w2) \<Longrightarrow> fst (rd_data io w1) = c"
proof -
  let ?d = "st 0" and ?t = "\<lambda>i. st (Suc i)"
  have f: "flying view ?d c ?t w1" unfolding w1_def by (rule sd_ctrlD(1) [OF ok idle])
  have "fst (rd_data io w1) = c \<and> view w2 = (Some ?d, c, ?t) \<or> view w2 = (None, ?d, ?t)"
  proof (cases "view w1 = (Some ?d, c, ?t)")
    case True
    then show ?thesis using sd_ctrlD(6) [OF ok True] unfolding w2_def by (auto simp: flying_def)
  next
    case False
    then have "view w1 = (None, ?d, ?t)" using f by (simp add: flying_def)
    then show ?thesis using sd_ctrlD(5) [OF ok] unfolding w2_def by blast
  qed
  then have "(\<exists>l. flying view ?d l ?t (snd (rd_busy io w2))) \<and> (fst (rd_busy io w2) \<longrightarrow> fst (rd_data io w1) = c)"
  proof
    assume a: "fst (rd_data io w1) = c \<and> view w2 = (Some ?d, c, ?t)"
    then show ?thesis using sd_ctrlD(8) [OF ok, of w2 ?d c ?t] by (auto simp: flying_def)
  next
    assume "view w2 = (None, ?d, ?t)"
    then show ?thesis using sd_ctrlD(7) [OF ok, of w2 ?d ?t] by (auto simp: flying_def)
  qed
  then show "\<exists>l. flying view ?d l ?t (snd (rd_busy io w2))" and "fst (rd_busy io w2) \<Longrightarrow> fst (rd_data io w1) = c" by auto
qed

lemma rx_pipe_spec:
  assumes "sd_ctrl_ok io view" and "flying view (q 0) l (\<lambda>i. q (Suc i)) w" and "rx_pipe io n w = (bs, late, w')"
  shows "length bs = n \<and> (\<exists>l'. flying view (q n) l' (\<lambda>i. q (Suc n + i)) w') \<and> (\<not> late \<longrightarrow> bs = map q [0..<n])"
  using assms(2,3)
proof (induction n arbitrary: q l w bs late)
  case 0
  then show ?case by auto
next
  case (Suc n)
  let ?w1 = "wr_data io 0xFF (wait_idle io w)"
  let ?w2 = "snd (rd_data io ?w1)" let ?w3 = "snd (rd_busy io ?w2)"
  obtain cs late' where r: "rx_pipe io n ?w3 = (cs, late', w')" "bs = fst (rd_data io ?w1) # cs"
      "late \<longleftrightarrow> \<not> fst (rd_busy io ?w2) \<or> late'"
    using Suc.prems(2) by (auto simp: Let_def case_prod_beta prod_eq_iff)
  have idle: "view (wait_idle io w) = (None, q 0, \<lambda>i. q (Suc i))" by (rule sd_ctrlD(3) [OF assms(1) Suc.prems(1)])
  note t = pipe_turn [OF assms(1) idle]
  obtain l' where "flying view (q (Suc 0)) l' (\<lambda>i. q (Suc (Suc i))) ?w3" using t(1) by auto
  from Suc.IH [of "\<lambda>i. q (Suc i)", OF this r(1)]
  have "length cs = n" "\<exists>l'. flying view (q (Suc n)) l' (\<lambda>i. q (Suc (Suc n) + i)) w'"
      "\<not> late' \<longrightarrow> cs = map (\<lambda>i. q (Suc i)) [0..<n]" by auto
  moreover have "map q [0..<Suc n] = q 0 # map (\<lambda>i. q (Suc i)) [0..<n]"
    by (simp add: map_upt_Suc del: upt_Suc)
  ultimately show ?case using r(2,3) t(2) by simp
qed

definition idle :: "'w sd_view \<Rightarrow> (nat \<Rightarrow> u8) \<Rightarrow> 'w sd_drv \<Rightarrow> bool" where
  "idle view st s \<longleftrightarrow> (\<exists>l. view (hw s) = (None, l, st))"

definition same_cfg :: "'w sd_drv \<Rightarrow> 'w sd_drv \<Rightarrow> bool" where
  "same_cfg s t \<longleftrightarrow> s_ready t = s_ready s \<and> s_blockaddr t = s_blockaddr s \<and> sd_pipeline t = sd_pipeline s \<and>
     sd_multiblock t = sd_multiblock s"

text \<open>From an idle bus with this configuration to an idle bus with the same one.\<close>

definition keeps :: "'w sd_view \<Rightarrow> 'w sd_drv \<Rightarrow> 'w sd_drv \<Rightarrow> bool" where
  "keeps view s t \<longleftrightarrow> same_cfg s t \<and> (\<exists>st. idle view st t)"


lemma spi_ff:
  assumes "sd_ctrl_ok io view" and "idle view st s"
  shows "fst (spi_xfer io 0xFF s) = st 0" and "idle view (\<lambda>i. st (Suc i)) (snd (spi_xfer io 0xFF s))"
    and "same_cfg s (snd (spi_xfer io 0xFF s))"
proof -
  obtain l where "view (hw s) = (None, l, st)" using assms(2) by (auto simp: idle_def)
  from sd_ctrlD(3) [OF assms(1) sd_ctrlD(1) [OF assms(1) this]]
  have w: "view (wait_idle io (wr_data io 0xFF (hw s))) = (None, st 0, \<lambda>i. st (Suc i))" .
  show "fst (spi_xfer io 0xFF s) = st 0" "idle view (\<lambda>i. st (Suc i)) (snd (spi_xfer io 0xFF s))"
      "same_cfg s (snd (spi_xfer io 0xFF s))"
    using sd_ctrlD(4,5) [OF assms(1) w] by (auto simp: spi_xfer_def case_prod_beta idle_def same_cfg_def)
qed



lemma rx_plain_spec:
  assumes "sd_ctrl_ok io view"
  shows "idle view st s \<Longrightarrow> fst (rx_plain io n s) = map st [0..<n] \<and>
    idle view (\<lambda>i. st (i + n)) (snd (rx_plain io n s)) \<and> same_cfg s (snd (rx_plain io n s))"
proof (induction n arbitrary: st s)
  case (Suc n)
  let ?s = "snd (spi_xfer io 0xFF s)"
  note f = spi_ff [OF assms Suc.prems]
  have "map st [0..<Suc n] = st 0 # map (\<lambda>i. st (Suc i)) [0..<n]" by (simp add: map_upt_Suc del: upt_Suc)
  then show ?case
    using Suc.IH [OF f(2)] f(1,3) by (simp add: case_prod_beta same_cfg_def del: upt_Suc)
qed (simp add: same_cfg_def)



lemma rx_block_spec:
  assumes "sd_ctrl_ok io view" and "idle view st s" and "sd_rx_block io pipe s = (rc, bs, t)"
  shows "idle view (\<lambda>i. st (i + 512)) t" and "same_cfg s t" and "rc = 0 \<or> pipe \<and> rc = - 5" and "rc = 0 \<longrightarrow> bs = map st [0..<512]"
proof -
  have "idle view (\<lambda>i. st (i + 512)) t \<and> same_cfg s t \<and> (rc = 0 \<or> pipe \<and> rc = - 5) \<and> (rc = 0 \<longrightarrow> bs = map st [0..<512])"
  proof (cases pipe)
    case False
    then show ?thesis
      using rx_plain_spec [OF assms(1,2), of 512] assms(3) by (auto simp: sd_rx_block_def case_prod_beta)
  next
    case True
    obtain l where "view (hw s) = (None, l, st)" using assms(2) by (auto simp: idle_def)
    note fl = sd_ctrlD(1) [OF assms(1) this]
    obtain cs late w1 where r: "rx_pipe io 511 (wr_data io 0xFF (hw s)) = (cs, late, w1)"
      by (cases "rx_pipe io 511 (wr_data io 0xFF (hw s))")
    from rx_pipe_spec [OF assms(1) fl r] obtain l' where
      f: "flying view (st 511) l' (\<lambda>i. st (Suc 511 + i)) w1" and cs: "\<not> late \<longrightarrow> cs = map st [0..<511]" by blast
    have w: "view (wait_idle io w1) = (None, st 511, \<lambda>i. st (i + 512))"
      using sd_ctrlD(3) [OF assms(1) f] by (simp add: add.commute)
    have "map st [0..<512] = map st [0..<511] @ [st 511]" by (simp add: upt_Suc_append [of 0 511, simplified])
    then show ?thesis
      using assms(3) True r cs sd_ctrlD(4,5) [OF assms(1) w]
      by (auto simp: sd_rx_block_def case_prod_beta idle_def same_cfg_def split: if_splits)
  qed
  then show "idle view (\<lambda>i. st (i + 512)) t" and "same_cfg s t" and "rc = 0 \<or> pipe \<and> rc = - 5" and "rc = 0 \<longrightarrow> bs = map st [0..<512]"
    by auto
qed

section \<open>The card\<close>







lemma idle_info [simp]: "idle view st (s\<lparr>sd_info := x\<rparr>) = idle view st s" "same_cfg s (t\<lparr>sd_info := x\<rparr>) = same_cfg s t"
  "keeps view s (t\<lparr>sd_info := x\<rparr>) = keeps view s t"
  by (simp_all add: idle_def same_cfg_def keeps_def)











section \<open>Chip select\<close>

definition cs_high :: "'w sd_drv \<Rightarrow> bool" where
  "cs_high s \<longleftrightarrow> bit (r_ctrl s) 16"

lemma cs_deassert_high [simp]: "cs_high (cs_deassert io s)"
  by (simp add: cs_high_def cs_deassert_def set_ctrl_def SD_CTRL_CS_HI_def SD_CTRL_PWR_ON_def bit_simps)

lemma set_clk_high [simp]: "cs_high (set_clk io d s) = cs_high s"
proof -
  have "\<not> bit (0xFFFF :: u32) 16" by simp
  then show ?thesis by (simp add: cs_high_def set_clk_def set_ctrl_def bit_simps)
qed

lemma blocks_release:
  "cs_high (snd (snd (sd_read_block io lba pipe s)))" "cs_high (snd (sd_write_block io lba buf s))"
  "cs_high (snd (snd (sd_read_multi io lba n s)))" "cs_high (snd (sd_write_multi io lba buf n s))"
  "cs_high (snd (snd (sd_read_csd io s)))"
  by (simp_all add: sd_read_block_def sd_write_block_def sd_read_multi_def sd_write_multi_def sd_read_csd_def Let_def
      case_prod_beta)

lemma read_tries_release:
  "cs_high s \<Longrightarrow> cs_high (snd (block_read_tries io k lba s))" "cs_high s \<Longrightarrow> cs_high (snd (multi_read_tries io k lba n s))"
  "cs_high s \<Longrightarrow> cs_high (snd (block_write_tries io k lba buf s))" "cs_high s \<Longrightarrow> cs_high (snd (multi_write_tries io k lba buf n s))"
  by (induction k arbitrary: s) (simp_all add: case_prod_beta blocks_release)

lemma all_blocks_release:
  "cs_high s \<Longrightarrow> cs_high (snd (read_blocks io n sector s))" "cs_high s \<Longrightarrow> cs_high (snd (write_blocks io n sector buf s))"
proof (induction n arbitrary: s sector buf)
  case (Suc n)
  { case 1
    then show ?case
      using Suc.IH(1) read_tries_release(1) [OF 1, of io SD_RETRIES sector]
      by (auto simp: case_prod_beta split: option.split) }
  { case 2
    then show ?case using Suc.IH(2) read_tries_release(3) [OF 2] by (simp add: case_prod_beta) }
qed simp_all

lemma cs_high_ready [simp]: "cs_high (s\<lparr>s_ready := x\<rparr>) = cs_high s"
  by (simp add: cs_high_def)

lemma ocr_release: "cs_high (snd (sd_read_ocr io s))"
  by (simp add: sd_read_ocr_def Let_def case_prod_beta)

lemma init_release: "cs_high (snd (sd_hw_init io s))"
  by (simp add: sd_hw_init_def Let_def case_prod_beta ocr_release)

text \<open>Only the end of the initialisation marks the card ready.\<close>

lemma ready_basic [simp]:
  "s_ready (set_ctrl io v s) = s_ready s" "s_ready (cs_assert io s) = s_ready s" "s_ready (cs_deassert io s) = s_ready s"
  "s_ready (snd (spi_xfer io b s)) = s_ready s"
  by (simp_all add: set_ctrl_def cs_assert_def cs_deassert_def spi_xfer_def case_prod_beta)

lemma ready_tx [simp]: "s_ready (tx_plain io bs s) = s_ready s"
  by (induction bs arbitrary: s) simp_all

lemma ready_poll [simp]: "s_ready (snd (poll io P k s)) = s_ready s"
  by (induction k arbitrary: s) (simp_all add: case_prod_beta)

lemma ready_cmd [simp]: "s_ready (snd (sd_cmd io cmd arg crc s)) = s_ready s" "s_ready (snd (sd_acmd io cmd arg s)) = s_ready s"
proof -
  have "s_ready (snd (sd_cmd io cmd arg crc s)) = s_ready s" for cmd arg crc s
    by (auto simp: sd_cmd_def sd_wait_ready_def read_r1_def case_prod_beta Let_def split: option.split)
  then show "s_ready (snd (sd_cmd io cmd arg crc s)) = s_ready s" "s_ready (snd (sd_acmd io cmd arg s)) = s_ready s"
    by (simp_all add: sd_acmd_def)
qed

lemma ready_acmd41 [simp]: "s_ready (snd (acmd41_loop io k s)) = s_ready s"
  by (induction k arbitrary: s) (simp_all add: case_prod_beta)

lemma init_ready: "fst (sd_hw_init io s) = 0 \<longleftrightarrow> s_ready (snd (sd_hw_init io s))"
proof -
  have "fst (sd_read_ocr io t) = 0 \<longleftrightarrow> s_ready (snd (sd_read_ocr io t))" if "\<not> s_ready t" for t
    using that by (auto simp: sd_read_ocr_def Let_def case_prod_beta clock_out_def)
  then show ?thesis by (simp add: sd_hw_init_def Let_def case_prod_beta clock_out_def)
qed

section \<open>A sample card\<close>

text \<open>
  A card that holds zeros, behind a controller that completes every transfer at once: its
  state is the latch and the number of bytes clocked since the last byte of a command.
\<close>

definition sim_byte :: "nat \<Rightarrow> u8" where
  "sim_byte i = (if i < 8 then 0xFF else if i = 9 then 0xFE else 0)"

definition sim_io :: "(u8 \<times> nat) sd_io" where
  "sim_io = \<lparr>wr_data = (\<lambda>b w. if b = 0xFF then (sim_byte (snd w), Suc (snd w)) else (0xFF, 0)),
     rd_data = (\<lambda>w. (fst w, w)), rd_busy = (\<lambda>w. (False, w)), wait_idle = (\<lambda>w. w), wr_ctrl = (\<lambda>v w. w), polls = (\<lambda>ms w. 9)\<rparr>"

definition sim_view :: "(u8 \<times> nat) sd_view" where
  "sim_view w = (None, fst w, \<lambda>i. sim_byte (snd w + i))"

definition sim_start :: "(u8 \<times> nat) sd_drv" where
  "sim_start = \<lparr>s_ready = True, s_blockaddr = True, sd_pipeline = False, sd_multiblock = True, r_ctrl = 0x30001, sd_info = 0,
     sd_rd_late = 0, hw = (0xFF, 0)\<rparr>"

definition sim_block :: "u8 list" where "sim_block = replicate 512 0"

lemma sim_ctrl_ok: "sd_ctrl_ok sim_io sim_view"
  by (auto simp: sd_ctrl_ok_def sim_io_def sim_view_def flying_def)

lemma sim_spi [simp]:
  "spi_xfer sim_io b s = (if b = 0xFF then (sim_byte (snd (hw s)), s\<lparr>hw := (sim_byte (snd (hw s)), Suc (snd (hw s)))\<rparr>)
     else (0xFF, s\<lparr>hw := (0xFF, 0)\<rparr>))"
  by (simp add: spi_xfer_def sim_io_def)







section \<open>Properties\<close>

text \<open>
  C8: the pipelined receive loop is as good as the plain one.  Whatever the timing of the
  processor against the controller, it clocks in exactly 512 bytes and leaves the bus idle;
  if it reports success the buffer holds the 512 bytes the card sent, as with the plain loop,
  which always succeeds; a byte overwritten in the latch is always detected.
\<close>

theorem pipelined_read_exact:
  assumes "sd_ctrl_ok io view" and "view (hw s) = (None, l, st)" and "sd_rx_block io pipe s = (rc, bs, t)"
  shows "(\<exists>l'. view (hw t) = (None, l', \<lambda>i. st (i + 512))) \<and> (rc = 0 \<or> pipe \<and> rc = - 5) \<and> (rc = 0 \<longrightarrow> bs = map st [0..<512])"
  using rx_block_spec [OF assms(1) _ assms(3), of st] assms(2) by (auto simp: idle_def)

theorem pipelined_read_exact_witness:
  "sd_ctrl_ok sim_io sim_view \<and> fst (snd (sd_rx_block sim_io False sim_start)) = map sim_byte [0..<512] \<and>
   fst (sd_rx_block sim_io True sim_start) \<in> {0, - 5}"
proof -
  have v: "sim_view (hw sim_start) = (None, 0xFF, \<lambda>i. sim_byte (0 + i))" by (simp add: sim_view_def sim_start_def)
  obtain rc bs t where r: "sd_rx_block sim_io False sim_start = (rc, bs, t)" by (cases "sd_rx_block sim_io False sim_start")
  obtain rc' bs' t' where r': "sd_rx_block sim_io True sim_start = (rc', bs', t')" by (cases "sd_rx_block sim_io True sim_start")
  show ?thesis
    using pipelined_read_exact [OF sim_ctrl_ok v r] pipelined_read_exact [OF sim_ctrl_ok v r'] r r' sim_ctrl_ok by auto
qed



text \<open>
  C23: no operation leaves the card selected, and the operations report only their documented
  codes.  After initialisation, a read, a write or a control request, successful or not, chip
  select is high (for the transfers: as it was between operations); reads and writes return 0,
  \<^verbatim>\<open>-EIO\<close>, or \<^verbatim>\<open>-ENODEV\<close> exactly if the card was not initialised.
\<close>

theorem sd_released:
  "cs_high (snd (access_init io s)) \<and>
   (cs_high s \<longrightarrow> cs_high (snd (snd (access_read io sector count s))) \<and> cs_high (snd (access_write io buf sector count s)) \<and>
      cs_high (snd (snd (access_ioctl io cmd s)))) \<and>
   fst (access_read io sector count s) \<in> {0, - EIO, - ENODEV} \<and> fst (access_write io buf sector count s) \<in> {0, - EIO, - ENODEV} \<and>
   (fst (access_read io sector count s) = - ENODEV \<longleftrightarrow> \<not> s_ready s) \<and>
   (fst (access_write io buf sector count s) = - ENODEV \<longleftrightarrow> \<not> s_ready s) \<and>
   (fst (access_init io s) = 0 \<longleftrightarrow> access_status (snd (access_init io s)) = DISK_STATUS_OK)"
proof -
  have r: "cs_high (snd (snd (access_read io sector count s)))" if "cs_high s"
    using that all_blocks_release(1) read_tries_release(2) [OF that]
    by (auto simp: access_read_def case_prod_beta split: option.split)
  have w: "cs_high (snd (access_write io buf sector count s))" if "cs_high s"
    using all_blocks_release(2) [OF that] all_blocks_release(2) [OF read_tries_release(4) [OF that]] read_tries_release(4) [OF that]
    by (simp add: access_write_def case_prod_beta that)
  have c: "cs_high (snd (snd (access_ioctl io cmd s)))" if "cs_high s"
    using that blocks_release(5) [of io s] by (auto simp: access_ioctl_def case_prod_beta split: sd_ioctl.split option.split)
  have "fst (access_read io sector count s) \<in> {0, - EIO, - ENODEV} \<and> (fst (access_read io sector count s) = - ENODEV \<longleftrightarrow> \<not> s_ready s)"
    by (simp add: access_read_def ENODEV_def EIO_def case_prod_beta split: option.split)
  moreover have "fst (access_write io buf sector count s) \<in> {0, - EIO, - ENODEV} \<and>
      (fst (access_write io buf sector count s) = - ENODEV \<longleftrightarrow> \<not> s_ready s)"
    by (simp add: access_write_def ENODEV_def EIO_def case_prod_beta)
  moreover have "fst (access_init io s) = 0 \<longleftrightarrow> access_status (snd (access_init io s)) = DISK_STATUS_OK"
    using init_ready [of io s] by (simp add: access_init_def access_status_def DISK_STATUS_OK_def DISK_STATUS_UNINIT_def)
  moreover have "cs_high (snd (access_init io s))" by (simp add: access_init_def init_release)
  ultimately show ?thesis using r w c by blast
qed

theorem sd_released_witness:
  "cs_high sim_start \<and> cs_high (snd (access_init sim_io sim_start)) \<and> cs_high (snd (snd (access_read sim_io 5 1 sim_start))) \<and>
   fst (access_write sim_io sim_block 5 1 sim_start) \<in> {0, - EIO}"
proof -
  have "cs_high sim_start" "s_ready sim_start" by (simp_all add: cs_high_def sim_start_def)
  then show ?thesis using sd_released [of sim_io sim_start 5 1 sim_block CTRL_SYNC] by auto
qed

end
