(* ===== verification/Crypto_Unit.thy ===== *)
theory Crypto_Unit
  imports Klauss_Prelude
begin

unbundle bit_operations_syntax

text \<open>
  The crypto blocks of the core as the drivers see them: the registers of
  \<^verbatim>\<open>mmio.h\<close> (AES, GHASH, SHA-256, HMAC), the packing of bytes into 64-bit register
  words, and what the register comments promise of the hardware.  The hardware itself is a
  parameter: a world with register reads, writes and waits.
\<close>

section \<open>Bytes and words\<close>

type_synonym bytes = "u8 list"
type_synonym blk = "u64 \<times> u64"

definition st64 :: "u64 \<Rightarrow> bytes" where
  "st64 v = map (\<lambda>i. ucast (drop_bit (8 * i) v)) [0..<8]"

definition ld64 :: "bytes \<Rightarrow> u64" where
  "ld64 p = foldr (\<lambda>b v. ucast b OR push_bit 8 v) (take 8 p) 0"

definition bswap64 :: "u64 \<Rightarrow> u64" where
  "bswap64 v =
     drop_bit 56 (v AND 0xFF00000000000000) OR drop_bit 40 (v AND 0x00FF000000000000) OR
     drop_bit 24 (v AND 0x0000FF0000000000) OR drop_bit 8 (v AND 0x000000FF00000000) OR
     push_bit 8 (v AND 0x00000000FF000000) OR push_bit 24 (v AND 0x0000000000FF0000) OR
     push_bit 40 (v AND 0x000000000000FF00) OR push_bit 56 (v AND 0x00000000000000FF)"

definition ld128 :: "bytes \<Rightarrow> blk" where
  "ld128 p = (ld64 p, ld64 (drop 8 p))"

definition st128 :: "blk \<Rightarrow> bytes" where
  "st128 b = st64 (fst b) @ st64 (snd b)"

definition xor2 :: "blk \<Rightarrow> blk \<Rightarrow> blk" where
  "xor2 a b = (fst a XOR fst b, snd a XOR snd b)"

definition xor_bytes :: "bytes \<Rightarrow> bytes \<Rightarrow> bytes" where
  "xor_bytes a b = map2 (XOR) a b"

lemma length_st64 [simp]: "length (st64 v) = 8"
  by (simp add: st64_def)

lemma length_st128 [simp]: "length (st128 b) = 16"
  by (simp add: st128_def)

lemma nth_st64: "i < 8 \<Longrightarrow> st64 v ! i = ucast (drop_bit (8 * i) v)"
  by (simp add: st64_def)

lemma bit_foldr_bytes:
  "length (p :: bytes) \<le> 8 \<Longrightarrow> bit (foldr (\<lambda>b v. ucast b OR push_bit 8 v) p 0 :: u64) n \<longleftrightarrow>
     n < 8 * length p \<and> bit (p ! (n div 8)) (n mod 8)"
proof (induction p arbitrary: n)
  case (Cons b p)
  show ?case
  proof (cases "n < 8")
    case True
    then show ?thesis by (simp add: bit_simps)
  next
    case False
    then obtain k where n: "n = k + 8" by (metis add.commute le_iff_add not_less)
    have "\<not> bit b n" using False bit_imp_le_length [of b n] by auto
    moreover have "(k + 8) div 8 = Suc (k div 8)" "(k + 8) mod 8 = k mod 8" by simp_all
    moreover have "k < 8 * length p \<Longrightarrow> k + 8 < 64" using Cons.prems by simp
    ultimately show ?thesis using Cons.IH [of k] Cons.prems unfolding n by (auto simp: bit_or_iff bit_unsigned_iff bit_push_bit_iff)
  qed
qed simp

lemma bit_ld64: "length p = 8 \<Longrightarrow> bit (ld64 p) n \<longleftrightarrow> n < 64 \<and> bit (p ! (n div 8)) (n mod 8)"
  by (simp add: ld64_def bit_foldr_bytes)

lemma ld64_append: "8 \<le> length p \<Longrightarrow> ld64 (p @ q) = ld64 p"
  by (simp add: ld64_def)

lemma ld64_take: "ld64 (take n p) = ld64 p" if "8 \<le> n"
  using that by (simp add: ld64_def min_def)

lemma ld64_st64 [simp]: "ld64 (st64 v) = v" "ld64 (st64 v @ q) = v"
proof -
  show "ld64 (st64 v) = v"
    by (rule bit_word_eqI) (simp add: bit_ld64 nth_st64 bit_simps)
  then show "ld64 (st64 v @ q) = v" by (simp add: ld64_append)
qed

lemma st64_ld64: "length p = 8 \<Longrightarrow> st64 (ld64 p) = p"
proof (rule nth_equalityI)
  fix i assume p: "length p = 8" and "i < length (st64 (ld64 p))"
  then have i: "i < 8" by simp
  show "st64 (ld64 p) ! i = p ! i"
  proof (rule bit_word_eqI)
    fix n assume "n < LENGTH(8)"
    then have n: "n < 8" by simp
    then have "(8 * i + n) div 8 = i" "(8 * i + n) mod 8 = n" by simp_all
    then show "bit (st64 (ld64 p) ! i) n = bit (p ! i) n" using i n by (simp add: nth_st64 bit_simps bit_ld64 [OF p])
  qed
qed simp

lemma ld128_st128 [simp]: "ld128 (st128 b) = b" "ld128 (st128 b @ q) = b"
  by (simp_all add: ld128_def st128_def)

lemma st128_ld128: "length p = 16 \<Longrightarrow> st128 (ld128 p) = p"
  using st64_ld64 [of "take 8 p"] st64_ld64 [of "drop 8 p"] by (simp add: ld128_def st128_def ld64_take)

lemma ld128_take: "16 \<le> n \<Longrightarrow> ld128 (take n p) = ld128 p"
  by (simp add: ld128_def ld64_take drop_take)

lemma length_xor_bytes [simp]: "length (xor_bytes a b) = min (length a) (length b)"
  by (simp add: xor_bytes_def)

lemma xor_bytes_append: "length a = length c \<Longrightarrow> xor_bytes (a @ b) (c @ d) = xor_bytes a c @ xor_bytes b d"
  by (simp add: xor_bytes_def zip_append)

lemma xor_bytes_take: "take n (xor_bytes a b) = xor_bytes (take n a) (take n b)"
  by (simp add: xor_bytes_def take_map take_zip)

lemma xor_bytes_twice: "length a \<le> length b \<Longrightarrow> xor_bytes (xor_bytes a b) b = a"
  by (auto simp: xor_bytes_def xor.assoc intro!: nth_equalityI)

lemma xor_bytes_comm: "xor_bytes a b = xor_bytes b a"
  by (rule nth_equalityI) (auto simp: xor_bytes_def xor.commute)

lemma xor_bytes_Nil [simp]: "xor_bytes [] b = []" "xor_bytes a [] = []"
  by (simp_all add: xor_bytes_def)

lemma st64_xor: "st64 (a XOR b) = xor_bytes (st64 a) (st64 b)"
  by (rule nth_equalityI) (simp_all add: xor_bytes_def nth_st64 unsigned_xor_eq)

lemma st128_xor: "st128 (xor2 a b) = xor_bytes (st128 a) (st128 b)"
  by (simp add: st128_def xor2_def st64_xor xor_bytes_append)

definition byte_mask :: "nat \<Rightarrow> u64" where
  "byte_mask k = push_bit k (mask 8)"

lemma bit_byte_mask: "bit (byte_mask k) n \<longleftrightarrow> k \<le> n \<and> n < k + 8 \<and> n < 64"
  by (auto simp: byte_mask_def bit_simps)

lemma bswap64_masks:
  "bswap64 v = drop_bit 56 (v AND byte_mask 56) OR drop_bit 40 (v AND byte_mask 48) OR drop_bit 24 (v AND byte_mask 40) OR
     drop_bit 8 (v AND byte_mask 32) OR push_bit 8 (v AND byte_mask 24) OR push_bit 24 (v AND byte_mask 16) OR
     push_bit 40 (v AND byte_mask 8) OR push_bit 56 (v AND byte_mask 0)"
  by (simp add: bswap64_def byte_mask_def mask_eq_exp_minus_1)

lemma bswap64_bytes: "st64 (bswap64 v) = rev (st64 v)"
proof (rule nth_equalityI)
  fix i assume "i < length (st64 (bswap64 v))"
  then have i: "i \<in> {0, 1, 2, 3, 4, 5, 6, 7}" by auto
  show "st64 (bswap64 v) ! i = rev (st64 v) ! i"
  proof (rule bit_word_eqI)
    fix n assume "n < LENGTH(8)"
    then have "n < 8" by simp
    then show "bit (st64 (bswap64 v) ! i) n = bit (rev (st64 v) ! i) n"
      using i unfolding insert_iff empty_iff
      by (elim disjE; simp add: rev_nth nth_st64 bswap64_masks bit_simps bit_byte_mask)
  qed
qed simp

section \<open>Big-endian counters\<close>

definition be_val :: "bytes \<Rightarrow> nat" where
  "be_val bs = foldl (\<lambda>v b. 256 * v + unat b) 0 bs"

fun be_bytes :: "nat \<Rightarrow> nat \<Rightarrow> bytes" where
  "be_bytes 0 n = []"
| "be_bytes (Suc k) n = be_bytes k (n div 256) @ [of_nat n]"

text \<open>The counter block whose last \<open>k\<close> bytes count.\<close>

definition ctr_next :: "nat \<Rightarrow> bytes \<Rightarrow> bytes" where
  "ctr_next k c = take (length c - k) c @ be_bytes k (be_val (drop (length c - k) c) + 1)"

lemma be_val_snoc [simp]: "be_val (bs @ [b]) = 256 * be_val bs + unat b" "be_val [] = 0"
  by (simp_all add: be_val_def)

lemma length_be_bytes [simp]: "length (be_bytes k n) = k"
  by (induction k arbitrary: n) simp_all

lemma unat_byte: "unat (x :: u8) < 256"
  using unsigned_less [of x, where ?'a = nat] by simp

lemma be_bytes_snoc: "be_bytes (Suc k) (256 * v + unat (x :: u8)) = be_bytes k v @ [x]"
proof -
  have "of_nat 256 = (0 :: u8)" by simp
  then have "of_nat (256 * v + unat x) = x" by (simp only: of_nat_add of_nat_mult) simp
  moreover have "(256 * v + unat x) div 256 = v" using unat_byte [of x] by simp
  ultimately show ?thesis by simp
qed

lemma be_bytes_val [simp]: "be_bytes (length bs) (be_val bs) = bs"
  by (induction bs rule: rev_induct) (use be_bytes_snoc in \<open>simp_all del: be_bytes.simps(2)\<close>)

lemma be_val_bytes: "be_val (be_bytes k n) = n mod 256 ^ k"
proof (induction k arbitrary: n)
  case (Suc k)
  have "256 * (n div 256 mod 256 ^ k) + n mod 256 = n mod (256 * 256 ^ k)" by (simp add: mod_mult2_eq)
  then show ?case by (simp add: Suc unat_of_nat)
qed simp

lemma length_ctr_next [simp]: "k \<le> length c \<Longrightarrow> length (ctr_next k c) = length c"
  by (simp add: ctr_next_def)

text \<open>
  Two byte loops of the drivers increment a counter in place: from byte \<open>i\<close> down, at most
  \<open>k\<close> bytes, as long as the byte wraps to zero.
\<close>

fun inc_loop :: "nat \<Rightarrow> nat \<Rightarrow> bytes \<Rightarrow> bytes" where
  "inc_loop 0 i c = c"
| "inc_loop (Suc k) i c =
     (let c' = c[i := c ! i + 1] in if c' ! i \<noteq> 0 then c' else inc_loop k (i - 1) c')"

lemma byte_carry: "(x :: u8) + 1 = 0 \<Longrightarrow> unat x = 255" "x + 1 \<noteq> 0 \<Longrightarrow> unat (x + 1) = unat x + 1"
proof -
  have u: "unat (x + 1) = (unat x + 1) mod 256" by (simp add: unat_word_ariths)
  show x: "unat x = 255" if "x + 1 = 0"
  proof (rule ccontr)
    assume "unat x \<noteq> 255"
    then have "unat x + 1 < 256" using unat_byte [of x] by simp
    then show False using u that by simp
  qed
  show "unat (x + 1) = unat x + 1" if "x + 1 \<noteq> 0"
  proof (cases "unat x + 1 < 256")
    case False
    then have "unat x + 1 = 256" using unat_byte [of x] by simp
    then show ?thesis using u that by (simp add: unat_eq_zero [symmetric] del: unat_eq_zero)
  qed (use u in simp)
qed

lemma inc_loop_eq:
  "inc_loop (length b) (length a + length b - 1) (a @ b @ d) = a @ be_bytes (length b) (be_val b + 1) @ d"
proof (induction b arbitrary: d rule: rev_induct)
  case (snoc x b)
  have l: "(a @ (b @ [x]) @ d)[length a + length (b @ [x]) - 1 := (a @ (b @ [x]) @ d) ! (length a + length (b @ [x]) - 1) + 1] =
      a @ b @ (x + 1) # d" by (simp add: nth_append list_update_append)
  show ?case
  proof (cases "x + 1 = 0")
    case False
    have e: "be_val (b @ [x]) + 1 = 256 * be_val b + unat (x + 1)" using byte_carry(2) [OF False] by simp
    show ?thesis unfolding e length_append_singleton be_bytes_snoc inc_loop.simps Let_def
      using l False by (simp add: nth_append)
  next
    case True
    have e: "be_val (b @ [x]) + 1 = 256 * (be_val b + 1) + unat (0 :: u8)" using byte_carry(1) [OF True] by simp
    show ?thesis unfolding e length_append_singleton be_bytes_snoc inc_loop.simps Let_def
      using l True snoc [of "0 # d"] by (simp add: nth_append)
  qed
qed simp

lemma be_bytes_map: "be_bytes k n = rev (map (\<lambda>i. of_nat (n div 256 ^ i)) [0..<k])"
proof (induction k arbitrary: n)
  case (Suc k)
  have "map (\<lambda>i. of_nat (n div 256 ^ i)) [0..<Suc k] = (of_nat n :: u8) # map (\<lambda>i. of_nat (n div 256 div 256 ^ i)) [0..<k]"
    by (simp add: map_upt_Suc div_mult2_eq del: upt_Suc)
  then show ?case using Suc by (simp del: upt_Suc)
qed simp

lemma st64_be: "st64 w = rev (be_bytes 8 (unat w))"
proof -
  have "ucast (drop_bit (8 * i) w) = (of_nat (unat w div 256 ^ i) :: u8)" for i
  proof -
    have "unat (drop_bit (8 * i) w) = unat w div 256 ^ i"
      by (subst unat_drop_bit_eq) (simp add: drop_bit_eq_div power_mult)
    moreover have "ucast (drop_bit (8 * i) w) = (of_nat (unat (drop_bit (8 * i) w)) :: u8)" by (simp only: of_nat_unat)
    ultimately show ?thesis by simp
  qed
  then show ?thesis unfolding st64_def be_bytes_map by simp
qed

lemma st64_bswap: "st64 (bswap64 w) = be_bytes 8 (unat w)"
  by (subst bswap64_bytes) (simp add: st64_be)

lemma bswap64_twice [simp]: "bswap64 (bswap64 v) = v"
  using ld64_st64(1) [of "bswap64 (bswap64 v)"] by (simp add: bswap64_bytes)

lemma be_val_st64: "be_val (st64 v) = unat (bswap64 v)"
proof -
  have "unat (bswap64 v) < 256 ^ 8" using unsigned_less [of "bswap64 v", where ?'a = nat] by simp
  then show ?thesis using be_val_bytes [of 8 "unat (bswap64 v)"] st64_bswap [of "bswap64 v"] by simp
qed

lemma be_val_append: "be_val (a @ b) = be_val a * 256 ^ length b + be_val b"
  by (induction b rule: rev_induct) (simp_all add: algebra_simps flip: append_assoc)

lemma be_bytes_append: "be_bytes (j + k) n = be_bytes j (n div 256 ^ k) @ be_bytes k n"
proof (induction k arbitrary: n)
  case (Suc k)
  then show ?case by (simp add: div_mult2_eq mult.commute)
qed simp

lemma be_bytes_mod: "be_bytes k (n mod 256 ^ k) = be_bytes k n"
  using be_bytes_val [of "be_bytes k n"] by (simp add: be_val_bytes)

section \<open>Registers\<close>

datatype creg =
    AES_CTRL | AES_KEY0 | AES_KEY1 | AES_IN0 | AES_IN1 | AES_OUT0 | AES_OUT1 | AES_CTR0 | AES_CTR1 | AES_MODE
  | GCM_CTRL | GCM_H0 | GCM_H1 | GCM_X0 | GCM_X1 | GCM_TAG0 | GCM_TAG1
  | SHA_CTRL | SHA_BLOCK nat | SHA_DIGEST nat | SHA_HIN nat
  | HMAC_CTRL | HMAC_KEY nat

text \<open>The busy-wait loops of the drivers, by what they poll for.\<close>

datatype cwait = AES_WAIT | AES_WAIT_OUT | GCM_WAIT | SHA_WAIT | SHA_WAIT_IDLE | HMAC_WAIT

text \<open>
  The hardware: register writes and reads, the state after a busy-wait loop, and the two
  capability words, which do not change under a running program.
\<close>

record 'w cio =
  wr :: "creg \<Rightarrow> u64 \<Rightarrow> 'w \<Rightarrow> 'w"
  rd :: "creg \<Rightarrow> 'w \<Rightarrow> u64"
  spin :: "cwait \<Rightarrow> 'w \<Rightarrow> 'w"
  aes_cap :: u64
  sha_cap :: u64

definition AES_CTRL_GO :: u64 where "AES_CTRL_GO = 1"
definition AES_CTRL_ENC :: u64 where "AES_CTRL_ENC = 2"
definition AES_CTRL_KEY_LOAD :: u64 where "AES_CTRL_KEY_LOAD = 4"
definition AES_MODE_CTR :: u64 where "AES_MODE_CTR = 1"
definition AES_MODE_INC32 :: u64 where "AES_MODE_INC32 = 8"
definition AES_CAP_CTR :: u64 where "AES_CAP_CTR = 1"
definition AES_CAP_INC32 :: u64 where "AES_CAP_INC32 = 2"
definition GCM_CTRL_GO :: u64 where "GCM_CTRL_GO = 1"
definition GCM_CTRL_RESET :: u64 where "GCM_CTRL_RESET = 2"
definition SHA_CTRL_INIT :: u64 where "SHA_CTRL_INIT = 1"
definition SHA_CTRL_START :: u64 where "SHA_CTRL_START = 2"
definition SHA_CTRL_RESTORE :: u64 where "SHA_CTRL_RESTORE = 4"
definition SHA_CAP_RESTORE :: u64 where "SHA_CAP_RESTORE = 1"
definition HMAC_CTRL_KEY_LOAD :: u64 where "HMAC_CTRL_KEY_LOAD = 1"
definition HMAC_CTRL_START :: u64 where "HMAC_CTRL_START = 2"
definition HMAC_CTRL_FINAL :: u64 where "HMAC_CTRL_FINAL = 4"

lemmas aes_regs = AES_CTRL_GO_def AES_CTRL_ENC_def AES_CTRL_KEY_LOAD_def AES_MODE_CTR_def AES_MODE_INC32_def
  GCM_CTRL_GO_def GCM_CTRL_RESET_def
lemmas sha_regs = SHA_CTRL_INIT_def SHA_CTRL_START_def SHA_CTRL_RESTORE_def HMAC_CTRL_KEY_LOAD_def HMAC_CTRL_START_def
  HMAC_CTRL_FINAL_def

definition sha256_iv :: bytes where
  "sha256_iv = [0x6a, 0x09, 0xe6, 0x67, 0xbb, 0x67, 0xae, 0x85, 0x3c, 0x6e, 0xf3, 0x72, 0xa5, 0x4f, 0xf5, 0x3a,
     0x51, 0x0e, 0x52, 0x7f, 0x9b, 0x05, 0x68, 0x8c, 0x1f, 0x83, 0xd9, 0xab, 0x5b, 0xe0, 0xcd, 0x19]"

definition words :: "nat \<Rightarrow> bytes \<Rightarrow> u64 list" where
  "words n p = map (\<lambda>i. ld64 (drop (8 * i) p)) [0..<n]"

section \<open>What the hardware promises\<close>

text \<open>
  The primitives the blocks compute (an AES block encryption and decryption under a key, the
  SHA-256 compression of a block onto a state, the GHASH multiplication) and the visible
  state of the blocks.  A block is busy from its start until it is waited for; the register
  comments promise nothing for an access to a busy block, and neither do the functions
  below: they are undefined there.
\<close>

record prims =
  p_enc :: "blk \<Rightarrow> blk \<Rightarrow> blk"
  p_dec :: "blk \<Rightarrow> blk \<Rightarrow> blk"
  p_cmp :: "u64 list \<Rightarrow> u64 list \<Rightarrow> u64 list"
  p_mul :: "blk \<Rightarrow> blk \<Rightarrow> blk"

record aes_state =
  a_keyreg :: blk
  a_key :: blk
  a_in :: blk
  a_out :: blk
  a_ctr :: blk
  a_mode :: u64
  a_busy :: bool

record gcm_state =
  g_h :: blk
  g_x :: blk
  g_tag :: blk
  g_busy :: bool

datatype sha_phase = ShaIdle | ShaDone | ShaRunning | ShaRestoring

record sha_state =
  h_state :: "u64 list"
  h_block :: "u64 list"
  h_in :: "u64 list"
  h_phase :: sha_phase
  h_key :: "u64 list"
  h_inner :: "u64 list"
  h_outer :: "u64 list"
  h_keybusy :: bool

record dev =
  d_aes :: aes_state
  d_gcm :: gcm_state
  d_sha :: sha_state

text \<open>
  AES: \<^verbatim>\<open>GO\<close> runs a raw block on \<^verbatim>\<open>AES_IN\<close>; in counter mode the write to \<^verbatim>\<open>AES_IN1\<close> runs one
  block, \<^verbatim>\<open>OUT = E_K(CTR) XOR IN\<close>, and increments the big-endian counter, all of it or with
  \<^verbatim>\<open>INC32\<close> its last four bytes.
\<close>

definition ctr_width :: "u64 \<Rightarrow> nat" where
  "ctr_width m = (if m AND AES_MODE_INC32 \<noteq> 0 then 4 else 16)"

definition aes_run :: "prims \<Rightarrow> aes_state \<Rightarrow> aes_state" where
  "aes_run P a = a\<lparr>a_out := xor2 (p_enc P (a_key a) (a_ctr a)) (a_in a),
     a_ctr := ld128 (ctr_next (ctr_width (a_mode a)) (st128 (a_ctr a))), a_busy := True\<rparr>"

fun aes_wr :: "prims \<Rightarrow> creg \<Rightarrow> u64 \<Rightarrow> aes_state \<Rightarrow> aes_state option" where
  "aes_wr P r v a =
     (if a_busy a then None
      else case r of
        AES_KEY0 \<Rightarrow> Some (a\<lparr>a_keyreg := (v, snd (a_keyreg a))\<rparr>)
      | AES_KEY1 \<Rightarrow> Some (a\<lparr>a_keyreg := (fst (a_keyreg a), v)\<rparr>)
      | AES_IN0 \<Rightarrow> Some (a\<lparr>a_in := (v, snd (a_in a))\<rparr>)
      | AES_IN1 \<Rightarrow>
          (let b = a\<lparr>a_in := (fst (a_in a), v)\<rparr> in Some (if a_mode a AND AES_MODE_CTR \<noteq> 0 then aes_run P b else b))
      | AES_CTR0 \<Rightarrow> Some (a\<lparr>a_ctr := (v, snd (a_ctr a))\<rparr>)
      | AES_CTR1 \<Rightarrow> Some (a\<lparr>a_ctr := (fst (a_ctr a), v)\<rparr>)
      | AES_MODE \<Rightarrow> Some (a\<lparr>a_mode := v\<rparr>)
      | AES_CTRL \<Rightarrow>
          (if v = AES_CTRL_KEY_LOAD then Some (a\<lparr>a_key := a_keyreg a, a_busy := True\<rparr>)
           else if v = AES_CTRL_GO OR AES_CTRL_ENC then Some (a\<lparr>a_out := p_enc P (a_key a) (a_in a), a_busy := True\<rparr>)
           else if v = AES_CTRL_GO then Some (a\<lparr>a_out := p_dec P (a_key a) (a_in a), a_busy := True\<rparr>)
           else None)
      | _ \<Rightarrow> None)"

fun aes_spin :: "cwait \<Rightarrow> aes_state \<Rightarrow> aes_state option" where
  "aes_spin AES_WAIT a = Some (a\<lparr>a_busy := False\<rparr>)"
| "aes_spin AES_WAIT_OUT a = (if a_busy a then Some (a\<lparr>a_busy := False\<rparr>) else None)"
| "aes_spin _ a = None"

fun aes_rd :: "creg \<Rightarrow> aes_state \<Rightarrow> u64 option" where
  "aes_rd r a =
     (if a_busy a then None
      else case r of AES_OUT0 \<Rightarrow> Some (fst (a_out a)) | AES_OUT1 \<Rightarrow> Some (snd (a_out a))
        | AES_CTR0 \<Rightarrow> Some (fst (a_ctr a)) | AES_CTR1 \<Rightarrow> Some (snd (a_ctr a)) | _ \<Rightarrow> None)"

text \<open>GHASH: \<^verbatim>\<open>GO\<close> is \<^verbatim>\<open>tag = (tag XOR X) * H\<close>, \<^verbatim>\<open>RESET\<close> clears the tag.\<close>

fun gcm_wr :: "prims \<Rightarrow> creg \<Rightarrow> u64 \<Rightarrow> gcm_state \<Rightarrow> gcm_state option" where
  "gcm_wr P r v g =
     (if g_busy g then None
      else case r of
        GCM_H0 \<Rightarrow> Some (g\<lparr>g_h := (v, snd (g_h g))\<rparr>)
      | GCM_H1 \<Rightarrow> Some (g\<lparr>g_h := (fst (g_h g), v)\<rparr>)
      | GCM_X0 \<Rightarrow> Some (g\<lparr>g_x := (v, snd (g_x g))\<rparr>)
      | GCM_X1 \<Rightarrow> Some (g\<lparr>g_x := (fst (g_x g), v)\<rparr>)
      | GCM_CTRL \<Rightarrow>
          (if v = GCM_CTRL_GO then Some (g\<lparr>g_tag := p_mul P (xor2 (g_tag g) (g_x g)) (g_h g), g_busy := True\<rparr>)
           else if v = GCM_CTRL_RESET then Some (g\<lparr>g_tag := (0, 0)\<rparr>)
           else None)
      | _ \<Rightarrow> None)"

fun gcm_spin :: "cwait \<Rightarrow> gcm_state \<Rightarrow> gcm_state option" where
  "gcm_spin GCM_WAIT g = Some (g\<lparr>g_busy := False\<rparr>)"
| "gcm_spin _ g = None"

fun gcm_rd :: "creg \<Rightarrow> gcm_state \<Rightarrow> u64 option" where
  "gcm_rd r g =
     (if g_busy g then None
      else case r of GCM_TAG0 \<Rightarrow> Some (fst (g_tag g)) | GCM_TAG1 \<Rightarrow> Some (snd (g_tag g)) | _ \<Rightarrow> None)"

text \<open>
  SHA-256: one compression per \<^verbatim>\<open>START\<close>; \<^verbatim>\<open>INIT\<close> loads the initial state at once and never
  raises \<^verbatim>\<open>DONE\<close>, so a wait for \<^verbatim>\<open>DONE\<close> after it is not known to end; after \<^verbatim>\<open>RESTORE\<close> it is
  \<^verbatim>\<open>BUSY\<close> that has to be polled.  HMAC: \<^verbatim>\<open>KEY_LOAD\<close> computes the two midstates of the 32-byte
  key, \<^verbatim>\<open>START\<close> and \<^verbatim>\<open>FINAL\<close> load them.
\<close>

definition pad_key :: "u8 \<Rightarrow> bytes \<Rightarrow> bytes" where
  "pad_key c k = map (\<lambda>b. b XOR c) (k @ replicate (64 - length k) 0)"

definition midstate :: "prims \<Rightarrow> u8 \<Rightarrow> bytes \<Rightarrow> u64 list" where
  "midstate P c k = p_cmp P (words 4 sha256_iv) (words 8 (pad_key c k))"

fun sha_wr :: "prims \<Rightarrow> creg \<Rightarrow> u64 \<Rightarrow> sha_state \<Rightarrow> sha_state option" where
  "sha_wr P r v h =
     (if h_phase h = ShaRunning \<or> h_phase h = ShaRestoring \<or> h_keybusy h then None
      else case r of
        SHA_BLOCK i \<Rightarrow> Some (h\<lparr>h_block := (h_block h)[i := v]\<rparr>)
      | SHA_HIN i \<Rightarrow> Some (h\<lparr>h_in := (h_in h)[i := v]\<rparr>)
      | HMAC_KEY i \<Rightarrow> Some (h\<lparr>h_key := (h_key h)[i := v]\<rparr>)
      | SHA_CTRL \<Rightarrow>
          (if v = SHA_CTRL_INIT then Some (h\<lparr>h_state := words 4 sha256_iv, h_phase := ShaIdle\<rparr>)
           else if v = SHA_CTRL_START then Some (h\<lparr>h_state := p_cmp P (h_state h) (h_block h), h_phase := ShaRunning\<rparr>)
           else if v = SHA_CTRL_RESTORE OR SHA_CTRL_START then
             Some (h\<lparr>h_state := p_cmp P (h_in h) (h_block h), h_phase := ShaRestoring\<rparr>)
           else None)
      | HMAC_CTRL \<Rightarrow>
          (if v = HMAC_CTRL_KEY_LOAD then
             Some (h\<lparr>h_inner := midstate P 0x36 (concat (map st64 (h_key h))),
                h_outer := midstate P 0x5C (concat (map st64 (h_key h))), h_keybusy := True\<rparr>)
           else if v = HMAC_CTRL_START then Some (h\<lparr>h_state := h_inner h, h_phase := ShaIdle\<rparr>)
           else if v = HMAC_CTRL_FINAL then Some (h\<lparr>h_state := h_outer h, h_phase := ShaIdle\<rparr>)
           else None)
      | _ \<Rightarrow> None)"

fun sha_spin :: "cwait \<Rightarrow> sha_state \<Rightarrow> sha_state option" where
  "sha_spin SHA_WAIT h =
     (if h_phase h = ShaRunning \<or> h_phase h = ShaDone then Some (h\<lparr>h_phase := ShaDone\<rparr>) else None)"
| "sha_spin SHA_WAIT_IDLE h =
     Some (h\<lparr>h_phase := (if h_phase h = ShaIdle then ShaIdle else ShaDone)\<rparr>)"
| "sha_spin HMAC_WAIT h = Some (h\<lparr>h_keybusy := False\<rparr>)"
| "sha_spin _ h = None"

fun sha_rd :: "creg \<Rightarrow> sha_state \<Rightarrow> u64 option" where
  "sha_rd r h =
     (if h_phase h = ShaRunning \<or> h_phase h = ShaRestoring \<or> h_keybusy h then None
      else case r of SHA_DIGEST i \<Rightarrow> Some (h_state h ! i) | _ \<Rightarrow> None)"

text \<open>The hardware does what is promised: \<open>view\<close> reads the visible state off the world.\<close>

definition aes_ok :: "prims \<Rightarrow> 'w cio \<Rightarrow> ('w \<Rightarrow> dev) \<Rightarrow> bool" where
  "aes_ok P io view \<longleftrightarrow>
     (\<forall>w r v a. aes_wr P r v (d_aes (view w)) = Some a \<longrightarrow> view (wr io r v w) = (view w)\<lparr>d_aes := a\<rparr>) \<and>
     (\<forall>w k a. aes_spin k (d_aes (view w)) = Some a \<longrightarrow> view (spin io k w) = (view w)\<lparr>d_aes := a\<rparr>) \<and>
     (\<forall>w r x. aes_rd r (d_aes (view w)) = Some x \<longrightarrow> rd io r w = x)"

definition gcm_ok :: "prims \<Rightarrow> 'w cio \<Rightarrow> ('w \<Rightarrow> dev) \<Rightarrow> bool" where
  "gcm_ok P io view \<longleftrightarrow>
     (\<forall>w r v g. gcm_wr P r v (d_gcm (view w)) = Some g \<longrightarrow> view (wr io r v w) = (view w)\<lparr>d_gcm := g\<rparr>) \<and>
     (\<forall>w k g. gcm_spin k (d_gcm (view w)) = Some g \<longrightarrow> view (spin io k w) = (view w)\<lparr>d_gcm := g\<rparr>) \<and>
     (\<forall>w r x. gcm_rd r (d_gcm (view w)) = Some x \<longrightarrow> rd io r w = x)"

definition sha_ok :: "prims \<Rightarrow> 'w cio \<Rightarrow> ('w \<Rightarrow> dev) \<Rightarrow> bool" where
  "sha_ok P io view \<longleftrightarrow>
     (\<forall>w r v h. sha_wr P r v (d_sha (view w)) = Some h \<longrightarrow> view (wr io r v w) = (view w)\<lparr>d_sha := h\<rparr>) \<and>
     (\<forall>w k h. sha_spin k (d_sha (view w)) = Some h \<longrightarrow> view (spin io k w) = (view w)\<lparr>d_sha := h\<rparr>) \<and>
     (\<forall>w r x. sha_rd r (d_sha (view w)) = Some x \<longrightarrow> rd io r w = x) \<and>
     (\<forall>h b. length (p_cmp P h b) = 4)"

section \<open>A software device\<close>

text \<open>A device that does what is promised and ignores every other access, with simple primitives.\<close>

definition soft_prims :: prims where
  "soft_prims = \<lparr>p_enc = (\<lambda>k b. (snd b + fst k, fst b + snd k)), p_dec = (\<lambda>k b. (snd b - snd k, fst b - fst k)),
     p_cmp = (\<lambda>h b. map (\<lambda>i. h ! i + b ! i + 3 * b ! (i + 4)) [0..<4]), p_mul = (\<lambda>x h. (fst x * 3 + snd h, snd x * 5 + fst h))\<rparr>"

definition soft_io :: "dev cio" where
  "soft_io = \<lparr>
     wr = (\<lambda>r v d. case aes_wr soft_prims r v (d_aes d) of Some a \<Rightarrow> d\<lparr>d_aes := a\<rparr>
        | None \<Rightarrow> (case gcm_wr soft_prims r v (d_gcm d) of Some g \<Rightarrow> d\<lparr>d_gcm := g\<rparr>
        | None \<Rightarrow> (case sha_wr soft_prims r v (d_sha d) of Some h \<Rightarrow> d\<lparr>d_sha := h\<rparr> | None \<Rightarrow> d))),
     rd = (\<lambda>r d. case aes_rd r (d_aes d) of Some x \<Rightarrow> x
        | None \<Rightarrow> (case gcm_rd r (d_gcm d) of Some x \<Rightarrow> x
        | None \<Rightarrow> (case sha_rd r (d_sha d) of Some x \<Rightarrow> x | None \<Rightarrow> 0))),
     spin = (\<lambda>k d. case aes_spin k (d_aes d) of Some a \<Rightarrow> d\<lparr>d_aes := a\<rparr>
        | None \<Rightarrow> (case gcm_spin k (d_gcm d) of Some g \<Rightarrow> d\<lparr>d_gcm := g\<rparr>
        | None \<Rightarrow> (case sha_spin k (d_sha d) of Some h \<Rightarrow> d\<lparr>d_sha := h\<rparr> | None \<Rightarrow> d))),
     aes_cap = 3, sha_cap = 1\<rparr>"

definition soft_dev :: dev where
  "soft_dev = \<lparr>d_aes = \<lparr>a_keyreg = (0, 0), a_key = (0, 0), a_in = (0, 0), a_out = (0, 0), a_ctr = (0, 0), a_mode = 0, a_busy = False\<rparr>,
     d_gcm = \<lparr>g_h = (0, 0), g_x = (0, 0), g_tag = (0, 0), g_busy = False\<rparr>,
     d_sha = \<lparr>h_state = replicate 4 0, h_block = replicate 8 0, h_in = replicate 4 0, h_phase = ShaIdle, h_key = replicate 4 0,
       h_inner = replicate 4 0, h_outer = replicate 4 0, h_keybusy = False\<rparr>\<rparr>"

lemma soft_ok: "aes_ok soft_prims soft_io id" "gcm_ok soft_prims soft_io id" "sha_ok soft_prims soft_io id"
proof -
  show "aes_ok soft_prims soft_io id" by (auto simp: aes_ok_def soft_io_def simp del: aes_wr.simps aes_rd.simps)
  have w: "gcm_wr P r v g = Some x \<Longrightarrow> aes_wr P r v a = None" "gcm_rd r g = Some y \<Longrightarrow> aes_rd r a = None"
    "gcm_spin k g = Some x \<Longrightarrow> aes_spin k a = None"
    "sha_wr P r v h = Some z \<Longrightarrow> aes_wr P r v a = None \<and> gcm_wr P r v g = None" "sha_rd r h = Some y \<Longrightarrow> aes_rd r a = None \<and> gcm_rd r g = None"
    "sha_spin k h = Some z \<Longrightarrow> aes_spin k a = None \<and> gcm_spin k g = None" for P r v g x a y k h z
    by (cases r; simp split: if_splits) (cases r; simp split: if_splits | cases k; simp)+
  show "gcm_ok soft_prims soft_io id"
    by (auto simp: gcm_ok_def soft_io_def w simp del: gcm_wr.simps aes_wr.simps gcm_rd.simps aes_rd.simps)
  show "sha_ok soft_prims soft_io id"
    unfolding sha_ok_def soft_io_def using w(4-6)
    by (auto simp: soft_prims_def simp del: sha_wr.simps gcm_wr.simps aes_wr.simps sha_rd.simps gcm_rd.simps aes_rd.simps)
qed

end
