(* ===== verification/Sha_Driver.thy ===== *)
theory Sha_Driver
  imports Crypto_Unit
begin

unbundle bit_operations_syntax

text \<open>
  The SHA-256 and HMAC part of the crypto driver \<^verbatim>\<open>src/crypto_hw.c\<close>: one-shot, streaming and
  save/restore hashing, and the three HMAC routines, over the register interface of
  Crypto_Unit.  They are compared with the padded iteration of the compression function and
  with the textbook HMAC.
\<close>

section \<open>Blocks\<close>

definition sha_write_block :: "'w cio \<Rightarrow> bytes \<Rightarrow> 'w \<Rightarrow> 'w" where
  "sha_write_block io data w = fold (\<lambda>i. wr io (SHA_BLOCK i) (ld64 (drop (8 * i) data))) [0..<8] w"

definition sha_read_digest :: "'w cio \<Rightarrow> 'w \<Rightarrow> bytes" where
  "sha_read_digest io w = concat (map (\<lambda>i. st64 (rd io (SHA_DIGEST i) w)) [0..<4])"

text \<open>Write a block, start, wait: the sequence every full block goes through.\<close>

definition sha_do_block :: "'w cio \<Rightarrow> bytes \<Rightarrow> 'w \<Rightarrow> 'w" where
  "sha_do_block io data w = spin io SHA_WAIT (wr io SHA_CTRL SHA_CTRL_START (sha_write_block io data w))"

fun sha_process_full_blocks :: "'w cio \<Rightarrow> bytes \<Rightarrow> nat \<Rightarrow> 'w \<Rightarrow> 'w" where
  "sha_process_full_blocks io data 0 w = w"
| "sha_process_full_blocks io data (Suc n) w = sha_process_full_blocks io (drop 64 data) n (sha_do_block io data w)"

section \<open>One-shot hashing\<close>

definition pad_start :: "bytes \<Rightarrow> bytes" where
  "pad_start partial = (partial @ drop (length partial) (replicate 128 0))[length partial := 0x80]"

definition padblocks :: "bytes \<Rightarrow> nat" where
  "padblocks partial = (if length partial < 56 then 1 else 2)"

definition sha_finalize :: "'w cio \<Rightarrow> bytes \<Rightarrow> u64 \<Rightarrow> 'w \<Rightarrow> bytes \<times> 'w" where
  "sha_finalize io partial total_bits w =
     (let lpos = padblocks partial * 64 - 8;
          pad = fold (\<lambda>i p. p[lpos + i := ucast (drop_bit (56 - 8 * i) total_bits)]) [0..<8] (pad_start partial);
          w1 = (if padblocks partial = 2 then sha_do_block io pad w else w);
          w2 = sha_do_block io (drop ((padblocks partial - 1) * 64) pad) w1
      in (sha_read_digest io w2, w2))"

text \<open>The loop over the full blocks of a message: what is left of it, and the state after it.\<close>

function sha_full_loop :: "'w cio \<Rightarrow> bytes \<Rightarrow> 'w \<Rightarrow> bytes \<times> 'w" where
  "sha_full_loop io msg w =
     (if 64 \<le> length msg then sha_full_loop io (drop 64 msg) (sha_do_block io msg w) else (msg, w))"
  by auto
termination by (relation "measure (\<lambda>(io, msg, w). length msg)") auto

definition sha256_hw :: "'w cio \<Rightarrow> bytes \<Rightarrow> 'w \<Rightarrow> bytes \<times> 'w" where
  "sha256_hw io msg w =
     (let (rest, w1) = sha_full_loop io msg (wr io SHA_CTRL SHA_CTRL_INIT w)
      in sha_finalize io rest (of_nat (length msg) * 8) w1)"

section \<open>Streaming\<close>

record sha256_ctx =
  total_bytes :: u64
  ctx_buf :: bytes
  buf_len :: u32
  initialized :: int

definition sha256_hw_init :: "'w cio \<Rightarrow> sha256_ctx \<Rightarrow> 'w \<Rightarrow> sha256_ctx \<times> 'w" where
  "sha256_hw_init io ctx w = (ctx\<lparr>total_bytes := 0, buf_len := 0, initialized := 1\<rparr>, wr io SHA_CTRL SHA_CTRL_INIT w)"

text \<open>\<^verbatim>\<open>memcpy (buf + off, src, n)\<close> for \<open>n\<close> the length of \<open>src\<close>.\<close>

definition put_bytes :: "nat \<Rightarrow> bytes \<Rightarrow> bytes \<Rightarrow> bytes" where
  "put_bytes off src buf = take off buf @ src @ drop (off + length src) buf"

text \<open>Filling the partial block first; the block is hashed when it is full.\<close>

definition sha_fill :: "'w cio \<Rightarrow> sha256_ctx \<Rightarrow> bytes \<Rightarrow> 'w \<Rightarrow> sha256_ctx \<times> bytes \<times> 'w" where
  "sha_fill io ctx data w =
     (if buf_len ctx > 0 then
        let take_n = min (length data) (64 - unat (buf_len ctx));
            ctx1 = ctx\<lparr>ctx_buf := put_bytes (unat (buf_len ctx)) (take take_n data) (ctx_buf ctx),
                       buf_len := buf_len ctx + of_nat take_n\<rparr>
        in if buf_len ctx1 = 64 then (ctx1\<lparr>buf_len := 0\<rparr>, drop take_n data, sha_do_block io (ctx_buf ctx1) w)
           else (ctx1, drop take_n data, w)
      else (ctx, data, w))"

definition sha256_hw_update :: "'w cio \<Rightarrow> sha256_ctx \<Rightarrow> bytes \<Rightarrow> 'w \<Rightarrow> sha256_ctx \<times> 'w" where
  "sha256_hw_update io ctx data w =
     (let ctx0 = ctx\<lparr>total_bytes := total_bytes ctx + of_nat (length data)\<rparr>;
          (ctx1, data1, w1) = sha_fill io ctx0 data w;
          (rest, w2) = sha_full_loop io data1 w1
      in if rest \<noteq> [] then (ctx1\<lparr>ctx_buf := put_bytes 0 rest (ctx_buf ctx1), buf_len := of_nat (length rest)\<rparr>, w2)
         else (ctx1, w2))"

definition sha256_hw_final :: "'w cio \<Rightarrow> sha256_ctx \<Rightarrow> 'w \<Rightarrow> bytes \<times> sha256_ctx \<times> 'w" where
  "sha256_hw_final io ctx w =
     (case sha_finalize io (take (unat (buf_len ctx)) (ctx_buf ctx)) (total_bytes ctx * 8) w of
        (out, w1) \<Rightarrow> (out, ctx\<lparr>initialized := 0\<rparr>, w1))"

section \<open>Save and restore\<close>

record rctx =
  rh :: "u64 list"
  rtotal :: u64
  rbuf :: bytes
  rbuf_len :: u32

text \<open>The blocks of one call: \<open>first\<close> marks the one that goes with the restore.\<close>

fun sha_r_loop :: "'w cio \<Rightarrow> bool \<Rightarrow> bytes \<Rightarrow> nat \<Rightarrow> 'w \<Rightarrow> 'w" where
  "sha_r_loop io first data 0 w = w"
| "sha_r_loop io first data (Suc n) w =
     sha_r_loop io False (drop 64 data) n
       (spin io SHA_WAIT (spin io SHA_WAIT_IDLE
          (wr io SHA_CTRL (if first then SHA_CTRL_RESTORE OR SHA_CTRL_START else SHA_CTRL_START) (sha_write_block io data w))))"

definition sha_r_blocks :: "'w cio \<Rightarrow> u64 list \<Rightarrow> bytes \<Rightarrow> nat \<Rightarrow> 'w \<Rightarrow> u64 list \<times> 'w" where
  "sha_r_blocks io h data n w =
     (if n = 0 then (h, w)
      else let w1 = fold (\<lambda>i. wr io (SHA_HIN i) (h ! i)) [0..<4] (spin io SHA_WAIT_IDLE w);
               w2 = sha_r_loop io True data n w1
           in (map (\<lambda>i. rd io (SHA_DIGEST i) w2) [0..<4], w2))"

definition sha256_hw_rinit :: "rctx \<Rightarrow> rctx" where
  "sha256_hw_rinit ctx = ctx\<lparr>rh := words 4 sha256_iv, rtotal := 0, rbuf_len := 0\<rparr>"

definition sha256_hw_rinit_from :: "rctx \<Rightarrow> u64 list \<Rightarrow> u64 \<Rightarrow> rctx" where
  "sha256_hw_rinit_from ctx h prefix_bytes = ctx\<lparr>rh := h, rtotal := prefix_bytes, rbuf_len := 0\<rparr>"

definition sha_r_tail :: "'w cio \<Rightarrow> rctx \<Rightarrow> bytes \<Rightarrow> 'w \<Rightarrow> rctx \<times> 'w" where
  "sha_r_tail io ctx data w =
     (let n = length data div 64;
          (h, w1) = sha_r_blocks io (rh ctx) data n w;
          rest = drop (n * 64) data
      in if rest \<noteq> [] then (ctx\<lparr>rh := h, rbuf := put_bytes 0 rest (rbuf ctx), rbuf_len := of_nat (length rest)\<rparr>, w1)
         else (ctx\<lparr>rh := h\<rparr>, w1))"

definition sha256_hw_rupdate :: "'w cio \<Rightarrow> rctx \<Rightarrow> bytes \<Rightarrow> 'w \<Rightarrow> rctx \<times> 'w" where
  "sha256_hw_rupdate io ctx0 data w =
     (let ctx = ctx0\<lparr>rtotal := rtotal ctx0 + of_nat (length data)\<rparr>
      in if rbuf_len ctx > 0 then
           let take_n = min (64 - unat (rbuf_len ctx)) (length data);
               ctx1 = ctx\<lparr>rbuf := put_bytes (unat (rbuf_len ctx)) (take take_n data) (rbuf ctx),
                          rbuf_len := rbuf_len ctx + of_nat take_n\<rparr>
           in if rbuf_len ctx1 < 64 then (ctx1, w)
              else let (h, w1) = sha_r_blocks io (rh ctx1) (rbuf ctx1) 1 w
                   in sha_r_tail io (ctx1\<lparr>rh := h, rbuf_len := 0\<rparr>) (drop take_n data) w1
         else sha_r_tail io ctx data w)"

definition sha256_hw_rfinal :: "'w cio \<Rightarrow> rctx \<Rightarrow> 'w \<Rightarrow> bytes \<times> rctx \<times> 'w" where
  "sha256_hw_rfinal io ctx w =
     (let partial = take (unat (rbuf_len ctx)) (rbuf ctx);
          bits = rtotal ctx * 8;
          pad = fold (\<lambda>i p. p[padblocks partial * 64 - 1 - i := ucast (drop_bit (8 * i) bits)]) [0..<8] (pad_start partial);
          (h, w1) = sha_r_blocks io (rh ctx) pad (padblocks partial) w
      in (concat (map st64 h), ctx\<lparr>rh := h, rbuf_len := 0\<rparr>, w1))"

section \<open>HMAC\<close>

definition zero_ctx :: sha256_ctx where
  "zero_ctx = \<lparr>total_bytes = 0, ctx_buf = replicate 64 0, buf_len = 0, initialized = 0\<rparr>"

definition zero_rctx :: rctx where
  "zero_rctx = \<lparr>rh = replicate 4 0, rtotal = 0, rbuf = replicate 64 0, rbuf_len = 0\<rparr>"

record hmac_key =
  ih :: "u64 list"
  oh :: "u64 list"

text \<open>
  A local context is filled by the initialising call before anything is read; its other
  bytes do not matter and are zero here.
\<close>

definition hmac_sha256_hw_rkey :: "'w cio \<Rightarrow> bytes \<Rightarrow> 'w \<Rightarrow> hmac_key \<times> 'w" where
  "hmac_sha256_hw_rkey io key w =
     (let (k0, w1) =
            (if length key > 64 then
               let c0 = sha256_hw_rinit zero_rctx;
                   (c1, u1) = sha256_hw_rupdate io c0 key w;
                   (out, c2, u2) = sha256_hw_rfinal io c1 u1
               in (put_bytes 0 out (replicate 64 0), u2)
             else (put_bytes 0 key (replicate 64 0), w));
          (hi, w2) = sha_r_blocks io (rh (sha256_hw_rinit zero_rctx)) (map (\<lambda>b. b XOR 0x36) k0) 1 w1;
          (ho, w3) = sha_r_blocks io (rh (sha256_hw_rinit zero_rctx)) (map (\<lambda>b. b XOR 0x5C) k0) 1 w2
      in (\<lparr>ih = hi, oh = ho\<rparr>, w3))"

definition hmac_sha256_hw_rmac :: "'w cio \<Rightarrow> hmac_key \<Rightarrow> bytes \<Rightarrow> 'w \<Rightarrow> bytes \<times> 'w" where
  "hmac_sha256_hw_rmac io k msg w =
     (let (c1, w1) = sha256_hw_rupdate io (sha256_hw_rinit_from zero_rctx (ih k) 64) msg w;
          (inner, c2, w2) = sha256_hw_rfinal io c1 w1;
          (c3, w3) = sha256_hw_rupdate io (sha256_hw_rinit_from c2 (oh k) 64) inner w2;
          (out, c4, w4) = sha256_hw_rfinal io c3 w3
      in (out, w4))"

definition hmac_sha256_hw :: "'w cio \<Rightarrow> bytes \<Rightarrow> bytes \<Rightarrow> 'w \<Rightarrow> bytes \<times> 'w" where
  "hmac_sha256_hw io key msg w =
     (let key_buf = put_bytes 0 (take 32 key) (replicate 32 0);
          w1 = fold (\<lambda>i. wr io (HMAC_KEY i) (ld64 (drop (8 * i) key_buf))) [0..<4] w;
          w2 = spin io HMAC_WAIT (wr io HMAC_CTRL HMAC_CTRL_KEY_LOAD w1);
          w3 = spin io HMAC_WAIT (wr io HMAC_CTRL HMAC_CTRL_START w2);
          (rest, w4) = sha_full_loop io msg w3;
          inner_bits = 512 + of_nat (length msg) * 8 :: u64;
          lpos = padblocks rest * 64 - 8;
          fin = fold (\<lambda>i p. p[lpos + 7 - i := ucast (drop_bit (i * 8) inner_bits)]) [0..<8] (pad_start rest);
          w5 = sha_process_full_blocks io fin (padblocks rest) w4;
          inner = sha_read_digest io w5;
          w6 = spin io HMAC_WAIT (wr io HMAC_CTRL HMAC_CTRL_FINAL w5);
          ob = fold (\<lambda>i p. p[63 - i := ucast (drop_bit (i * 8) (768 :: u64))]) [0..<8]
                 ((put_bytes 0 inner (replicate 64 0))[32 := 0x80]);
          w7 = sha_do_block io ob w6
      in (sha_read_digest io w7, w7))"

definition hmac_sha256_sw :: "'w cio \<Rightarrow> bytes \<Rightarrow> bytes \<Rightarrow> 'w \<Rightarrow> bytes \<times> 'w" where
  "hmac_sha256_sw io key msg w =
     (let (k, w1) = (if length key > 64 then (case sha256_hw io key w of (d, u) \<Rightarrow> (put_bytes 0 d (replicate 64 0), u))
                     else (put_bytes 0 key (replicate 64 0), w));
          ipad = map (\<lambda>b. b XOR 0x36) k;
          opad = map (\<lambda>b. b XOR 0x5C) k;
          (c1, w2) = sha256_hw_init io zero_ctx w1;
          (c2, w3) = sha256_hw_update io c1 ipad w2;
          (c3, w4) = sha256_hw_update io c2 msg w3;
          (inner, c4, w5) = sha256_hw_final io c3 w4;
          (c5, w6) = sha256_hw_init io c4 w5;
          (c6, w7) = sha256_hw_update io c5 opad w6;
          (c7, w8) = sha256_hw_update io c6 inner w7;
          (out, c8, w9) = sha256_hw_final io c7 w8
      in (out, w9))"

section \<open>The reference\<close>

text \<open>Padding, iterated compression, digest, and HMAC as in the standards.\<close>

definition sha_pad :: "bytes \<Rightarrow> bytes" where
  "sha_pad msg = msg @ 0x80 # replicate ((119 - length msg mod 64) mod 64) 0 @ be_bytes 8 (8 * length msg)"

function compress :: "prims \<Rightarrow> u64 list \<Rightarrow> bytes \<Rightarrow> u64 list" where
  "compress P h bs = (if 64 \<le> length bs then compress P (p_cmp P h (words 8 bs)) (drop 64 bs) else h)"
  by auto
termination by (relation "measure (\<lambda>(P, h, bs). length bs)") auto

definition digest :: "u64 list \<Rightarrow> bytes" where
  "digest h = concat (map (\<lambda>i. st64 (h ! i)) [0..<4])"

definition sha256 :: "prims \<Rightarrow> bytes \<Rightarrow> bytes" where
  "sha256 P msg = digest (compress P (words 4 sha256_iv) (sha_pad msg))"

definition hmac :: "prims \<Rightarrow> bytes \<Rightarrow> bytes \<Rightarrow> bytes" where
  "hmac P key msg =
     (let k = (if length key > 64 then sha256 P key else key)
      in sha256 P (pad_key 0x5C k @ sha256 P (pad_key 0x36 k @ msg)))"

declare sha_full_loop.simps [simp del] compress.simps [simp del]

section \<open>Padding\<close>

lemma fold_upd_up:
  "a + k \<le> length p \<Longrightarrow> fold (\<lambda>i p. p[a + i := f i]) [0..<k] p = take a p @ map f [0..<k] @ drop (a + k) p"
proof (induction k)
  case (Suc k)
  then have "fold (\<lambda>i p. p[a + i := f i]) [0..<Suc k] p = (take a p @ map f [0..<k] @ drop (a + k) p)[a + k := f k]" by simp
  moreover have "drop (a + k) p = p ! (a + k) # drop (a + Suc k) p" using Suc.prems by (simp add: Cons_nth_drop_Suc)
  ultimately show ?case using Suc.prems by (simp add: list_update_append)
qed simp

lemma fold_upd_down:
  "k \<le> a \<Longrightarrow> a \<le> length p \<Longrightarrow>
     fold (\<lambda>i p. p[a - Suc i := f i]) [0..<k] p = take (a - k) p @ rev (map f [0..<k]) @ drop a p"
proof (induction k)
  case (Suc k)
  then have "fold (\<lambda>i p. p[a - Suc i := f i]) [0..<Suc k] p =
      (take (a - k) p @ rev (map f [0..<k]) @ drop a p)[a - Suc k := f k]" by simp
  moreover have "take (a - k) p = take (a - Suc k) p @ [p ! (a - Suc k)]"
    using Suc.prems by (simp add: Suc_diff_Suc take_Suc_conv_app_nth [symmetric])
  ultimately show ?case using Suc.prems by (simp add: list_update_append)
qed simp

lemma length_fold_upd: "length (fold (\<lambda>i q. q[g i := f i]) is p) = length p"
  by (induction "is" arbitrary: p) simp_all

lemma padblocks_cases: "padblocks p = 1 \<or> padblocks p = 2"
  by (simp add: padblocks_def)

lemma bits_up: "map (\<lambda>i. ucast (drop_bit (56 - 8 * i) v)) [0..<8] = rev (st64 v)"
  by (simp add: st64_def upt_rec)

lemma length_pad_start [simp]: "length p \<le> 128 \<Longrightarrow> length (pad_start p) = 128"
  by (simp add: pad_start_def)

lemma take_pad_start:
  "length p < n \<Longrightarrow> n \<le> 128 \<Longrightarrow> take n (pad_start p) = p @ 0x80 # replicate (n - length p - 1) 0"
proof -
  assume n: "length p < n" "n \<le> 128"
  then obtain k where "128 - length p = Suc k" by (metis Suc_diff_Suc less_le_trans)
  then have "pad_start p = p @ 0x80 # replicate k 0" by (simp add: pad_start_def list_update_append)
  moreover obtain j where "n = length p + Suc j" using n(1) by (metis less_iff_Suc_add add_Suc_right)
  ultimately show ?thesis using \<open>128 - length p = Suc k\<close> n by simp
qed

definition pad_field :: "bytes \<Rightarrow> bytes \<Rightarrow> bytes" where
  "pad_field p L = p @ 0x80 # replicate (padblocks p * 64 - 8 - length p - 1) 0 @ L"

lemma pad_bufs:
  assumes "length p < 64"
  shows "take (padblocks p * 64) (fold (\<lambda>i q. q[padblocks p * 64 - 8 + i := ucast (drop_bit (56 - 8 * i) v)]) [0..<8] (pad_start p)) =
      pad_field p (rev (st64 v))"
    and "take (padblocks p * 64) (fold (\<lambda>i q. q[padblocks p * 64 - 1 - i := ucast (drop_bit (8 * i) v)]) [0..<8] (pad_start p)) =
      pad_field p (rev (st64 v))"
    and "take (padblocks p * 64) (fold (\<lambda>i q. q[padblocks p * 64 - 8 + 7 - i := ucast (drop_bit (i * 8) v)]) [0..<8] (pad_start p)) =
      pad_field p (rev (st64 v))"
    and "length (pad_field p (rev (st64 v))) = padblocks p * 64"
proof -
  let ?n = "padblocks p * 64"
  have n: "length p < ?n - 8" "8 \<le> ?n" "?n \<le> 128" using assms by (auto simp: padblocks_def)
  have t: "take (?n - 8) (pad_start p) = p @ 0x80 # replicate (?n - 8 - length p - 1) 0" using n by (intro take_pad_start) auto
  then show "length (pad_field p (rev (st64 v))) = ?n" using n by (simp add: pad_field_def)
  have u: "fold (\<lambda>i q. q[?n - 8 + i := ucast (drop_bit (56 - 8 * i) v)]) [0..<8] (pad_start p) =
      take (?n - 8) (pad_start p) @ rev (st64 v) @ drop ?n (pad_start p)"
    using fold_upd_up [of "?n - 8" 8 "pad_start p" "\<lambda>i. ucast (drop_bit (56 - 8 * i) v)"] n bits_up [of v] by simp
  have d: "fold (\<lambda>i q. q[?n - Suc i := ucast (drop_bit (8 * i) v)]) [0..<8] (pad_start p) =
      take (?n - 8) (pad_start p) @ rev (st64 v) @ drop ?n (pad_start p)"
    using fold_upd_down [of 8 ?n "pad_start p" "\<lambda>i. ucast (drop_bit (8 * i) v)"] n by (simp add: st64_def)
  have e: "?n - 1 - i = ?n - Suc i" "?n - 8 + 7 - i = ?n - Suc i" for i using n by simp_all
  have r: "take ?n (take (?n - 8) (pad_start p) @ rev (st64 v) @ drop ?n (pad_start p)) = pad_field p (rev (st64 v))"
  proof -
    have x: "take ?n (x @ y) = x" if "length x = ?n" for x y :: bytes using that by simp
    have "length (take (?n - 8) (pad_start p) @ rev (st64 v)) = ?n" using n assms by simp
    from x [OF this] show ?thesis unfolding append_assoc by (simp only: t pad_field_def append_assoc append_Cons)
  qed
  show "take ?n (fold (\<lambda>i q. q[?n - 8 + i := ucast (drop_bit (56 - 8 * i) v)]) [0..<8] (pad_start p)) = pad_field p (rev (st64 v))"
    unfolding u by (rule r)
  show "take ?n (fold (\<lambda>i q. q[?n - 1 - i := ucast (drop_bit (8 * i) v)]) [0..<8] (pad_start p)) = pad_field p (rev (st64 v))"
    "take ?n (fold (\<lambda>i q. q[?n - 8 + 7 - i := ucast (drop_bit (i * 8) v)]) [0..<8] (pad_start p)) = pad_field p (rev (st64 v))"
    unfolding e mult.commute [of _ 8] d by (rule r)+
qed

lemma be_bytes_word: "be_bytes 8 n = rev (st64 (of_nat n))"
  using be_bytes_mod [of 8 n] by (simp add: st64_be unat_of_nat take_bit_eq_mod)

lemma sha_pad_split:
  assumes "64 dvd length full" and "length p < 64"
  shows "sha_pad (full @ p) = full @ pad_field p (rev (st64 (of_nat (length (full @ p)) * 8)))"
proof -
  obtain k where k: "length full = 64 * k" using assms(1) by blast
  have "(119 - length p) mod 64 = padblocks p * 64 - 8 - length p - 1"
    using assms(2) by (auto simp: padblocks_def mod_if)
  moreover have "be_bytes 8 (8 * length (full @ p)) = rev (st64 (of_nat (length (full @ p)) * 8))"
    unfolding be_bytes_word by (simp add: mult.commute)
  ultimately show ?thesis using assms(2) by (simp add: sha_pad_def pad_field_def k)
qed

section \<open>Compression\<close>

lemma words_append [simp]: "8 * n \<le> length a \<Longrightarrow> words n (a @ b) = words n a"
  by (auto simp: words_def ld64_append)

lemma words_take [simp]: "8 * n \<le> m \<Longrightarrow> words n (take m a) = words n a"
  by (auto simp: words_def drop_take ld64_take)

lemma length_words [simp]: "length (words n a) = n"
  by (simp add: words_def)

lemma compress_short: "length bs < 64 \<Longrightarrow> compress P h bs = h"
  by (subst compress.simps) simp

lemma compress_block: "64 \<le> length bs \<Longrightarrow> compress P h bs = compress P (p_cmp P h (words 8 bs)) (drop 64 bs)"
  by (subst compress.simps) simp

lemma compress_append: "64 dvd length a \<Longrightarrow> compress P h (a @ b) = compress P (compress P h a) b"
proof (induction P h a rule: compress.induct)
  case (1 P h a)
  show ?case
  proof (cases "64 \<le> length a")
    case True
    then show ?thesis using 1 by (simp add: compress_block dvd_minus_self)
  next
    case False
    then have "length a = 0" using "1.prems" by (meson dvd_imp_le not_gr_zero)
    then show ?thesis by (simp add: compress_short)
  qed
qed

lemma compress_one: "length b = 64 \<Longrightarrow> compress P h b = p_cmp P h (words 8 b)"
  by (simp add: compress_block compress_short)

section \<open>Device steps\<close>

definition sha_free :: "dev \<Rightarrow> bool" where
  "sha_free d \<longleftrightarrow> (h_phase (d_sha d) = ShaIdle \<or> h_phase (d_sha d) = ShaDone) \<and> \<not> h_keybusy (d_sha d) \<and>
     length (h_block (d_sha d)) = 8 \<and> length (h_in (d_sha d)) = 4 \<and> length (h_key (d_sha d)) = 4"

lemma sha_okD:
  assumes "sha_ok P io view"
  shows "sha_wr P r v (d_sha (view w)) = Some h \<Longrightarrow> view (wr io r v w) = (view w)\<lparr>d_sha := h\<rparr>"
    and "sha_spin k (d_sha (view w)) = Some h \<Longrightarrow> view (spin io k w) = (view w)\<lparr>d_sha := h\<rparr>"
    and "sha_rd r (d_sha (view w)) = Some x \<Longrightarrow> rd io r w = x"
    and "length (p_cmp P g b) = 4"
  using assms unfolding sha_ok_def by blast+

lemma fold_block:
  assumes "sha_ok P io view"
  shows "sha_free (view w) \<Longrightarrow> view (fold (\<lambda>i. wr io (SHA_BLOCK i) (f i)) is w) =
    (view w)\<lparr>d_sha := (d_sha (view w))\<lparr>h_block := fold (\<lambda>i b. b[i := f i]) is (h_block (d_sha (view w)))\<rparr>\<rparr>"
proof (induction "is" arbitrary: w)
  case (Cons i "is")
  have "view (wr io (SHA_BLOCK i) (f i) w) = (view w)\<lparr>d_sha := (d_sha (view w))\<lparr>h_block := (h_block (d_sha (view w)))[i := f i]\<rparr>\<rparr>"
    by (rule sha_okD(1) [OF assms]) (use Cons.prems in \<open>auto simp: sha_free_def\<close>)
  then show ?case using Cons.IH [of "wr io (SHA_BLOCK i) (f i) w"] Cons.prems by (simp add: sha_free_def)
qed simp

lemma fold_hin:
  assumes "sha_ok P io view"
  shows "sha_free (view w) \<Longrightarrow> view (fold (\<lambda>i. wr io (SHA_HIN i) (f i)) is w) =
    (view w)\<lparr>d_sha := (d_sha (view w))\<lparr>h_in := fold (\<lambda>i b. b[i := f i]) is (h_in (d_sha (view w)))\<rparr>\<rparr>"
proof (induction "is" arbitrary: w)
  case (Cons i "is")
  have "view (wr io (SHA_HIN i) (f i) w) = (view w)\<lparr>d_sha := (d_sha (view w))\<lparr>h_in := (h_in (d_sha (view w)))[i := f i]\<rparr>\<rparr>"
    by (rule sha_okD(1) [OF assms]) (use Cons.prems in \<open>auto simp: sha_free_def\<close>)
  then show ?case using Cons.IH [of "wr io (SHA_HIN i) (f i) w"] Cons.prems by (simp add: sha_free_def)
qed simp

lemma fold_hkey:
  assumes "sha_ok P io view"
  shows "sha_free (view w) \<Longrightarrow> view (fold (\<lambda>i. wr io (HMAC_KEY i) (f i)) is w) =
    (view w)\<lparr>d_sha := (d_sha (view w))\<lparr>h_key := fold (\<lambda>i b. b[i := f i]) is (h_key (d_sha (view w)))\<rparr>\<rparr>"
proof (induction "is" arbitrary: w)
  case (Cons i "is")
  have "view (wr io (HMAC_KEY i) (f i) w) = (view w)\<lparr>d_sha := (d_sha (view w))\<lparr>h_key := (h_key (d_sha (view w)))[i := f i]\<rparr>\<rparr>"
    by (rule sha_okD(1) [OF assms]) (use Cons.prems in \<open>auto simp: sha_free_def\<close>)
  then show ?case using Cons.IH [of "wr io (HMAC_KEY i) (f i) w"] Cons.prems by (simp add: sha_free_def)
qed simp

lemma fold_all: "length b = n \<Longrightarrow> fold (\<lambda>i b. b[i := f i]) [0..<n] b = map f [0..<n]"
  using fold_upd_up [of 0 n b f] by simp

text \<open>From a free SHA block to a free one that holds the state \<open>h\<close>; the rest of the device is as it was.\<close>

definition sha_to :: "('w \<Rightarrow> dev) \<Rightarrow> 'w \<Rightarrow> u64 list \<Rightarrow> 'w \<Rightarrow> bool" where
  "sha_to view w h w' \<longleftrightarrow> sha_free (view w') \<and> h_state (d_sha (view w')) = h \<and>
     h_inner (d_sha (view w')) = h_inner (d_sha (view w)) \<and> h_outer (d_sha (view w')) = h_outer (d_sha (view w)) \<and>
     d_aes (view w') = d_aes (view w) \<and> d_gcm (view w') = d_gcm (view w)"

lemma sha_to_trans: "sha_to view u h v \<Longrightarrow> sha_to view v h' w \<Longrightarrow> sha_to view u h' w"
  by (simp add: sha_to_def)

lemma sha_ret_trans: "\<exists>h. sha_to view u h v \<Longrightarrow> \<exists>h. sha_to view v h w \<Longrightarrow> \<exists>h. sha_to view u h w"
  by (blast intro: sha_to_trans)

lemma sha_toD: "sha_to view w h w' \<Longrightarrow> sha_free (view w')" "sha_to view w h w' \<Longrightarrow> h_state (d_sha (view w')) = h"
  by (simp_all add: sha_to_def)

lemma sha_do_block_to:
  assumes ok: "sha_ok P io view" and fr: "sha_free (view w)"
  shows "sha_to view w (p_cmp P (h_state (d_sha (view w))) (words 8 data)) (sha_do_block io data w)"
proof -
  let ?h = "d_sha (view w)" and ?w1 = "sha_write_block io data w"
  have w1: "view ?w1 = (view w)\<lparr>d_sha := ?h\<lparr>h_block := words 8 data\<rparr>\<rparr>"
    using fold_block [OF ok fr, of "\<lambda>i. ld64 (drop (8 * i) data)" "[0..<8]"] fr
    by (simp add: sha_write_block_def fold_all sha_free_def words_def)
  let ?w2 = "wr io SHA_CTRL SHA_CTRL_START ?w1"
  have w2: "view ?w2 = (view w)\<lparr>d_sha := ?h\<lparr>h_block := words 8 data, h_state := p_cmp P (h_state ?h) (words 8 data), h_phase := ShaRunning\<rparr>\<rparr>"
    by (subst sha_okD(1) [OF ok]) (use fr w1 in \<open>auto simp: sha_free_def sha_regs\<close>)
  have "view (spin io SHA_WAIT ?w2) =
      (view w)\<lparr>d_sha := ?h\<lparr>h_block := words 8 data, h_state := p_cmp P (h_state ?h) (words 8 data), h_phase := ShaDone\<rparr>\<rparr>"
    by (subst sha_okD(2) [OF ok]) (use w2 in auto)
  then show ?thesis using fr by (simp add: sha_to_def sha_do_block_def sha_free_def)
qed

lemma rd_digest: "sha_ok P io view \<Longrightarrow> sha_free (view w) \<Longrightarrow> rd io (SHA_DIGEST i) w = h_state (d_sha (view w)) ! i"
  by (rule sha_okD(3)) (auto simp: sha_free_def)

lemma read_digest: "sha_ok P io view \<Longrightarrow> sha_free (view w) \<Longrightarrow> sha_read_digest io w = digest (h_state (d_sha (view w)))"
  by (simp add: sha_read_digest_def digest_def rd_digest)

lemma sha_to_refl: "sha_free (view w) \<Longrightarrow> sha_to view w (h_state (d_sha (view w))) w"
  by (simp add: sha_to_def)

lemma full_loop_to:
  assumes ok: "sha_ok P io view"
  shows "sha_free (view w) \<Longrightarrow> sha_to view w (compress P (h_state (d_sha (view w))) msg) (snd (sha_full_loop io msg w)) \<and>
    fst (sha_full_loop io msg w) = drop (64 * (length msg div 64)) msg"
proof (induction "length msg" arbitrary: msg w rule: less_induct)
  case less
  show ?case
  proof (cases "64 \<le> length msg")
    case True
    note b = sha_do_block_to [OF ok less.prems, of msg]
    have e: "sha_full_loop io msg w = sha_full_loop io (drop 64 msg) (sha_do_block io msg w)"
      using True by (simp add: sha_full_loop.simps [of io msg w])
    have l: "length (drop 64 msg) < length msg" "64 * (length msg div 64) = 64 + 64 * (length (drop 64 msg) div 64)"
      using True by (simp_all add: le_div_geq)
    show ?thesis
      using less.hyps [OF l(1) sha_toD(1) [OF b]] sha_to_trans [OF b] sha_toD(2) [OF b] True l(2)
      unfolding e by (simp add: compress_block add.commute)
  next
    case False
    then show ?thesis using less.prems by (simp add: sha_full_loop.simps compress_short sha_to_refl)
  qed
qed

lemma process_full_blocks_to:
  assumes ok: "sha_ok P io view"
  shows "sha_free (view w) \<Longrightarrow> 64 * n \<le> length data \<Longrightarrow>
    sha_to view w (compress P (h_state (d_sha (view w))) (take (64 * n) data)) (sha_process_full_blocks io data n w)"
proof (induction n arbitrary: data w)
  case 0
  then show ?case by (simp add: compress_short sha_to_refl)
next
  case (Suc n)
  note b = sha_do_block_to [OF ok Suc.prems(1), of data]
  have "take (64 * Suc n) data = take 64 data @ take (64 * n) (drop 64 data)" by (simp add: take_add add.commute)
  then have "compress P (h_state (d_sha (view w))) (take (64 * Suc n) data) =
      compress P (p_cmp P (h_state (d_sha (view w))) (words 8 data)) (take (64 * n) (drop 64 data))"
    using Suc.prems(2) by (simp add: compress_append compress_one)
  then show ?case
    using Suc.IH [OF sha_toD(1) [OF b], of "drop 64 data"] Suc.prems(2) sha_to_trans [OF b] sha_toD(2) [OF b] by simp
qed

lemma finalize_to:
  fixes bits :: u64
  assumes ok: "sha_ok P io view" and fr: "sha_free (view w)" and p: "length p < 64"
  defines "h \<equiv> compress P (h_state (d_sha (view w))) (pad_field p (rev (st64 bits)))"
  shows "fst (sha_finalize io p bits w) = digest h" and "sha_to view w h (snd (sha_finalize io p bits w))"
proof -
  let ?n = "padblocks p * 64"
  define pad where "pad = fold (\<lambda>i q. q[?n - 8 + i := ucast (drop_bit (56 - 8 * i) bits)]) [0..<8] (pad_start p)"
  have t: "take ?n pad = pad_field p (rev (st64 bits))" unfolding pad_def by (rule pad_bufs(1) [OF p])
  have l: "?n \<le> length pad" using p by (auto simp: pad_def length_fold_upd padblocks_def)
  have f: "sha_finalize io p bits w = (let w2 = sha_process_full_blocks io pad (padblocks p) w in (sha_read_digest io w2, w2))"
    unfolding sha_finalize_def Let_def pad_def [symmetric] using padblocks_cases [of p] by (auto simp: numeral_2_eq_2)
  have "sha_to view w h (sha_process_full_blocks io pad (padblocks p) w)"
    using process_full_blocks_to [OF ok fr, of "padblocks p" pad] l t by (simp add: h_def mult.commute)
  then show "fst (sha_finalize io p bits w) = digest h" and "sha_to view w h (snd (sha_finalize io p bits w))"
    using read_digest [OF ok] by (simp_all add: f Let_def sha_to_def)
qed

lemma init_to:
  assumes "sha_ok P io view" and "sha_free (view w)"
  shows "sha_to view w (words 4 sha256_iv) (wr io SHA_CTRL SHA_CTRL_INIT w)"
proof -
  have "view (wr io SHA_CTRL SHA_CTRL_INIT w) = (view w)\<lparr>d_sha := (d_sha (view w))\<lparr>h_state := words 4 sha256_iv, h_phase := ShaIdle\<rparr>\<rparr>"
    by (rule sha_okD(1) [OF assms(1)]) (use assms(2) in \<open>auto simp: sha_free_def\<close>)
  then show ?thesis using assms(2) by (simp add: sha_to_def sha_free_def)
qed

text \<open>The part of a message after its full blocks, and how it grows.\<close>

definition tail_of :: "bytes \<Rightarrow> bytes" where
  "tail_of msg = drop (64 * (length msg div 64)) msg"

definition fulls :: "bytes \<Rightarrow> bytes" where
  "fulls msg = take (64 * (length msg div 64)) msg"

lemma fulls_tail: "fulls msg @ tail_of msg = msg" "64 dvd length (fulls msg)" "length (tail_of msg) < 64"
proof -
  have "64 * (length msg div 64) \<le> length msg" by simp
  then have "length (fulls msg) = 64 * (length msg div 64)" by (simp add: fulls_def)
  then show "64 dvd length (fulls msg)" by simp
qed (simp_all add: fulls_def tail_of_def minus_mult_div_eq_mod)

lemma tail_short: "length p < 64 \<Longrightarrow> tail_of p = p"
  by (simp add: tail_of_def)

lemma tail_of_append: "64 dvd length a \<Longrightarrow> tail_of (a @ b) = tail_of b"
  by (auto simp: tail_of_def elim!: dvdE)

lemma compress_tail: "compress P h msg = compress P h (fulls msg)"
  using compress_append [OF fulls_tail(2), of P h msg "tail_of msg"] fulls_tail [of msg] by (simp add: compress_short)

lemma absorb_append:
  "compress P h (msg @ data) = compress P (compress P h msg) (tail_of msg @ data)" "tail_of (msg @ data) = tail_of (tail_of msg @ data)"
proof -
  have m: "msg @ data = fulls msg @ tail_of msg @ data" using fulls_tail(1) [of msg] by (metis append_assoc)
  show "compress P h (msg @ data) = compress P (compress P h msg) (tail_of msg @ data)"
    by (subst m) (simp add: compress_append fulls_tail(2) compress_tail [of P h msg])
  show "tail_of (msg @ data) = tail_of (tail_of msg @ data)" by (subst m) (simp add: tail_of_append fulls_tail(2))
qed

lemma pad_compress:
  "compress P h (sha_pad msg) = compress P (compress P h msg) (pad_field (tail_of msg) (rev (st64 (of_nat (length msg) * 8))))"
proof -
  have "sha_pad msg = fulls msg @ pad_field (tail_of msg) (rev (st64 (of_nat (length msg) * 8)))"
    using sha_pad_split [OF fulls_tail(2,3), of msg msg] by (simp add: fulls_tail(1))
  then show ?thesis by (simp add: compress_append fulls_tail(2) compress_tail [of P h msg])
qed

lemma sha256_hw_eq:
  assumes ok: "sha_ok P io view" and fr: "sha_free (view w)"
  shows "fst (sha256_hw io msg w) = sha256 P msg" and "\<exists>h. sha_to view w h (snd (sha256_hw io msg w))"
proof -
  let ?i = "wr io SHA_CTRL SHA_CTRL_INIT w"
  note i = init_to [OF ok fr]
  obtain rest w1 where l: "sha_full_loop io msg ?i = (rest, w1)" by (cases "sha_full_loop io msg ?i")
  have r: "rest = tail_of msg" "sha_to view ?i (compress P (words 4 sha256_iv) msg) w1"
    using full_loop_to [OF ok sha_toD(1) [OF i], of msg] l sha_toD(2) [OF i] by (simp_all add: tail_of_def)
  note f = finalize_to [OF ok sha_toD(1) [OF r(2)] fulls_tail(3), of msg "of_nat (length msg) * 8"]
  have e: "sha256_hw io msg w = sha_finalize io rest (of_nat (length msg) * 8) w1" by (simp add: sha256_hw_def l)
  show "fst (sha256_hw io msg w) = sha256 P msg"
    unfolding e r(1) f(1) sha256_def pad_compress sha_toD(2) [OF r(2)] ..
  show "\<exists>h. sha_to view w h (snd (sha256_hw io msg w))"
    unfolding e r(1) using sha_to_trans [OF i sha_to_trans [OF r(2) f(2)]] by blast
qed

section \<open>Contexts\<close>

text \<open>A context's buffer holds the bytes \<open>t\<close> that are not hashed yet.\<close>

definition pending :: "bytes \<Rightarrow> u32 \<Rightarrow> bytes \<Rightarrow> bool" where
  "pending buf n t \<longleftrightarrow> unat n = length t \<and> length t < 64 \<and> length buf = 64 \<and> take (length t) buf = t"

lemma unat_add_small: "unat n + k < 2 ^ 32 \<Longrightarrow> unat (n + of_nat k :: u32) = unat n + k"
  by (simp add: unat_word_ariths unat_of_nat)

lemma pending_fill:
  assumes "pending buf n t" and "length t + length d \<le> 64"
  shows "take (length t + length d) (put_bytes (unat n) d buf) = t @ d" "length (put_bytes (unat n) d buf) = 64"
    "unat (n + of_nat (length d)) = length t + length d"
    "length t + length d < 64 \<Longrightarrow> pending (put_bytes (unat n) d buf) (n + of_nat (length d)) (t @ d)"
proof -
  show *: "take (length t + length d) (put_bytes (unat n) d buf) = t @ d" "length (put_bytes (unat n) d buf) = 64"
    "unat (n + of_nat (length d)) = length t + length d"
    using assms by (simp_all add: put_bytes_def pending_def unat_add_small)
  show "pending (put_bytes (unat n) d buf) (n + of_nat (length d)) (t @ d)" if "length t + length d < 64"
    using that * by (simp add: pending_def)
qed

lemma pending_new: "length buf = 64 \<Longrightarrow> length t < 64 \<Longrightarrow> pending (put_bytes 0 t buf) (of_nat (length t)) t"
  by (simp add: pending_def put_bytes_def unat_of_nat)

lemma pending_empty: "length buf = 64 \<Longrightarrow> pending buf 0 []"
  by (simp add: pending_def)

lemma fill_to:
  assumes ok: "sha_ok P io view" and fr: "sha_free (view w)" and pe: "pending (ctx_buf c) (buf_len c) t"
    and f: "sha_fill io c data w = (c1, d1, w1)"
  shows "\<exists>t1 h. pending (ctx_buf c1) (buf_len c1) t1 \<and> (t1 = [] \<or> d1 = []) \<and> total_bytes c1 = total_bytes c \<and>
    sha_to view w h w1 \<and> compress P h (t1 @ d1) = compress P (h_state (d_sha (view w))) (t @ data) \<and>
    tail_of (t1 @ d1) = tail_of (t @ data)"
proof -
  let ?h = "h_state (d_sha (view w))" and ?k = "min (length data) (64 - length t)"
  have n: "unat (buf_len c) = length t" "length t < 64" using pe by (auto simp: pending_def)
  note pf = pending_fill [OF pe, of "take ?k data"]
  show ?thesis
  proof (cases "t = []")
    case True
    then have "buf_len c = 0" using n by (simp add: unat_eq_zero)
    then have "c1 = c" "d1 = data" "w1 = w" using f by (auto simp: sha_fill_def)
    then show ?thesis using pe True sha_to_refl [of view w, OF fr]
      by (intro exI [of _ "[]"] exI [of _ "h_state (d_sha (view w))"]) simp
  next
    case False
    then have z: "0 < buf_len c" using n by (simp add: word_gt_0) (metis length_0_conv unsigned_0)
    show ?thesis
    proof (cases "length data < 64 - length t")
      case True
      then have k: "?k = length data" "length t + length data < 64" by auto
      have "unat (buf_len c + of_nat (length data)) < 64" using pf(3) k by simp
      then have "buf_len c + of_nat (length data) \<noteq> 64" by auto
      then show ?thesis using f z n pf(4) k sha_to_refl [of view w, OF fr] by (auto simp: sha_fill_def Let_def)
    next
      case False
      then have k: "?k = 64 - length t" "length (take ?k data) = 64 - length t" by auto
      let ?b = "put_bytes (unat (buf_len c)) (take ?k data) (ctx_buf c)"
      have b: "?b = t @ take ?k data" "length ?b = 64" using pf(1,2) k n by auto
      have "buf_len c = of_nat (unat (buf_len c))" by simp
      then have "buf_len c + of_nat (64 - length t) = 64" using n by (simp flip: of_nat_add)
      then have c1: "c1 = c\<lparr>ctx_buf := ?b, buf_len := 0\<rparr>" "d1 = drop ?k data" "w1 = sha_do_block io ?b w"
        using f z n k by (auto simp: sha_fill_def Let_def)
      have s: "t @ data = ?b @ drop ?k data" using b(1) by simp
      have "compress P ?h (t @ data) = compress P (p_cmp P ?h (words 8 ?b)) d1" "tail_of (t @ data) = tail_of d1"
        unfolding s c1(2) using b(2) by (simp_all add: compress_append compress_one tail_of_append)
      then show ?thesis using sha_do_block_to [OF ok fr, of ?b] c1 pending_empty [OF b(2)]
        by (intro exI [of _ "[]"] exI [of _ "p_cmp P ?h (words 8 ?b)"]) simp
    qed
  qed
qed

lemma update_to:
  assumes ok: "sha_ok P io view" and fr: "sha_free (view w)" and pe: "pending (ctx_buf c) (buf_len c) t"
    and u: "sha256_hw_update io c data w = (c', w')"
  shows "pending (ctx_buf c') (buf_len c') (tail_of (t @ data))" and "total_bytes c' = total_bytes c + of_nat (length data)"
    and "sha_to view w (compress P (h_state (d_sha (view w))) (t @ data)) w'"
proof -
  define c0 where "c0 = c\<lparr>total_bytes := total_bytes c + of_nat (length data)\<rparr>"
  obtain c1 d1 w1 where f: "sha_fill io c0 data w = (c1, d1, w1)" by (cases "sha_fill io c0 data w")
  obtain t1 h where t1: "pending (ctx_buf c1) (buf_len c1) t1" "t1 = [] \<or> d1 = []" "total_bytes c1 = total_bytes c0"
    and h: "sha_to view w h w1" "compress P h (t1 @ d1) = compress P (h_state (d_sha (view w))) (t @ data)"
      "tail_of (t1 @ d1) = tail_of (t @ data)"
    using fill_to [OF ok fr _ f, of t] pe by (auto simp: c0_def)
  obtain w2 where l: "sha_full_loop io d1 w1 = (tail_of d1, w2)" "sha_to view w1 (compress P h d1) w2"
    using full_loop_to [OF ok sha_toD(1) [OF h(1)], of d1] sha_toD(2) [OF h(1)]
    by (cases "sha_full_loop io d1 w1") (simp add: tail_of_def)
  have u': "w' = w2" "c' = (if tail_of d1 \<noteq> []
      then c1\<lparr>ctx_buf := put_bytes 0 (tail_of d1) (ctx_buf c1), buf_len := of_nat (length (tail_of d1))\<rparr> else c1)"
    using u f l(1) by (auto simp: sha256_hw_update_def c0_def Let_def split: if_splits)
  have t64: "length t1 < 64" "length (ctx_buf c1) = 64" using t1(1) by (auto simp: pending_def)
  have "pending (ctx_buf c') (buf_len c') (tail_of (t1 @ d1))"
    using t1 t64 u'(2) pending_new [OF t64(2) fulls_tail(3), of d1] by (auto simp: tail_short)
  then show "pending (ctx_buf c') (buf_len c') (tail_of (t @ data))" by (simp only: h(3))
  show "total_bytes c' = total_bytes c + of_nat (length data)" using u'(2) t1(3) by (simp add: c0_def)
  have "compress P h d1 = compress P h (t1 @ d1)" using t1(2) t64(1) by (auto simp: compress_short)
  then show "sha_to view w (compress P (h_state (d_sha (view w))) (t @ data)) w'"
    using sha_to_trans [OF h(1) l(2)] by (simp add: u'(1) h(2))
qed

text \<open>A context that has absorbed \<open>msg\<close>, in the hardware and in its buffer.\<close>

definition ctx_of :: "prims \<Rightarrow> ('w \<Rightarrow> dev) \<Rightarrow> bytes \<Rightarrow> sha256_ctx \<Rightarrow> 'w \<Rightarrow> bool" where
  "ctx_of P view msg c w \<longleftrightarrow> sha_free (view w) \<and> pending (ctx_buf c) (buf_len c) (tail_of msg) \<and>
     total_bytes c = of_nat (length msg) \<and> h_state (d_sha (view w)) = compress P (words 4 sha256_iv) msg"

lemma init_ctx:
  assumes "sha_ok P io view" and "sha_free (view w)" and "length (ctx_buf c) = 64"
  shows "ctx_of P view [] (fst (sha256_hw_init io c w)) (snd (sha256_hw_init io c w))"
  using init_to [OF assms(1,2)] assms(3) by (simp add: sha256_hw_init_def ctx_of_def tail_of_def pending_def compress_short sha_to_def)

lemma update_ctx:
  assumes ok: "sha_ok P io view" and c: "ctx_of P view msg c w"
  shows "ctx_of P view (msg @ data) (fst (sha256_hw_update io c data w)) (snd (sha256_hw_update io c data w))"
proof -
  obtain c' w' where u: "sha256_hw_update io c data w = (c', w')" by (cases "sha256_hw_update io c data w")
  have "sha_free (view w)" "pending (ctx_buf c) (buf_len c) (tail_of msg)" using c by (simp_all add: ctx_of_def)
  note up = update_to [OF ok this u]
  show ?thesis
    using c up by (simp add: u ctx_of_def absorb_append(2) [symmetric] sha_to_def absorb_append(1) [symmetric])
qed

lemma final_ctx:
  assumes ok: "sha_ok P io view" and c: "ctx_of P view msg c w"
  shows "fst (sha256_hw_final io c w) = sha256 P msg" "sha_free (view (snd (snd (sha256_hw_final io c w))))"
    "length (ctx_buf (fst (snd (sha256_hw_final io c w)))) = 64"
proof -
  have fr: "sha_free (view w)" and t: "take (unat (buf_len c)) (ctx_buf c) = tail_of msg" and l: "length (ctx_buf c) = 64"
    using c by (auto simp: ctx_of_def pending_def)
  note f = finalize_to [OF ok fr fulls_tail(3), of msg "total_bytes c * 8"]
  show "fst (sha256_hw_final io c w) = sha256 P msg" "sha_free (view (snd (snd (sha256_hw_final io c w))))"
    "length (ctx_buf (fst (snd (sha256_hw_final io c w)))) = 64"
    using f c l by (simp_all add: sha256_hw_final_def t case_prod_beta ctx_of_def sha256_def pad_compress sha_toD(1))
qed

section \<open>Saved states\<close>

lemma r_step_to:
  assumes ok: "sha_ok P io view" and fr: "sha_free (view w)"
  shows "sha_to view w (p_cmp P (if first then h_in (d_sha (view w)) else h_state (d_sha (view w))) (words 8 data))
    (spin io SHA_WAIT (spin io SHA_WAIT_IDLE
      (wr io SHA_CTRL (if first then SHA_CTRL_RESTORE OR SHA_CTRL_START else SHA_CTRL_START) (sha_write_block io data w))))"
proof -
  let ?h = "d_sha (view w)" and ?w1 = "sha_write_block io data w"
  let ?g = "p_cmp P (if first then h_in ?h else h_state ?h) (words 8 data)"
  let ?c = "if first then SHA_CTRL_RESTORE OR SHA_CTRL_START else SHA_CTRL_START"
  have w1: "view ?w1 = (view w)\<lparr>d_sha := ?h\<lparr>h_block := words 8 data\<rparr>\<rparr>"
    using fold_block [OF ok fr, of "\<lambda>i. ld64 (drop (8 * i) data)" "[0..<8]"] fr
    by (simp add: sha_write_block_def fold_all sha_free_def words_def)
  have w2: "view (wr io SHA_CTRL ?c ?w1) = (view w)\<lparr>d_sha := ?h\<lparr>h_block := words 8 data, h_state := ?g,
      h_phase := (if first then ShaRestoring else ShaRunning)\<rparr>\<rparr>"
    by (subst sha_okD(1) [OF ok]) (use fr w1 in \<open>auto simp: sha_free_def sha_regs\<close>)
  have w3: "view (spin io SHA_WAIT_IDLE (wr io SHA_CTRL ?c ?w1)) =
      (view w)\<lparr>d_sha := ?h\<lparr>h_block := words 8 data, h_state := ?g, h_phase := ShaDone\<rparr>\<rparr>"
    by (subst sha_okD(2) [OF ok]) (use w2 in auto)
  have "view (spin io SHA_WAIT (spin io SHA_WAIT_IDLE (wr io SHA_CTRL ?c ?w1))) =
      (view w)\<lparr>d_sha := ?h\<lparr>h_block := words 8 data, h_state := ?g, h_phase := ShaDone\<rparr>\<rparr>"
    by (subst sha_okD(2) [OF ok]) (use w3 in auto)
  then show ?thesis using fr by (simp add: sha_to_def sha_free_def)
qed

lemma take_64: "take (64 * Suc n) d = take 64 d @ take (64 * n) (drop 64 d)"
  by (simp add: take_add add.commute)

lemma compress_first:
  "64 * Suc n \<le> length d \<Longrightarrow> compress P h (take (64 * Suc n) d) = compress P (p_cmp P h (words 8 d)) (take (64 * n) (drop 64 d))"
  unfolding take_64 by (simp add: compress_append compress_one)

lemma r_loop_to:
  assumes ok: "sha_ok P io view"
  shows "sha_free (view w) \<Longrightarrow> 64 * n \<le> length data \<Longrightarrow>
    sha_to view w (compress P (h_state (d_sha (view w))) (take (64 * n) data)) (sha_r_loop io False data n w)"
proof (induction n arbitrary: data w)
  case 0
  then show ?case by (simp add: compress_short sha_to_refl)
next
  case (Suc n)
  note b = r_step_to [OF ok Suc.prems(1), of False data]
  have d: "64 * n \<le> length (drop 64 data)" using Suc.prems(2) by simp
  show ?case
    using Suc.IH [OF sha_toD(1) [OF b] d] Suc.prems(2) sha_to_trans [OF b] sha_toD(2) [OF b]
    by (simp add: compress_first del: mult_Suc_right)
qed

lemma map_nth_4: "length h = 4 \<Longrightarrow> map (\<lambda>i. h ! i) [0..<4] = h"
  by (metis map_nth)

lemma length_compress: "sha_ok P io view \<Longrightarrow> length h = 4 \<Longrightarrow> length (compress P h bs) = 4"
proof (induction "length bs" arbitrary: h bs rule: less_induct)
  case less
  show ?case
  proof (cases "64 \<le> length bs")
    case True
    then show ?thesis using less.hyps [of "drop 64 bs" "p_cmp P h (words 8 bs)"] less.prems sha_okD(4) [OF less.prems(1)] by (simp add: compress_block)
  next
    case False
    then show ?thesis using less.prems by (simp add: compress_short)
  qed
qed

lemma r_blocks_to:
  assumes ok: "sha_ok P io view" and fr: "sha_free (view w)" and h: "length h = 4" and n: "64 * n \<le> length data"
  shows "fst (sha_r_blocks io h data n w) = compress P h (take (64 * n) data)"
    and "\<exists>h'. sha_to view w h' (snd (sha_r_blocks io h data n w))"
proof -
  have "fst (sha_r_blocks io h data n w) = compress P h (take (64 * n) data) \<and> (\<exists>h'. sha_to view w h' (snd (sha_r_blocks io h data n w)))"
  proof (cases n)
    case 0
    then show ?thesis using sha_to_refl [of view w, OF fr] by (auto simp: sha_r_blocks_def compress_short)
  next
    case (Suc m)
    define w0 where "w0 = spin io SHA_WAIT_IDLE w"
    have w0: "view w0 = (view w)\<lparr>d_sha := (d_sha (view w))\<lparr>h_phase := (if h_phase (d_sha (view w)) = ShaIdle then ShaIdle else ShaDone)\<rparr>\<rparr>"
      unfolding w0_def by (rule sha_okD(2) [OF ok]) simp
    then have fr0: "sha_free (view w0)" using fr by (auto simp: sha_free_def)
    define w1 where "w1 = fold (\<lambda>i. wr io (SHA_HIN i) (h ! i)) [0..<4] w0"
    have w1: "view w1 = (view w0)\<lparr>d_sha := (d_sha (view w0))\<lparr>h_in := h\<rparr>\<rparr>"
      unfolding w1_def using fold_hin [OF ok fr0, of "\<lambda>i. h ! i" "[0..<4]"] fr0 h by (simp add: fold_all sha_free_def map_nth_4)
    then have fr1: "sha_free (view w1)" and t1: "sha_to view w (h_state (d_sha (view w))) w1"
      using fr0 h w0 by (auto simp: sha_free_def sha_to_def)
    note s = r_step_to [OF ok fr1, of True data]
    have g: "h_in (d_sha (view w1)) = h" using w1 by simp
    define w2 where "w2 = sha_r_loop io True data n w1"
    have d: "64 * m \<le> length (drop 64 data)" using n Suc by simp
    have "sha_to view w1 (compress P h (take (64 * n) data)) w2"
      using r_loop_to [OF ok sha_toD(1) [OF s] d] n sha_to_trans [OF s] sha_toD(2) [OF s]
      unfolding w2_def Suc g by (simp add: compress_first del: mult_Suc_right)
    moreover from this have "map (\<lambda>i. rd io (SHA_DIGEST i) w2) [0..<4] = compress P h (take (64 * n) data)"
      using rd_digest [OF ok] map_nth_4 [OF length_compress [OF ok h]] by (simp add: sha_to_def)
    moreover have "sha_r_blocks io h data n w = (map (\<lambda>i. rd io (SHA_DIGEST i) w2) [0..<4], w2)"
    proof -
      have "n \<noteq> 0" using Suc by simp
      then show ?thesis unfolding sha_r_blocks_def Let_def w0_def [symmetric] w1_def [symmetric] w2_def [symmetric] by simp
    qed
    ultimately show ?thesis using sha_to_trans [OF t1] by auto
  qed
  then show "fst (sha_r_blocks io h data n w) = compress P h (take (64 * n) data)"
    and "\<exists>h'. sha_to view w h' (snd (sha_r_blocks io h data n w))" by auto
qed

text \<open>
  A save/restore context that has absorbed \<open>msg\<close> on top of the start state \<open>h0\<close>, which
  stands for \<open>k\<close> bytes; nothing of it is in the hardware.
\<close>

definition rctx_of :: "prims \<Rightarrow> u64 list \<Rightarrow> nat \<Rightarrow> bytes \<Rightarrow> rctx \<Rightarrow> bool" where
  "rctx_of P h0 k msg c \<longleftrightarrow> length h0 = 4 \<and> rh c = compress P h0 msg \<and> rtotal c = of_nat (k + length msg) \<and>
     pending (rbuf c) (rbuf_len c) (tail_of msg)"

lemma r_tail_to:
  assumes ok: "sha_ok P io view" and fr: "sha_free (view w)" and h: "length (rh c) = 4" and pe: "pending (rbuf c) (rbuf_len c) []"
    and u: "sha_r_tail io c d w = (c', w')"
  shows "rh c' = compress P (rh c) d" "rtotal c' = rtotal c" "pending (rbuf c') (rbuf_len c') (tail_of d)" "\<exists>h'. sha_to view w h' w'"
proof -
  let ?n = "length d div 64"
  have n: "64 * ?n \<le> length d" by simp
  obtain g w1 where b: "sha_r_blocks io (rh c) d ?n w = (g, w1)" by (cases "sha_r_blocks io (rh c) d ?n w")
  note rb = r_blocks_to [OF ok fr h n]
  have g: "g = compress P (rh c) d" using rb(1) b compress_tail [of P "rh c" d] by (simp add: fulls_def)
  have e: "c' = (if tail_of d \<noteq> [] then c\<lparr>rh := g, rbuf := put_bytes 0 (tail_of d) (rbuf c), rbuf_len := of_nat (length (tail_of d))\<rparr>
      else c\<lparr>rh := g\<rparr>)" "w' = w1"
    using u b by (auto simp: sha_r_tail_def Let_def tail_of_def mult.commute split: if_splits)
  show "rh c' = compress P (rh c) d" "rtotal c' = rtotal c" using e g by auto
  show "pending (rbuf c') (rbuf_len c') (tail_of d)"
    using e(1) pe pending_new [OF _ fulls_tail(3), of "rbuf c" d] by (auto simp: pending_def)
  show "\<exists>h'. sha_to view w h' w'" using rb(2) b e(2) by simp
qed

lemma rupdate_to:
  assumes ok: "sha_ok P io view" and fr: "sha_free (view w)" and h: "length (rh c) = 4" and pe: "pending (rbuf c) (rbuf_len c) t"
    and u: "sha256_hw_rupdate io c data w = (c', w')"
  shows "rh c' = compress P (rh c) (t @ data) \<and> rtotal c' = rtotal c + of_nat (length data) \<and>
    pending (rbuf c') (rbuf_len c') (tail_of (t @ data)) \<and> (\<exists>h'. sha_to view w h' w')"
proof -
  define c0 where "c0 = c\<lparr>rtotal := rtotal c + of_nat (length data)\<rparr>"
  have c0: "rh c0 = rh c" "rbuf c0 = rbuf c" "rbuf_len c0 = rbuf_len c" "rtotal c0 = rtotal c + of_nat (length data)"
    by (simp_all add: c0_def)
  let ?k = "min (64 - length t) (length data)"
  have n: "unat (rbuf_len c) = length t" "length t < 64" using pe by (auto simp: pending_def)
  note pf = pending_fill [OF pe, of "take ?k data"]
  show ?thesis
  proof (cases "t = []")
    case True
    then have "rbuf_len c = 0" using n by (simp add: unat_eq_zero)
    then have "sha_r_tail io c0 data w = (c', w')" using u c0 by (simp add: sha256_hw_rupdate_def c0_def [symmetric])
    from r_tail_to [OF ok fr _ _ this] show ?thesis using h pe True c0 by simp
  next
    case False
    then have z: "0 < rbuf_len c" using n by (simp add: word_gt_0) (metis length_0_conv unsigned_0)
    let ?b = "put_bytes (unat (rbuf_len c)) (take ?k data) (rbuf c)"
    show ?thesis
    proof (cases "length data < 64 - length t")
      case True
      then have k: "?k = length data" "length t + length data < 64" by auto
      then have "rbuf_len c + of_nat (length data) < 64" using pf(3) by (simp add: word_less_nat_alt)
      then have "c' = c0\<lparr>rbuf := ?b, rbuf_len := rbuf_len c + of_nat (length data)\<rparr>" "w' = w"
        using u z n k by (auto simp: sha256_hw_rupdate_def c0_def Let_def)
      then show ?thesis using pf(4) k c0 n sha_to_refl [of view w, OF fr] by (auto simp: compress_short tail_short)
    next
      case False
      then have k: "?k = 64 - length t" "length (take ?k data) = 64 - length t" by auto
      have b: "?b = t @ take ?k data" "length ?b = 64" using pf(1,2) k n by auto
      have nl: "\<not> rbuf_len c + of_nat (64 - length t) < 64" using pf(3) k n by (simp add: word_less_nat_alt)
      obtain g w1 where r: "sha_r_blocks io (rh c) ?b 1 w = (g, w1)" by (cases "sha_r_blocks io (rh c) ?b 1 w")
      have rb: "g = p_cmp P (rh c) (words 8 ?b)" "\<exists>h'. sha_to view w h' w1"
        using r_blocks_to [OF ok fr h, of 1 ?b] b(2) r by (simp_all add: compress_one)
      then have fr1: "sha_free (view w1)" by (auto simp: sha_to_def)
      define c2 where "c2 = c0\<lparr>rbuf := ?b, rh := g, rbuf_len := 0\<rparr>"
      have u2: "sha_r_tail io c2 (drop ?k data) w1 = (c', w')"
        using u z n k nl r by (simp add: sha256_hw_rupdate_def c0_def Let_def c2_def)
      have c2: "rh c2 = g" "rtotal c2 = rtotal c0" "pending (rbuf c2) (rbuf_len c2) []" "length (rh c2) = 4"
        using pending_empty [OF b(2)] rb(1) sha_okD(4) [OF ok] by (simp_all add: c2_def)
      note rt = r_tail_to [OF ok fr1 c2(4,3) u2]
      have s: "t @ data = ?b @ drop ?k data" using b(1) by simp
      have "compress P (rh c) (t @ data) = compress P g (drop ?k data)" "tail_of (t @ data) = tail_of (drop ?k data)"
        unfolding s rb(1) using b(2) by (simp_all add: compress_append compress_one tail_of_append)
      then show ?thesis using rt c2 c0 rb(2) sha_to_trans by (metis (no_types, lifting))
    qed
  qed
qed

lemma length_digest [simp]: "length (digest h) = 32"
  by (simp add: digest_def length_concat upt_rec)

lemma digest_eq: "length h = 4 \<Longrightarrow> concat (map st64 h) = digest h"
proof -
  assume "length h = 4"
  then have "map st64 h = map (\<lambda>i. st64 (h ! i)) [0..<4]" by (intro nth_equalityI) auto
  then show ?thesis by (simp only: digest_def)
qed

lemma length_sha256 [simp]: "length (sha256 P msg) = 32"
  by (simp add: sha256_def)

lemma rinit_ctx: "length (rbuf c) = 64 \<Longrightarrow> rctx_of P (words 4 sha256_iv) 0 [] (sha256_hw_rinit c)"
  by (simp add: rctx_of_def sha256_hw_rinit_def compress_short tail_of_def pending_def)

lemma rinit_from_ctx: "length (rbuf c) = 64 \<Longrightarrow> length h = 4 \<Longrightarrow> rctx_of P h k [] (sha256_hw_rinit_from c h (of_nat k))"
  by (simp add: rctx_of_def sha256_hw_rinit_from_def compress_short tail_of_def pending_def)

lemma rupdate_ctx:
  assumes ok: "sha_ok P io view" and fr: "sha_free (view w)" and c: "rctx_of P h0 k msg c"
  shows "rctx_of P h0 k (msg @ data) (fst (sha256_hw_rupdate io c data w))" "\<exists>h'. sha_to view w h' (snd (sha256_hw_rupdate io c data w))"
proof -
  obtain c' w' where u: "sha256_hw_rupdate io c data w = (c', w')" by (cases "sha256_hw_rupdate io c data w")
  have "length (rh c) = 4" "pending (rbuf c) (rbuf_len c) (tail_of msg)"
    using c length_compress [OF ok] by (simp_all add: rctx_of_def)
  note up = rupdate_to [OF ok fr this u]
  show "rctx_of P h0 k (msg @ data) (fst (sha256_hw_rupdate io c data w))" "\<exists>h'. sha_to view w h' (snd (sha256_hw_rupdate io c data w))"
    using c up by (simp_all add: u rctx_of_def absorb_append(2) [symmetric] absorb_append(1) [symmetric])
qed

lemma rfinal_ctx:
  assumes ok: "sha_ok P io view" and fr: "sha_free (view w)" and pre: "64 dvd length pre"
    and c: "rctx_of P (compress P (words 4 sha256_iv) pre) (length pre) msg c"
  shows "fst (sha256_hw_rfinal io c w) = sha256 P (pre @ msg)" "\<exists>h'. sha_to view w h' (snd (snd (sha256_hw_rfinal io c w)))"
    "length (rbuf (fst (snd (sha256_hw_rfinal io c w)))) = 64"
proof -
  let ?t = "tail_of msg" and ?h0 = "compress P (words 4 sha256_iv) pre"
  have t: "take (unat (rbuf_len c)) (rbuf c) = ?t" and l: "length (rbuf c) = 64" and h: "rh c = compress P ?h0 msg"
    and tot: "rtotal c = of_nat (length (pre @ msg))"
    using c by (auto simp: rctx_of_def pending_def)
  define pad where "pad = fold (\<lambda>i p. p[padblocks ?t * 64 - 1 - i := ucast (drop_bit (8 * i) (rtotal c * 8))]) [0..<8] (pad_start ?t)"
  have tp: "take (64 * padblocks ?t) pad = pad_field ?t (rev (st64 (rtotal c * 8)))"
    unfolding pad_def using pad_bufs(2) [OF fulls_tail(3), of msg "rtotal c * 8"] by (simp add: mult.commute)
  have lp: "64 * padblocks ?t \<le> length pad"
    using fulls_tail(3) [of msg] padblocks_cases [of ?t] by (auto simp: pad_def length_fold_upd)
  obtain g w1 where r: "sha_r_blocks io (rh c) pad (padblocks ?t) w = (g, w1)" by (cases "sha_r_blocks io (rh c) pad (padblocks ?t) w")
  have l4: "length (rh c) = 4" using length_compress [OF ok] by (simp add: h)
  have rb: "g = compress P (rh c) (pad_field ?t (rev (st64 (rtotal c * 8))))" "\<exists>h'. sha_to view w h' w1"
    using r_blocks_to [OF ok fr l4 lp] r tp by simp_all
  have e: "sha256_hw_rfinal io c w = (concat (map st64 g), c\<lparr>rh := g, rbuf_len := 0\<rparr>, w1)"
    unfolding sha256_hw_rfinal_def Let_def t pad_def [symmetric] r by simp
  have "compress P (words 4 sha256_iv) (sha_pad (pre @ msg)) = g"
    unfolding pad_compress rb(1) h tot by (simp add: compress_append [OF pre] tail_of_append [OF pre])
  moreover have "length g = 4" unfolding rb(1) using length_compress [OF ok l4] .
  ultimately show "fst (sha256_hw_rfinal io c w) = sha256 P (pre @ msg)" by (simp add: e sha256_def digest_eq)
  show "\<exists>h'. sha_to view w h' (snd (snd (sha256_hw_rfinal io c w)))" "length (rbuf (fst (snd (sha256_hw_rfinal io c w)))) = 64"
    using rb(2) l by (simp_all add: e)
qed

section \<open>HMAC routines\<close>

lemma pad_key_map: "length k \<le> 64 \<Longrightarrow> map (\<lambda>b. b XOR c) (put_bytes 0 k (replicate 64 0)) = pad_key c k"
  by (simp add: pad_key_def put_bytes_def)

lemma length_pad_key [simp]: "length k \<le> 64 \<Longrightarrow> length (pad_key c k) = 64"
  by (simp add: pad_key_def)

lemma midstate_compress: "length k \<le> 64 \<Longrightarrow> midstate P c k = compress P (words 4 sha256_iv) (pad_key c k)"
  by (simp add: midstate_def compress_one)

definition hkey :: "prims \<Rightarrow> bytes \<Rightarrow> bytes" where
  "hkey P key = (if length key > 64 then sha256 P key else key)"

lemma length_hkey: "length (hkey P key) \<le> 64"
  by (simp add: hkey_def)

lemma hmac_hkey: "hmac P key msg = sha256 P (pad_key 0x5C (hkey P key) @ sha256 P (pad_key 0x36 (hkey P key) @ msg))"
  by (simp add: hmac_def hkey_def Let_def)

lemma rmac_eq:
  assumes ok: "sha_ok P io view" and fr: "sha_free (view w)" and k: "length k \<le> 64"
    and key: "ih hk = midstate P 0x36 k" "oh hk = midstate P 0x5C k"
  shows "fst (hmac_sha256_hw_rmac io hk msg w) = sha256 P (pad_key 0x5C k @ sha256 P (pad_key 0x36 k @ msg))"
    "\<exists>h'. sha_to view w h' (snd (hmac_sha256_hw_rmac io hk msg w))"
proof -
  have l4: "length (midstate P c k) = 4" for c by (simp add: midstate_def sha_okD(4) [OF ok])
  have p64: "64 dvd length (pad_key c k)" "length (pad_key c k) = 64" for c using k by simp_all
  define c0 where "c0 = sha256_hw_rinit_from zero_rctx (ih hk) 64"
  have "rctx_of P (midstate P 0x36 k) 64 [] c0"
    unfolding c0_def key using rinit_from_ctx [OF _ l4 [of "0x36"], where k = 64 and c = zero_rctx] by (simp add: zero_rctx_def)
  note u1 = rupdate_ctx [OF ok fr this, of msg]
  obtain c1 w1 where e1: "sha256_hw_rupdate io c0 msg w = (c1, w1)" by (cases "sha256_hw_rupdate io c0 msg w")
  have fr1: "sha_free (view w1)" using u1(2) e1 by (auto simp: sha_to_def)
  have "rctx_of P (compress P (words 4 sha256_iv) (pad_key 0x36 k)) (length (pad_key 0x36 k)) msg c1"
    using u1(1) e1 k by (simp add: midstate_compress)
  note f1 = rfinal_ctx [OF ok fr1 p64(1) this]
  obtain inner c2 w2 where e2: "sha256_hw_rfinal io c1 w1 = (inner, c2, w2)" by (cases "sha256_hw_rfinal io c1 w1")
  have fr2: "sha_free (view w2)" using f1(2) e2 by (auto simp: sha_to_def)
  define c3 where "c3 = sha256_hw_rinit_from c2 (oh hk) 64"
  have "rctx_of P (midstate P 0x5C k) 64 [] c3"
    unfolding c3_def key using rinit_from_ctx [OF _ l4 [of "0x5C"], where k = 64 and c = c2] f1(3) e2 by simp
  note u2 = rupdate_ctx [OF ok fr2 this, of inner]
  obtain c4 w4 where e3: "sha256_hw_rupdate io c3 inner w2 = (c4, w4)" by (cases "sha256_hw_rupdate io c3 inner w2")
  have fr4: "sha_free (view w4)" using u2(2) e3 by (auto simp: sha_to_def)
  have "rctx_of P (compress P (words 4 sha256_iv) (pad_key 0x5C k)) (length (pad_key 0x5C k)) inner c4"
    using u2(1) e3 k by (simp add: midstate_compress)
  note f2 = rfinal_ctx [OF ok fr4 p64(1) this]
  obtain out c5 w5 where e4: "sha256_hw_rfinal io c4 w4 = (out, c5, w5)" by (cases "sha256_hw_rfinal io c4 w4")
  have e: "hmac_sha256_hw_rmac io hk msg w = (out, w5)"
    unfolding hmac_sha256_hw_rmac_def Let_def c0_def [symmetric] e1 by (simp add: e2 c3_def [symmetric] e3 e4)
  show "fst (hmac_sha256_hw_rmac io hk msg w) = sha256 P (pad_key 0x5C k @ sha256 P (pad_key 0x36 k @ msg))"
    using f1(1) f2(1) e2 e4 by (simp add: e)
  show "\<exists>h'. sha_to view w h' (snd (hmac_sha256_hw_rmac io hk msg w))"
    using sha_ret_trans [OF sha_ret_trans [OF sha_ret_trans [OF u1(2) [unfolded e1 snd_conv] f1(2) [unfolded e2 snd_conv]]
      u2(2) [unfolded e3 snd_conv]] f2(2) [unfolded e4 snd_conv]] by (simp add: e)
qed

lemma rkey_eq:
  assumes ok: "sha_ok P io view" and fr: "sha_free (view w)"
  shows "fst (hmac_sha256_hw_rkey io key w) = \<lparr>ih = midstate P 0x36 (hkey P key), oh = midstate P 0x5C (hkey P key)\<rparr>"
    "\<exists>h'. sha_to view w h' (snd (hmac_sha256_hw_rkey io key w))"
proof -
  let ?iv = "words 4 sha256_iv" and ?k = "hkey P key"
  define s where "s = (if length key > 64 then
      (case sha256_hw_rupdate io (sha256_hw_rinit zero_rctx) key w of (c1, u1) \<Rightarrow>
        (case sha256_hw_rfinal io c1 u1 of (out, c2, u2) \<Rightarrow> (put_bytes 0 out (replicate 64 0), u2)))
      else (put_bytes 0 key (replicate 64 0), w))"
  have s: "fst s = put_bytes 0 ?k (replicate 64 0) \<and> (\<exists>h. sha_to view w h (snd s))"
  proof (cases "length key > 64")
    case True
    have "rctx_of P ?iv 0 [] (sha256_hw_rinit zero_rctx)" by (rule rinit_ctx) (simp add: zero_rctx_def)
    note u = rupdate_ctx [OF ok fr this, of key]
    obtain c1 w1 where e1: "sha256_hw_rupdate io (sha256_hw_rinit zero_rctx) key w = (c1, w1)"
      by (cases "sha256_hw_rupdate io (sha256_hw_rinit zero_rctx) key w")
    have fr1: "sha_free (view w1)" using u(2) e1 by (auto simp: sha_to_def)
    have "rctx_of P (compress P ?iv []) (length []) key c1" using u(1) e1 by (simp add: compress_short)
    note f = rfinal_ctx [OF ok fr1 _ this]
    have "\<exists>h. sha_to view w h (snd (snd (sha256_hw_rfinal io c1 w1)))"
      using sha_ret_trans [OF u(2) [unfolded e1 snd_conv] f(2)] by simp
    then show ?thesis using True f(1) by (simp add: s_def e1 hkey_def case_prod_beta)
  next
    case False
    then show ?thesis using sha_to_refl [of view w, OF fr] by (auto simp: s_def hkey_def)
  qed
  then have fr1: "sha_free (view (snd s))" by (auto simp: sha_to_def)
  note pk = pad_key_map [OF length_hkey] length_pad_key [OF length_hkey]
  have b: "fst (sha_r_blocks io ?iv (map (\<lambda>b. b XOR c) (fst s)) 1 u) = midstate P c ?k"
    "\<exists>h. sha_to view u h (snd (sha_r_blocks io ?iv (map (\<lambda>b. b XOR c) (fst s)) 1 u))" if "sha_free (view u)" for c u
    using r_blocks_to [OF ok that, of ?iv 1 "map (\<lambda>b. b XOR c) (fst s)"] s pk by (simp_all add: midstate_compress [OF length_hkey])
  let ?u = "snd (sha_r_blocks io ?iv (map (\<lambda>b. b XOR 0x36) (fst s)) 1 (snd s))"
  have fr2: "sha_free (view ?u)" using b(2) [OF fr1, of "0x36"] by (auto simp: sha_to_def)
  have e: "hmac_sha256_hw_rkey io key w =
      (\<lparr>ih = fst (sha_r_blocks io ?iv (map (\<lambda>b. b XOR 0x36) (fst s)) 1 (snd s)),
        oh = fst (sha_r_blocks io ?iv (map (\<lambda>b. b XOR 0x5C) (fst s)) 1 ?u)\<rparr>,
       snd (sha_r_blocks io ?iv (map (\<lambda>b. b XOR 0x5C) (fst s)) 1 ?u))"
    unfolding hmac_sha256_hw_rkey_def Let_def s_def [symmetric] by (simp add: case_prod_beta sha256_hw_rinit_def)
  show "fst (hmac_sha256_hw_rkey io key w) = \<lparr>ih = midstate P 0x36 ?k, oh = midstate P 0x5C ?k\<rparr>"
    unfolding e using b(1) fr1 fr2 by simp
  show "\<exists>h'. sha_to view w h' (snd (hmac_sha256_hw_rkey io key w))"
    unfolding e snd_conv by (rule sha_ret_trans [OF sha_ret_trans [OF s [THEN conjunct2] b(2) [OF fr1]] b(2) [OF fr2]])
qed

lemma hmac_sw_eq:
  assumes ok: "sha_ok P io view" and fr: "sha_free (view w)"
  shows "fst (hmac_sha256_sw io key msg w) = hmac P key msg"
proof -
  let ?k = "hkey P key"
  define s where "s = (if length key > 64 then (case sha256_hw io key w of (d, u) \<Rightarrow> (put_bytes 0 d (replicate 64 0), u))
      else (put_bytes 0 key (replicate 64 0), w))"
  have s: "fst s = put_bytes 0 ?k (replicate 64 0)" and fr1: "sha_free (view (snd s))"
    using sha256_hw_eq [OF ok fr, of key] fr by (auto simp: s_def hkey_def case_prod_beta sha_to_def)
  note pk = pad_key_map [OF length_hkey]
  define i where "i = sha256_hw_init io zero_ctx (snd s)"
  define a where "a = sha256_hw_update io (fst i) (pad_key 0x36 ?k) (snd i)"
  define b where "b = sha256_hw_update io (fst a) msg (snd a)"
  define c where "c = sha256_hw_final io (fst b) (snd b)"
  have "ctx_of P view [] (fst i) (snd i)" unfolding i_def by (rule init_ctx [OF ok fr1]) (simp add: zero_ctx_def)
  from update_ctx [OF ok this] have "ctx_of P view (pad_key 0x36 ?k) (fst a) (snd a)" by (simp add: a_def)
  from update_ctx [OF ok this] have "ctx_of P view (pad_key 0x36 ?k @ msg) (fst b) (snd b)" by (simp add: b_def)
  note f = final_ctx [OF ok this, folded c_def]
  define j where "j = sha256_hw_init io (fst (snd c)) (snd (snd c))"
  define d where "d = sha256_hw_update io (fst j) (pad_key 0x5C ?k) (snd j)"
  define g where "g = sha256_hw_update io (fst d) (fst c) (snd d)"
  have "ctx_of P view [] (fst j) (snd j)" unfolding j_def by (rule init_ctx [OF ok f(2,3)])
  from update_ctx [OF ok this] have "ctx_of P view (pad_key 0x5C ?k) (fst d) (snd d)" by (simp add: d_def)
  from update_ctx [OF ok this] have "ctx_of P view (pad_key 0x5C ?k @ fst c) (fst g) (snd g)" by (simp add: g_def)
  note r = final_ctx(1) [OF ok this]
  have "fst (hmac_sha256_sw io key msg w) = fst (sha256_hw_final io (fst g) (snd g))"
    unfolding hmac_sha256_sw_def Let_def s_def [symmetric]
    by (simp add: s pk case_prod_beta g_def d_def j_def c_def b_def a_def i_def)
  then show ?thesis by (simp add: r f(1) hmac_hkey)
qed

lemma hmac_spin:
  assumes "sha_ok P io view"
  shows "view (spin io HMAC_WAIT w) = (view w)\<lparr>d_sha := (d_sha (view w))\<lparr>h_keybusy := False\<rparr>\<rparr>"
  by (rule sha_okD(2) [OF assms]) simp

lemma concat_words: "length k = 8 * n \<Longrightarrow> concat (map st64 (words n k)) = k"
proof (induction n arbitrary: k)
  case (Suc n)
  have "words (Suc n) k = ld64 (take 8 k) # words n (drop 8 k)"
    unfolding words_def by (simp add: map_upt_Suc ld64_take add.commute del: upt_Suc)
  then show ?case using Suc.IH [of "drop 8 k"] Suc.prems st64_ld64 [of "take 8 k"] by simp
qed (simp add: words_def)

lemma pad_key_zero: "length k \<le> 32 \<Longrightarrow> pad_key c (put_bytes 0 k (replicate 32 0)) = pad_key c k"
  by (simp add: pad_key_def put_bytes_def flip: replicate_add)

lemma outer_block:
  assumes "length inner = 32"
  shows "fold (\<lambda>i p. p[63 - i := ucast (drop_bit (i * 8) v)]) [0..<8] ((put_bytes 0 inner (replicate 64 0))[32 := 0x80]) =
    pad_field inner (rev (st64 v))"
proof -
  let ?p = "(put_bytes 0 inner (replicate 64 0))[32 := 0x80]"
  have "64 - Suc i = 63 - i" for i by simp
  then have "fold (\<lambda>i p. p[63 - i := ucast (drop_bit (i * 8) v)]) [0..<8] ?p = take 56 ?p @ rev (st64 v) @ drop 64 ?p"
    using fold_upd_down [of 8 64 ?p "\<lambda>i. ucast (drop_bit (i * 8) v)"] assms by (simp add: put_bytes_def st64_def mult.commute)
  moreover have "replicate 32 (0 :: u8) = 0 # replicate 31 0" by (simp add: numeral_eq_Suc)
  then have "take 56 ?p = inner @ 0x80 # replicate 23 0" "drop 64 ?p = []"
    using assms by (simp_all add: put_bytes_def list_update_append)
  ultimately show ?thesis using assms by (simp add: pad_field_def padblocks_def)
qed

lemma hmac_load_to:
  assumes ok: "sha_ok P io view" and fr: "sha_free (view w)"
    and c: "c = HMAC_CTRL_START \<and> h = h_inner (d_sha (view w)) \<or> c = HMAC_CTRL_FINAL \<and> h = h_outer (d_sha (view w))"
  shows "sha_to view w h (spin io HMAC_WAIT (wr io HMAC_CTRL c w))"
proof -
  have "view (wr io HMAC_CTRL c w) = (view w)\<lparr>d_sha := (d_sha (view w))\<lparr>h_state := h, h_phase := ShaIdle\<rparr>\<rparr>"
    by (rule sha_okD(1) [OF ok]) (use fr c in \<open>auto simp: sha_free_def sha_regs\<close>)
  then show ?thesis using fr by (simp add: hmac_spin [OF ok] sha_to_def sha_free_def)
qed

lemma hmac_keyload:
  assumes ok: "sha_ok P io view" and fr: "sha_free (view w)" and k: "length k \<le> 32"
  defines "kb \<equiv> put_bytes 0 k (replicate 32 0)"
  defines "v \<equiv> spin io HMAC_WAIT (wr io HMAC_CTRL HMAC_CTRL_KEY_LOAD (fold (\<lambda>i. wr io (HMAC_KEY i) (ld64 (drop (8 * i) kb))) [0..<4] w))"
  shows "sha_free (view v)" "h_inner (d_sha (view v)) = midstate P 0x36 k" "h_outer (d_sha (view v)) = midstate P 0x5C k"
    "d_aes (view v) = d_aes (view w)" "d_gcm (view v) = d_gcm (view w)"
proof -
  let ?w1 = "fold (\<lambda>i. wr io (HMAC_KEY i) (ld64 (drop (8 * i) kb))) [0..<4] w"
  have lb: "length kb = 32" using k by (simp add: kb_def put_bytes_def)
  have w1: "view ?w1 = (view w)\<lparr>d_sha := (d_sha (view w))\<lparr>h_key := words 4 kb\<rparr>\<rparr>"
    using fold_hkey [OF ok fr, of "\<lambda>i. ld64 (drop (8 * i) kb)" "[0..<4]"] fr by (simp add: fold_all sha_free_def words_def)
  have m: "midstate P c (concat (map st64 (words 4 kb))) = midstate P c k" for c
    using pad_key_zero [OF k, of c] concat_words [of kb 4] lb by (simp add: midstate_def kb_def)
  have "view (wr io HMAC_CTRL HMAC_CTRL_KEY_LOAD ?w1) = (view w)\<lparr>d_sha := (d_sha (view w))\<lparr>h_key := words 4 kb,
      h_inner := midstate P 0x36 k, h_outer := midstate P 0x5C k, h_keybusy := True\<rparr>\<rparr>"
    by (subst sha_okD(1) [OF ok]) (use fr w1 m in \<open>auto simp: sha_free_def sha_regs\<close>)
  then show "sha_free (view v)" "h_inner (d_sha (view v)) = midstate P 0x36 k" "h_outer (d_sha (view v)) = midstate P 0x5C k"
    "d_aes (view v) = d_aes (view w)" "d_gcm (view v) = d_gcm (view w)"
    using fr by (simp_all add: v_def hmac_spin [OF ok] sha_free_def)
qed

lemma hmac_hw_eq:
  assumes ok: "sha_ok P io view" and fr: "sha_free (view w)"
  shows "fst (hmac_sha256_hw io key msg w) = hmac P (take 32 key) msg"
proof -
  let ?iv = "words 4 sha256_iv" and ?k = "take 32 key"
  have k: "length ?k \<le> 32" "length ?k \<le> 64" "hkey P ?k = ?k" by (simp_all add: hkey_def)
  define kb where "kb = put_bytes 0 ?k (replicate 32 0)"
  define w2 where "w2 = spin io HMAC_WAIT (wr io HMAC_CTRL HMAC_CTRL_KEY_LOAD
      (fold (\<lambda>i. wr io (HMAC_KEY i) (ld64 (drop (8 * i) kb))) [0..<4] w))"
  note kl = hmac_keyload [OF ok fr k(1), folded kb_def, folded w2_def]
  define w3 where "w3 = spin io HMAC_WAIT (wr io HMAC_CTRL HMAC_CTRL_START w2)"
  have t3: "sha_to view w2 (midstate P 0x36 ?k) w3" unfolding w3_def by (rule hmac_load_to [OF ok kl(1)]) (simp add: kl)
  obtain w4 where l: "sha_full_loop io msg w3 = (tail_of msg, w4)" "sha_to view w3 (compress P (midstate P 0x36 ?k) msg) w4"
    using full_loop_to [OF ok sha_toD(1) [OF t3], of msg] sha_toD(2) [OF t3] by (cases "sha_full_loop io msg w3") (simp add: tail_of_def)
  let ?t = "tail_of msg" and ?bits = "512 + of_nat (length msg) * 8 :: u64"
  define fin where "fin = fold (\<lambda>i p. p[padblocks ?t * 64 - 8 + 7 - i := ucast (drop_bit (i * 8) ?bits)]) [0..<8] (pad_start ?t)"
  have tp: "take (64 * padblocks ?t) fin = pad_field ?t (rev (st64 ?bits))"
    unfolding fin_def using pad_bufs(3) [OF fulls_tail(3), of msg ?bits] by (simp add: mult.commute)
  have lp: "64 * padblocks ?t \<le> length fin"
    using fulls_tail(3) [of msg] padblocks_cases [of ?t] by (auto simp: fin_def length_fold_upd)
  define w5 where "w5 = sha_process_full_blocks io fin (padblocks ?t) w4"
  have t5: "sha_to view w4 (compress P (compress P (midstate P 0x36 ?k) msg) (pad_field ?t (rev (st64 ?bits)))) w5"
    unfolding w5_def using process_full_blocks_to [OF ok sha_toD(1) [OF l(2)] lp] sha_toD(2) [OF l(2)] tp by simp
  have p64: "64 dvd length (pad_key c ?k)" for c using k(2) by simp
  have in0: "sha_read_digest io w5 = sha256 P (pad_key 0x36 ?k @ msg)"
    unfolding read_digest [OF ok sha_toD(1) [OF t5]] sha_toD(2) [OF t5] sha256_def pad_compress
    by (simp add: midstate_compress k(2) compress_append [OF p64] tail_of_append [OF p64])
  define w6 where "w6 = spin io HMAC_WAIT (wr io HMAC_CTRL HMAC_CTRL_FINAL w5)"
  have "h_outer (d_sha (view w5)) = midstate P 0x5C ?k" using t3 l(2) t5 kl(3) by (simp add: sha_to_def)
  then have t6: "sha_to view w5 (midstate P 0x5C ?k) w6" unfolding w6_def by (intro hmac_load_to [OF ok sha_toD(1) [OF t5]]) simp
  let ?in = "sha256 P (pad_key 0x36 ?k @ msg)"
  define ob where "ob = pad_field ?in (rev (st64 768))"
  note t7 = sha_do_block_to [OF ok sha_toD(1) [OF t6], of ob]
  have e: "hmac_sha256_hw io key msg w = (sha_read_digest io (sha_do_block io ob w6), sha_do_block io ob w6)"
    unfolding hmac_sha256_hw_def Let_def kb_def [symmetric] w2_def [symmetric] w3_def [symmetric] l(1) prod.case
      fin_def [symmetric] w5_def [symmetric] w6_def [symmetric] in0 outer_block [OF length_sha256] ob_def [symmetric] ..
  have "sha256 P (pad_key 0x5C ?k @ ?in) = digest (p_cmp P (midstate P 0x5C ?k) (words 8 ob))"
    unfolding sha256_def [of P "pad_key 0x5C ?k @ ?in"] pad_compress
    by (simp add: compress_append [OF p64] tail_of_append [OF p64] tail_short compress_short midstate_compress k(2) ob_def
        compress_one pad_field_def padblocks_def)
  then show ?thesis
    by (simp add: e read_digest [OF ok sha_toD(1) [OF t7]] sha_toD(2) [OF t7] sha_toD(2) [OF t6] hmac_hkey k(3))
qed

section \<open>Properties\<close>

text \<open>A whole message through the two incremental interfaces, in the pieces the caller makes.\<close>

definition sha_stream :: "'w cio \<Rightarrow> sha256_ctx \<Rightarrow> bytes list \<Rightarrow> 'w \<Rightarrow> bytes" where
  "sha_stream io c chunks w =
     (case fold (\<lambda>d (c, w). sha256_hw_update io c d w) chunks (sha256_hw_init io c w) of (c1, w1) \<Rightarrow> fst (sha256_hw_final io c1 w1))"

definition sha_rstream :: "'w cio \<Rightarrow> rctx \<Rightarrow> bytes list \<Rightarrow> 'w \<Rightarrow> bytes" where
  "sha_rstream io c chunks w =
     (case fold (\<lambda>d (c, w). sha256_hw_rupdate io c d w) chunks (sha256_hw_rinit c, w) of (c1, w1) \<Rightarrow> fst (sha256_hw_rfinal io c1 w1))"

lemma stream_ctx:
  assumes "sha_ok P io view"
  shows "ctx_of P view msg (fst s) (snd s) \<Longrightarrow>
    ctx_of P view (msg @ concat chunks) (fst (fold (\<lambda>d (c, w). sha256_hw_update io c d w) chunks s))
      (snd (fold (\<lambda>d (c, w). sha256_hw_update io c d w) chunks s))"
proof (induction chunks arbitrary: msg s)
  case (Cons d chunks)
  from Cons.IH [OF update_ctx [OF assms Cons.prems]] show ?case by (simp add: case_prod_beta)
qed simp

lemma rstream_ctx:
  assumes "sha_ok P io view"
  shows "rctx_of P h0 k msg (fst s) \<Longrightarrow> sha_free (view (snd s)) \<Longrightarrow>
    rctx_of P h0 k (msg @ concat chunks) (fst (fold (\<lambda>d (c, w). sha256_hw_rupdate io c d w) chunks s)) \<and>
    sha_free (view (snd (fold (\<lambda>d (c, w). sha256_hw_rupdate io c d w) chunks s)))"
proof (induction chunks arbitrary: msg s)
  case (Cons d chunks)
  note u = rupdate_ctx [OF assms Cons.prems(2,1), of d]
  have "sha_free (view (snd (sha256_hw_rupdate io (fst s) d (snd s))))" using u(2) by (auto simp: sha_to_def)
  from Cons.IH [OF u(1) this] show ?case by (simp add: case_prod_beta)
qed simp

text \<open>
  C7: the three ways to hash a message agree with the standard.  Given hardware that
  compresses blocks, the one-shot routine, the streaming interface and the save/restore
  interface return the SHA-256 digest of the whole message, for every message and every way
  of cutting it into pieces, empty ones included.
\<close>

theorem sha256_exact:
  assumes "sha_ok P io view" and "sha_free (view w)" and "length (ctx_buf c) = 64" and "length (rbuf r) = 64"
  shows "fst (sha256_hw io (concat chunks) w) = sha256 P (concat chunks) \<and>
    sha_stream io c chunks w = sha256 P (concat chunks) \<and> sha_rstream io r chunks w = sha256 P (concat chunks)"
proof -
  note s = stream_ctx [OF assms(1) init_ctx [OF assms(1-3)], of chunks]
  have "rctx_of P (compress P (words 4 sha256_iv) []) (length []) [] (fst (sha256_hw_rinit r, w))"
    using rinit_ctx [OF assms(4)] by (simp add: compress_short)
  note t = rstream_ctx [OF assms(1) this, of chunks] 
  show ?thesis
    using sha256_hw_eq(1) [OF assms(1,2)] final_ctx(1) [OF assms(1) s] t assms(2) rfinal_ctx(1) [OF assms(1), of _ "[]"]
    by (simp add: sha_stream_def sha_rstream_def case_prod_beta)
qed

theorem sha256_exact_witness:
  "sha_ok soft_prims soft_io id \<and> sha_stream soft_io zero_ctx [[1, 2], [], replicate 100 7] soft_dev = sha256 soft_prims ([1, 2] @ replicate 100 7)"
proof -
  have "sha_free (id soft_dev)" by (simp add: sha_free_def soft_dev_def)
  from sha256_exact [OF soft_ok(3) this, of zero_ctx zero_rctx "[[1, 2], [], replicate 100 7]"] show ?thesis
    using soft_ok(3) by (simp add: zero_ctx_def zero_rctx_def)
qed

text \<open>
  C35: the HMAC routines compute HMAC-SHA-256.  The software routine and the one from saved
  midstates do for keys of any length; the one on the HMAC hardware does for the first 32
  bytes of the key, so it is HMAC exactly for the keys its interface admits.
\<close>

theorem hmac_exact:
  assumes "sha_ok P io view" and "sha_free (view w)"
  shows "fst (hmac_sha256_sw io key msg w) = hmac P key msg \<and>
    fst (case hmac_sha256_hw_rkey io key w of (k, w1) \<Rightarrow> hmac_sha256_hw_rmac io k msg w1) = hmac P key msg \<and>
    fst (hmac_sha256_hw io key msg w) = hmac P (take 32 key) msg"
proof -
  note k = rkey_eq [OF assms, of key]
  have fr: "sha_free (view (snd (hmac_sha256_hw_rkey io key w)))" using k(2) by (auto simp: sha_to_def)
  show ?thesis
    using hmac_sw_eq [OF assms] hmac_hw_eq [OF assms] rmac_eq(1) [OF assms(1) fr length_hkey, of "fst (hmac_sha256_hw_rkey io key w)"]
    by (simp add: case_prod_beta k(1) hmac_hkey)
qed

theorem hmac_exact_witness:
  "sha_ok soft_prims soft_io id \<and> fst (hmac_sha256_hw soft_io [5, 6] [1] soft_dev) = hmac soft_prims [5, 6] [1] \<and>
   fst (hmac_sha256_sw soft_io (replicate 100 3) [1] soft_dev) = hmac soft_prims (replicate 100 3) [1]"
proof -
  have "sha_free (id soft_dev)" by (simp add: sha_free_def soft_dev_def)
  then show ?thesis
    using hmac_exact [OF soft_ok(3), of soft_dev "[5, 6]" "[1]"] hmac_exact [OF soft_ok(3), of soft_dev "replicate 100 3" "[1]"] soft_ok(3)
    by simp
qed

end
