(* ===== verification/Aes_Driver.thy ===== *)
theory Aes_Driver
  imports Crypto_Unit
begin

unbundle bit_operations_syntax

text \<open>
  The AES part of the crypto driver \<^verbatim>\<open>src/crypto_hw.c\<close>: single blocks, counter mode on the
  hardware counter and in software, and the three ways Galois/counter mode is computed (one
  overlapped pass, hardware counter mode, software counter).  They are compared with counter
  mode and GCM as the standards define them over a block cipher.
\<close>

section \<open>Blocks and counter mode\<close>

definition wr128 :: "'w cio \<Rightarrow> creg \<Rightarrow> creg \<Rightarrow> blk \<Rightarrow> 'w \<Rightarrow> 'w" where
  "wr128 io r0 r1 b w = wr io r1 (snd b) (wr io r0 (fst b) w)"

definition rd128 :: "'w cio \<Rightarrow> creg \<Rightarrow> creg \<Rightarrow> 'w \<Rightarrow> blk" where
  "rd128 io r0 r1 w = (rd io r0 w, rd io r1 w)"

definition aes_hw_set_key :: "'w cio \<Rightarrow> blk \<Rightarrow> 'w \<Rightarrow> 'w" where
  "aes_hw_set_key io key w = spin io AES_WAIT (wr io AES_CTRL AES_CTRL_KEY_LOAD (wr128 io AES_KEY0 AES_KEY1 key w))"

definition aes_hw_encrypt :: "'w cio \<Rightarrow> blk \<Rightarrow> 'w \<Rightarrow> blk \<times> 'w" where
  "aes_hw_encrypt io b w =
     (let w1 = spin io AES_WAIT (wr io AES_CTRL (AES_CTRL_GO OR AES_CTRL_ENC) (wr128 io AES_IN0 AES_IN1 b w))
      in (rd128 io AES_OUT0 AES_OUT1 w1, w1))"

definition aes_hw_decrypt :: "'w cio \<Rightarrow> blk \<Rightarrow> 'w \<Rightarrow> blk \<times> 'w" where
  "aes_hw_decrypt io b w =
     (let w1 = spin io AES_WAIT (wr io AES_CTRL AES_CTRL_GO (wr128 io AES_IN0 AES_IN1 b w))
      in (rd128 io AES_OUT0 AES_OUT1 w1, w1))"

text \<open>One block in counter mode: the write to \<^verbatim>\<open>AES_IN1\<close> starts it.\<close>

definition ctr_block :: "'w cio \<Rightarrow> blk \<Rightarrow> 'w \<Rightarrow> blk \<times> 'w" where
  "ctr_block io b w =
     (let w1 = spin io AES_WAIT_OUT (wr128 io AES_IN0 AES_IN1 b w) in (rd128 io AES_OUT0 AES_OUT1 w1, w1))"

function ctr_hw_loop :: "'w cio \<Rightarrow> bytes \<Rightarrow> 'w \<Rightarrow> bytes \<times> bytes \<times> 'w" where
  "ctr_hw_loop io inp w =
     (if 16 \<le> length inp then
        case ctr_block io (ld128 inp) w of (o1, w1) \<Rightarrow>
          (case ctr_hw_loop io (drop 16 inp) w1 of (out, rest, w2) \<Rightarrow> (st128 o1 @ out, rest, w2))
      else ([], inp, w))"
  by auto
termination by (relation "measure (\<lambda>(io, inp, w). length inp)") auto

definition pad16 :: "bytes \<Rightarrow> bytes" where
  "pad16 p = p @ replicate (16 - length p) 0"

text \<open>The counter after the call and, for a partial block, its whole keystream if asked for.\<close>

definition aes_ctr_hw :: "'w cio \<Rightarrow> bytes \<Rightarrow> bytes \<Rightarrow> bool \<Rightarrow> bytes option \<Rightarrow> 'w \<Rightarrow> bytes \<times> bytes \<times> bytes option \<times> 'w" where
  "aes_ctr_hw io ctr inp inc32 ks_tail w =
     (let w1 = wr128 io AES_CTR0 AES_CTR1 (ld128 ctr) (spin io AES_WAIT w);
          w2 = wr io AES_MODE (AES_MODE_CTR OR (if inc32 then AES_MODE_INC32 else 0)) w1;
          (out, rest, w3) = ctr_hw_loop io inp w2;
          (out2, ks2, w4) =
            (if rest \<noteq> [] then
               case ctr_block io (ld128 (pad16 rest)) w3 of (o1, u) \<Rightarrow>
                 (take (length rest) (st128 o1), map_option (\<lambda>_. xor_bytes (st128 o1) (pad16 rest)) ks_tail, u)
             else ([], ks_tail, w3))
      in (out @ out2, st128 (rd128 io AES_CTR0 AES_CTR1 w4), ks2, wr io AES_MODE 0 w4))"

text \<open>The software counter: big-endian, carried from the second word into the first.\<close>

definition ctr_step :: "blk \<Rightarrow> blk" where
  "ctr_step c =
     (let hi_be = bswap64 (snd c) + 1
      in (if hi_be = 0 then bswap64 (bswap64 (fst c) + 1) else fst c, bswap64 hi_be))"

function ctr_sw :: "'w cio \<Rightarrow> blk \<Rightarrow> bytes \<Rightarrow> 'w \<Rightarrow> bytes \<times> 'w" where
  "ctr_sw io c inp w =
     (if 16 \<le> length inp then
        case aes_hw_encrypt io c w of (ks, w1) \<Rightarrow>
          (case ctr_sw io (ctr_step c) (drop 16 inp) w1 of (out, w2) \<Rightarrow> (st128 (xor2 (ld128 inp) ks) @ out, w2))
      else if inp \<noteq> [] then
        case aes_hw_encrypt io c w of (ks, w1) \<Rightarrow> (xor_bytes inp (st128 ks), w1)
      else ([], w))"
  by auto
termination by (relation "measure (\<lambda>(io, c, inp, w). length inp)") auto

definition aes_ctr :: "'w cio \<Rightarrow> blk \<Rightarrow> bytes \<Rightarrow> 'w \<Rightarrow> bytes \<times> 'w" where
  "aes_ctr io nonce inp w =
     (if aes_cap io AND AES_CAP_CTR \<noteq> 0 then
        case aes_ctr_hw io (st128 nonce) inp False None w of (out, ctr, ks, w1) \<Rightarrow> (out, w1)
      else ctr_sw io nonce inp w)"

definition aes_ctr_full :: "'w cio \<Rightarrow> blk \<Rightarrow> blk \<Rightarrow> bytes \<Rightarrow> 'w \<Rightarrow> bytes \<times> 'w" where
  "aes_ctr_full io key nonce inp w = aes_ctr io nonce inp (aes_hw_set_key io key w)"

section \<open>Galois/counter mode\<close>

definition ctr_inc :: "bytes \<Rightarrow> bytes" where
  "ctr_inc ctr = inc_loop 4 15 ctr"

definition gcm_ghash_block :: "'w cio \<Rightarrow> blk \<Rightarrow> 'w \<Rightarrow> 'w" where
  "gcm_ghash_block io b w = spin io GCM_WAIT (wr io GCM_CTRL GCM_CTRL_GO (wr128 io GCM_X0 GCM_X1 b w))"

definition ghash_block :: "'w cio \<Rightarrow> bytes \<Rightarrow> 'w \<Rightarrow> 'w" where
  "ghash_block io data w =
     (if length data = 16 then gcm_ghash_block io (ld128 data) w else gcm_ghash_block io (ld128 (pad16 (take 16 data))) w)"

function ghash_bytes :: "'w cio \<Rightarrow> bytes \<Rightarrow> 'w \<Rightarrow> 'w" where
  "ghash_bytes io data w = (if data \<noteq> [] then ghash_bytes io (drop 16 data) (ghash_block io (take 16 data) w) else w)"
  by auto
termination by (relation "measure (\<lambda>(io, data, w). length data)") auto

definition gcm_j0 :: "bytes \<Rightarrow> bytes" where
  "gcm_j0 iv = (take 12 iv @ replicate 4 0)[15 := 1]"

text \<open>GHASH takes a block over while the AES unit is running.\<close>

definition gcm_feed :: "'w cio \<Rightarrow> blk \<Rightarrow> 'w \<Rightarrow> 'w" where
  "gcm_feed io b w = wr io GCM_CTRL GCM_CTRL_GO (wr128 io GCM_X0 GCM_X1 b (spin io GCM_WAIT w))"

function gcm_loop :: "'w cio \<Rightarrow> bool \<Rightarrow> blk option \<Rightarrow> bytes \<Rightarrow> 'w \<Rightarrow> bytes \<times> blk option \<times> bytes \<times> 'w" where
  "gcm_loop io dec pend inp w =
     (if 16 \<le> length inp then
        let i = ld128 inp;
            w1 = wr128 io AES_IN0 AES_IN1 i w;
            pend1 = (if dec then Some i else pend);
            w2 = (case pend1 of None \<Rightarrow> w1 | Some p \<Rightarrow> gcm_feed io p w1);
            w3 = spin io AES_WAIT_OUT w2;
            out1 = rd128 io AES_OUT0 AES_OUT1 w3;
            (out, pend2, rest, w4) = gcm_loop io dec (if dec then None else Some out1) (drop 16 inp) w3
        in (st128 out1 @ out, pend2, rest, w4)
      else ([], pend, inp, w))"
  by auto
termination by (relation "measure (\<lambda>(io, dec, pend, inp, w). length inp)") auto

text \<open>The partial block after the loop: only its ciphertext bytes are hashed, zero-padded.\<close>

definition gcm_last :: "'w cio \<Rightarrow> bool \<Rightarrow> bytes \<Rightarrow> 'w \<Rightarrow> bytes \<times> 'w" where
  "gcm_last io dec rest w =
     (if rest \<noteq> [] then
        case ctr_block io (ld128 (pad16 rest)) w of (o1, u) \<Rightarrow>
          let c = (if dec then pad16 rest else st128 o1);
              h = pad16 (take (length rest) c)
          in (take (length rest) (st128 o1), gcm_ghash_block io (ld128 h) (spin io GCM_WAIT u))
      else ([], w))"

definition gcm_ctr_ghash :: "'w cio \<Rightarrow> bytes \<Rightarrow> bool \<Rightarrow> 'w \<Rightarrow> bytes \<times> 'w" where
  "gcm_ctr_ghash io inp dec w =
     (let (out, pend, rest, w1) = gcm_loop io dec None inp w;
          w2 = (case pend of None \<Rightarrow> w1 | Some p \<Rightarrow> gcm_feed io p w1);
          (out2, w3) = gcm_last io dec rest w2
      in (out @ out2, wr io AES_MODE 0 (spin io GCM_WAIT w3)))"

definition ctr_inc32_caps :: "'w cio \<Rightarrow> bool" where
  "ctr_inc32_caps io \<longleftrightarrow> aes_cap io AND (AES_CAP_CTR OR AES_CAP_INC32) = AES_CAP_CTR OR AES_CAP_INC32"

text \<open>\<open>sp\<close> is the switch \<^verbatim>\<open>aes_gcm_single_pass\<close>.\<close>

definition gcm_ctr_caps :: "'w cio \<Rightarrow> bool \<Rightarrow> bool" where
  "gcm_ctr_caps io sp \<longleftrightarrow> sp \<and> ctr_inc32_caps io"

definition gcm_load_h :: "'w cio \<Rightarrow> 'w \<Rightarrow> 'w" where
  "gcm_load_h io w =
     (let w1 = spin io AES_WAIT (wr io AES_CTRL (AES_CTRL_GO OR AES_CTRL_ENC) (wr128 io AES_IN0 AES_IN1 (0, 0) w))
      in wr128 io GCM_H0 GCM_H1 (rd128 io AES_OUT0 AES_OUT1 w1) w1)"

definition gcm_ctr_setup :: "'w cio \<Rightarrow> bytes \<Rightarrow> bytes \<Rightarrow> 'w \<Rightarrow> blk \<times> 'w" where
  "gcm_ctr_setup io iv aad w =
     (let w1 = gcm_load_h io (wr io AES_MODE 0 (spin io AES_WAIT w));
          w2 = ghash_bytes io aad (wr io GCM_CTRL GCM_CTRL_RESET w1);
          w3 = wr io AES_MODE (AES_MODE_CTR OR AES_MODE_INC32) (wr128 io AES_CTR0 AES_CTR1 (ld128 (gcm_j0 iv)) w2)
      in ctr_block io (0, 0) w3)"

definition gcm_lens :: "bytes \<Rightarrow> bytes \<Rightarrow> blk" where
  "gcm_lens aad ct = (bswap64 (of_nat (length aad) * 8), bswap64 (of_nat (length ct) * 8))"

definition gcm_ctr_tag :: "'w cio \<Rightarrow> bytes \<Rightarrow> bytes \<Rightarrow> blk \<Rightarrow> 'w \<Rightarrow> bytes \<times> 'w" where
  "gcm_ctr_tag io aad ct m w =
     (let w1 = gcm_ghash_block io (gcm_lens aad ct) w in (st128 (xor2 (rd128 io GCM_TAG0 GCM_TAG1 w1) m), w1))"

text \<open>The software counter loops; encryption hashes each ciphertext block as it goes.\<close>

function gcm_sw_enc :: "'w cio \<Rightarrow> bytes \<Rightarrow> bytes \<Rightarrow> 'w \<Rightarrow> bytes \<times> 'w" where
  "gcm_sw_enc io ctr pt w =
     (if pt \<noteq> [] then
        let ctr1 = ctr_inc ctr;
            (ks, w1) = aes_hw_encrypt io (ld128 ctr1) w;
            cblk = take (min 16 (length pt)) (st128 (xor2 (ld128 (pad16 (take 16 pt))) ks));
            (ct, w2) = gcm_sw_enc io ctr1 (drop 16 pt) (ghash_block io cblk w1)
        in (cblk @ ct, w2)
      else ([], w))"
  by auto
termination by (relation "measure (\<lambda>(io, ctr, pt, w). length pt)") auto

function gcm_sw_dec :: "'w cio \<Rightarrow> bytes \<Rightarrow> bytes \<Rightarrow> 'w \<Rightarrow> bytes \<times> 'w" where
  "gcm_sw_dec io ctr ct w =
     (if ct \<noteq> [] then
        let ctr1 = ctr_inc ctr;
            (ks, w1) = aes_hw_encrypt io (ld128 ctr1) w;
            (pt, w2) = gcm_sw_dec io ctr1 (drop 16 ct) w1
        in (take (min 16 (length ct)) (st128 (xor2 (ld128 (pad16 (take 16 ct))) ks)) @ pt, w2)
      else ([], w))"
  by auto
termination by (relation "measure (\<lambda>(io, ctr, ct, w). length ct)") auto

text \<open>Step 5 of the encryption: the ciphertext, hashed after it or block by block.\<close>

definition gcm_enc_body :: "'w cio \<Rightarrow> bytes \<Rightarrow> bytes \<Rightarrow> 'w \<Rightarrow> bytes \<times> 'w" where
  "gcm_enc_body io iv pt w =
     (if ctr_inc32_caps io then
        case aes_ctr_hw io ((gcm_j0 iv)[15 := 2]) pt True None w of (ct, ctr, ks, u) \<Rightarrow> (ct, ghash_bytes io ct u)
      else gcm_sw_enc io (gcm_j0 iv) pt w)"

definition aes_gcm_encrypt :: "'w cio \<Rightarrow> bool \<Rightarrow> bytes \<Rightarrow> bytes \<Rightarrow> bytes \<Rightarrow> 'w \<Rightarrow> bytes \<times> bytes \<times> 'w" where
  "aes_gcm_encrypt io sp iv aad pt w =
     (if gcm_ctr_caps io sp then
        let (m, w1) = gcm_ctr_setup io iv aad w;
            (ct, w2) = gcm_ctr_ghash io pt False w1;
            (tag, w3) = gcm_ctr_tag io aad pt m w2
        in (ct, tag, w3)
      else
        let w1 = gcm_load_h io w;
            (m, w2) = aes_hw_encrypt io (ld128 (gcm_j0 iv)) w1;
            w3 = ghash_bytes io aad (wr io GCM_CTRL GCM_CTRL_RESET w2);
            (ct, w4) = gcm_enc_body io iv pt w3;
            w5 = gcm_ghash_block io (gcm_lens aad pt) w4
        in (ct, st128 (xor2 (rd128 io GCM_TAG0 GCM_TAG1 w5) m), w5))"

text \<open>The comparison that does not stop at the first difference.\<close>

definition tag_diff :: "bytes \<Rightarrow> bytes \<Rightarrow> u8" where
  "tag_diff a b = fold (\<lambda>i d. d OR (a ! i XOR b ! i)) [0..<16] 0"

definition aes_gcm_decrypt :: "'w cio \<Rightarrow> bool \<Rightarrow> bytes \<Rightarrow> bytes \<Rightarrow> bytes \<Rightarrow> bytes \<Rightarrow> 'w \<Rightarrow> int \<times> bytes \<times> 'w" where
  "aes_gcm_decrypt io sp iv aad ct tag_in w =
     (if gcm_ctr_caps io sp then
        let (m, w1) = gcm_ctr_setup io iv aad w;
            (pt, w2) = gcm_ctr_ghash io ct True w1;
            (computed_tag, w3) = gcm_ctr_tag io aad ct m w2
        in if tag_diff computed_tag tag_in \<noteq> 0 then (- 1, replicate (length ct) 0, w3) else (0, pt, w3)
      else
        let w1 = gcm_load_h io w;
            (m, w2) = aes_hw_encrypt io (ld128 (gcm_j0 iv)) w1;
            w3 = ghash_bytes io aad (wr io GCM_CTRL GCM_CTRL_RESET w2);
            w4 = gcm_ghash_block io (gcm_lens aad ct) (ghash_bytes io ct w3);
            computed_tag = st128 (xor2 (rd128 io GCM_TAG0 GCM_TAG1 w4) m)
        in if tag_diff computed_tag tag_in \<noteq> 0 then (- 1, replicate (length ct) 0, w4)
           else if ctr_inc32_caps io then
             case aes_ctr_hw io ((gcm_j0 iv)[15 := 2]) ct True None w4 of (pt, ctr, ks, w5) \<Rightarrow> (0, pt, w5)
           else case gcm_sw_dec io (gcm_j0 iv) ct w4 of (pt, w5) \<Rightarrow> (0, pt, w5))"

declare ctr_hw_loop.simps [simp del] ctr_sw.simps [simp del] ghash_bytes.simps [simp del] gcm_loop.simps [simp del]
  gcm_sw_enc.simps [simp del] gcm_sw_dec.simps [simp del] aes_wr.simps [simp del] aes_rd.simps [simp del]
  gcm_wr.simps [simp del] gcm_rd.simps [simp del]

section \<open>The reference\<close>

text \<open>Counter mode with the last \<open>k\<close> bytes counting, GHASH and GCM with a 96-bit nonce, as in the standards.\<close>

function ctr_ref :: "prims \<Rightarrow> blk \<Rightarrow> nat \<Rightarrow> bytes \<Rightarrow> bytes \<Rightarrow> bytes" where
  "ctr_ref P key k c data =
     (if data \<noteq> [] then xor_bytes (take 16 data) (st128 (p_enc P key (ld128 c))) @ ctr_ref P key k (ctr_next k c) (drop 16 data)
      else [])"
  by auto
termination by (relation "measure (\<lambda>(P, key, k, c, data). length data)") auto

function ghash_ref :: "prims \<Rightarrow> blk \<Rightarrow> blk \<Rightarrow> bytes \<Rightarrow> blk" where
  "ghash_ref P h t data =
     (if data \<noteq> [] then ghash_ref P h (p_mul P (xor2 t (ld128 (pad16 (take 16 data)))) h) (drop 16 data) else t)"
  by auto
termination by (relation "measure (\<lambda>(P, h, t, data). length data)") auto

definition gcm_iv :: "bytes \<Rightarrow> bytes" where
  "gcm_iv iv = iv @ [0, 0, 0, 1]"

definition gcm_crypt :: "prims \<Rightarrow> blk \<Rightarrow> bytes \<Rightarrow> bytes \<Rightarrow> bytes" where
  "gcm_crypt P key iv data = ctr_ref P key 4 (ctr_next 4 (gcm_iv iv)) data"

definition gcm_tag :: "prims \<Rightarrow> blk \<Rightarrow> bytes \<Rightarrow> bytes \<Rightarrow> bytes \<Rightarrow> bytes" where
  "gcm_tag P key iv aad ct =
     (let h = p_enc P key (0, 0);
          s = ghash_ref P h (ghash_ref P h (ghash_ref P h (0, 0) aad) ct) (be_bytes 8 (8 * length aad) @ be_bytes 8 (8 * length ct))
      in st128 (xor2 s (p_enc P key (ld128 (gcm_iv iv)))))"

declare ctr_ref.simps [simp del] ghash_ref.simps [simp del]

section \<open>Device steps\<close>

lemma aes_okD:
  assumes "aes_ok P io view"
  shows "aes_wr P r v (d_aes (view w)) = Some a \<Longrightarrow> view (wr io r v w) = (view w)\<lparr>d_aes := a\<rparr>"
    and "aes_spin k (d_aes (view w)) = Some a \<Longrightarrow> view (spin io k w) = (view w)\<lparr>d_aes := a\<rparr>"
    and "aes_rd r (d_aes (view w)) = Some x \<Longrightarrow> rd io r w = x"
  using assms unfolding aes_ok_def by blast+

lemma gcm_okD:
  assumes "gcm_ok P io view"
  shows "gcm_wr P r v (d_gcm (view w)) = Some g \<Longrightarrow> view (wr io r v w) = (view w)\<lparr>d_gcm := g\<rparr>"
    and "gcm_spin k (d_gcm (view w)) = Some g \<Longrightarrow> view (spin io k w) = (view w)\<lparr>d_gcm := g\<rparr>"
    and "gcm_rd r (d_gcm (view w)) = Some x \<Longrightarrow> rd io r w = x"
  using assms unfolding gcm_ok_def by blast+

text \<open>The AES unit between two accesses: not busy, with this key, counter and mode.\<close>

definition aes_st :: "('w \<Rightarrow> dev) \<Rightarrow> 'w \<Rightarrow> blk \<Rightarrow> blk \<Rightarrow> u64 \<Rightarrow> bool" where
  "aes_st view w key c m \<longleftrightarrow> \<not> a_busy (d_aes (view w)) \<and> a_key (d_aes (view w)) = key \<and> a_ctr (d_aes (view w)) = c \<and>
     a_mode (d_aes (view w)) = m"

definition aes_idle :: "('w \<Rightarrow> dev) \<Rightarrow> 'w \<Rightarrow> blk \<Rightarrow> bool" where
  "aes_idle view w key \<longleftrightarrow> (\<exists>c. aes_st view w key c 0)"

definition others :: "('w \<Rightarrow> dev) \<Rightarrow> 'w \<Rightarrow> 'w \<Rightarrow> bool" where
  "others view w w' \<longleftrightarrow> d_gcm (view w') = d_gcm (view w) \<and> d_sha (view w') = d_sha (view w)"

lemma others_trans: "others view u v \<Longrightarrow> others view v w \<Longrightarrow> others view u w"
  by (simp add: others_def)

lemma wr128_in:
  assumes ok: "aes_ok P io view" and a: "\<not> a_busy (d_aes (view w))"
  shows "view (wr128 io AES_IN0 AES_IN1 b w) = (view w)\<lparr>d_aes :=
    (let x = (d_aes (view w))\<lparr>a_in := b\<rparr> in if a_mode (d_aes (view w)) AND AES_MODE_CTR \<noteq> 0 then aes_run P x else x)\<rparr>"
proof -
  have 1: "view (wr io AES_IN0 (fst b) w) = (view w)\<lparr>d_aes := (d_aes (view w))\<lparr>a_in := (fst b, snd (a_in (d_aes (view w))))\<rparr>\<rparr>"
    by (rule aes_okD(1) [OF ok]) (simp add: a aes_wr.simps)
  show ?thesis
    unfolding wr128_def by (subst aes_okD(1) [OF ok]) (auto simp: aes_wr.simps 1 a Let_def)
qed

lemma wr128_key:
  assumes ok: "aes_ok P io view" and a: "\<not> a_busy (d_aes (view w))"
  shows "view (wr128 io AES_KEY0 AES_KEY1 b w) = (view w)\<lparr>d_aes := (d_aes (view w))\<lparr>a_keyreg := b\<rparr>\<rparr>"
    and "view (wr128 io AES_CTR0 AES_CTR1 b w) = (view w)\<lparr>d_aes := (d_aes (view w))\<lparr>a_ctr := b\<rparr>\<rparr>"
    and "view (wr io AES_MODE m w) = (view w)\<lparr>d_aes := (d_aes (view w))\<lparr>a_mode := m\<rparr>\<rparr>"
proof -
  have 1: "view (wr io AES_KEY0 (fst b) w) = (view w)\<lparr>d_aes := (d_aes (view w))\<lparr>a_keyreg := (fst b, snd (a_keyreg (d_aes (view w))))\<rparr>\<rparr>"
    by (rule aes_okD(1) [OF ok]) (simp add: a aes_wr.simps)
  have 2: "view (wr io AES_CTR0 (fst b) w) = (view w)\<lparr>d_aes := (d_aes (view w))\<lparr>a_ctr := (fst b, snd (a_ctr (d_aes (view w))))\<rparr>\<rparr>"
    by (rule aes_okD(1) [OF ok]) (simp add: a aes_wr.simps)
  show "view (wr128 io AES_KEY0 AES_KEY1 b w) = (view w)\<lparr>d_aes := (d_aes (view w))\<lparr>a_keyreg := b\<rparr>\<rparr>"
    "view (wr128 io AES_CTR0 AES_CTR1 b w) = (view w)\<lparr>d_aes := (d_aes (view w))\<lparr>a_ctr := b\<rparr>\<rparr>"
    unfolding wr128_def by (subst aes_okD(1) [OF ok]; simp add: aes_wr.simps 1 2 a)+
  show "view (wr io AES_MODE m w) = (view w)\<lparr>d_aes := (d_aes (view w))\<lparr>a_mode := m\<rparr>\<rparr>"
    by (rule aes_okD(1) [OF ok]) (simp add: a aes_wr.simps)
qed

lemma aes_wait:
  assumes "aes_ok P io view"
  shows "view (spin io AES_WAIT w) = (view w)\<lparr>d_aes := (d_aes (view w))\<lparr>a_busy := False\<rparr>\<rparr>"
    and "a_busy (d_aes (view w)) \<Longrightarrow> view (spin io AES_WAIT_OUT w) = (view w)\<lparr>d_aes := (d_aes (view w))\<lparr>a_busy := False\<rparr>\<rparr>"
  by (rule aes_okD(2) [OF assms]; simp)+

lemma rd_out:
  assumes "aes_ok P io view" and "\<not> a_busy (d_aes (view w))"
  shows "rd128 io AES_OUT0 AES_OUT1 w = a_out (d_aes (view w))" "rd128 io AES_CTR0 AES_CTR1 w = a_ctr (d_aes (view w))"
proof -
  have "rd io AES_OUT0 w = fst (a_out (d_aes (view w)))" "rd io AES_OUT1 w = snd (a_out (d_aes (view w)))"
    "rd io AES_CTR0 w = fst (a_ctr (d_aes (view w)))" "rd io AES_CTR1 w = snd (a_ctr (d_aes (view w)))"
    by (rule aes_okD(3) [OF assms(1)]; simp add: aes_rd.simps assms(2))+
  then show "rd128 io AES_OUT0 AES_OUT1 w = a_out (d_aes (view w))" "rd128 io AES_CTR0 AES_CTR1 w = a_ctr (d_aes (view w))"
    by (simp_all add: rd128_def)
qed

lemma set_key_to:
  assumes ok: "aes_ok P io view" and i: "aes_idle view w k0"
  shows "aes_idle view (aes_hw_set_key io key w) key" "others view w (aes_hw_set_key io key w)"
proof -
  have nb: "\<not> a_busy (d_aes (view w))" and m: "a_mode (d_aes (view w)) = 0" using i by (auto simp: aes_idle_def aes_st_def)
  let ?w1 = "wr128 io AES_KEY0 AES_KEY1 key w"
  have "view (wr io AES_CTRL AES_CTRL_KEY_LOAD ?w1) = (view w)\<lparr>d_aes := (d_aes (view w))\<lparr>a_keyreg := key, a_key := key, a_busy := True\<rparr>\<rparr>"
    by (subst aes_okD(1) [OF ok]) (simp_all add: wr128_key [OF ok nb] aes_wr.simps nb)
  then show "aes_idle view (aes_hw_set_key io key w) key" "others view w (aes_hw_set_key io key w)"
    using m by (simp_all add: aes_hw_set_key_def aes_wait(1) [OF ok] aes_idle_def aes_st_def others_def)
qed

lemma crypt_block_to:
  assumes ok: "aes_ok P io view" and i: "aes_idle view w key"
  shows "fst (aes_hw_encrypt io b w) = p_enc P key b" "aes_idle view (snd (aes_hw_encrypt io b w)) key"
    "others view w (snd (aes_hw_encrypt io b w))"
    and "fst (aes_hw_decrypt io b w) = p_dec P key b" "aes_idle view (snd (aes_hw_decrypt io b w)) key"
    "others view w (snd (aes_hw_decrypt io b w))"
proof -
  have nb: "\<not> a_busy (d_aes (view w))" and m: "a_mode (d_aes (view w)) = 0" and k: "a_key (d_aes (view w)) = key"
    using i by (auto simp: aes_idle_def aes_st_def)
  let ?w1 = "wr128 io AES_IN0 AES_IN1 b w"
  have w1: "view ?w1 = (view w)\<lparr>d_aes := (d_aes (view w))\<lparr>a_in := b\<rparr>\<rparr>" by (simp add: wr128_in [OF ok nb] m)
  have e: "view (wr io AES_CTRL (AES_CTRL_GO OR AES_CTRL_ENC) ?w1) =
      (view w)\<lparr>d_aes := (d_aes (view w))\<lparr>a_in := b, a_out := p_enc P key b, a_busy := True\<rparr>\<rparr>"
    by (subst aes_okD(1) [OF ok]) (simp_all add: w1 aes_wr.simps nb k aes_regs)
  have d: "view (wr io AES_CTRL AES_CTRL_GO ?w1) =
      (view w)\<lparr>d_aes := (d_aes (view w))\<lparr>a_in := b, a_out := p_dec P key b, a_busy := True\<rparr>\<rparr>"
    by (subst aes_okD(1) [OF ok]) (simp_all add: w1 aes_wr.simps nb k aes_regs)
  show "fst (aes_hw_encrypt io b w) = p_enc P key b" "aes_idle view (snd (aes_hw_encrypt io b w)) key"
    "others view w (snd (aes_hw_encrypt io b w))" "fst (aes_hw_decrypt io b w) = p_dec P key b"
    "aes_idle view (snd (aes_hw_decrypt io b w)) key" "others view w (snd (aes_hw_decrypt io b w))"
    using m k by (simp_all add: aes_hw_encrypt_def aes_hw_decrypt_def Let_def rd_out [OF ok] aes_wait(1) [OF ok] e d
        aes_idle_def aes_st_def others_def)
qed

lemma ctr_block_to:
  assumes ok: "aes_ok P io view" and s: "aes_st view w key c m" and m: "m AND AES_MODE_CTR \<noteq> 0"
  shows "fst (ctr_block io b w) = xor2 (p_enc P key c) b"
    "aes_st view (snd (ctr_block io b w)) key (ld128 (ctr_next (ctr_width m) (st128 c))) m" "others view w (snd (ctr_block io b w))"
proof -
  have nb: "\<not> a_busy (d_aes (view w))" and k: "a_key (d_aes (view w)) = key" "a_ctr (d_aes (view w)) = c" "a_mode (d_aes (view w)) = m"
    using s by (auto simp: aes_st_def)
  have w1: "view (wr128 io AES_IN0 AES_IN1 b w) = (view w)\<lparr>d_aes := aes_run P ((d_aes (view w))\<lparr>a_in := b\<rparr>)\<rparr>"
    by (simp add: wr128_in [OF ok nb] k m)
  have "view (spin io AES_WAIT_OUT (wr128 io AES_IN0 AES_IN1 b w)) =
      (view w)\<lparr>d_aes := (aes_run P ((d_aes (view w))\<lparr>a_in := b\<rparr>))\<lparr>a_busy := False\<rparr>\<rparr>"
    by (subst aes_wait(2) [OF ok]) (simp_all add: w1 aes_run_def)
  then show "fst (ctr_block io b w) = xor2 (p_enc P key c) b"
    "aes_st view (snd (ctr_block io b w)) key (ld128 (ctr_next (ctr_width m) (st128 c))) m" "others view w (snd (ctr_block io b w))"
    using k by (simp_all add: ctr_block_def Let_def rd_out [OF ok] aes_run_def aes_st_def others_def)
qed

section \<open>Counter mode\<close>

lemma ctr_ref_block:
  "16 \<le> length d \<Longrightarrow> ctr_ref P key k c d = st128 (xor2 (p_enc P key (ld128 c)) (ld128 d)) @ ctr_ref P key k (ctr_next k c) (drop 16 d)"
proof -
  assume d: "16 \<le> length d"
  have "xor_bytes (take 16 d) (st128 x) = st128 (xor2 x (ld128 d))" for x
    using st128_ld128 [of "take 16 d"] d by (simp add: st128_xor ld128_take xor_bytes_comm)
  then show ?thesis using d by (subst ctr_ref.simps) auto
qed

lemma ctr_ref_Nil [simp]: "ctr_ref P key k c [] = []"
  by (simp add: ctr_ref.simps)

lemma xor_bytes_trunc: "length a \<le> n \<Longrightarrow> xor_bytes a (take n b) = xor_bytes a b"
  by (rule nth_equalityI) (auto simp: xor_bytes_def)

lemma take_pad16: "length d \<le> 16 \<Longrightarrow> take (length d) (st128 (xor2 x (ld128 (pad16 d)))) = xor_bytes d (st128 x)"
proof -
  assume d: "length d \<le> 16"
  then have "st128 (xor2 x (ld128 (pad16 d))) = xor_bytes (pad16 d) (st128 x)"
    using st128_ld128 [of "pad16 d"] by (simp add: st128_xor pad16_def xor_bytes_comm)
  then show ?thesis using d by (simp add: xor_bytes_take pad16_def xor_bytes_trunc)
qed

lemma ctr_ref_short: "d \<noteq> [] \<Longrightarrow> length d < 16 \<Longrightarrow> ctr_ref P key k c d = xor_bytes d (st128 (p_enc P key (ld128 c)))"
  by (subst ctr_ref.simps) simp

text \<open>The counter block after \<open>n\<close> blocks.\<close>

definition ctr_after :: "nat \<Rightarrow> bytes \<Rightarrow> nat \<Rightarrow> bytes" where
  "ctr_after k c n = (ctr_next k ^^ n) c"

lemma ctr_after_0 [simp]: "ctr_after k c 0 = c"
  by (simp add: ctr_after_def)

lemma ctr_after_Suc: "ctr_after k c (Suc n) = ctr_after k (ctr_next k c) n"
  by (simp add: ctr_after_def funpow_swap1)

lemma length_ctr_after [simp]: "k \<le> length c \<Longrightarrow> length (ctr_after k c n) = length c"
  by (induction n arbitrary: c) (simp_all add: ctr_after_Suc)

lemma ctr_after_snoc: "ctr_next k (ctr_after k c n) = ctr_after k c (Suc n)"
  by (simp add: ctr_after_def)

text \<open>The bytes after the full blocks.\<close>

definition rest16 :: "bytes \<Rightarrow> bytes" where
  "rest16 d = drop (16 * (length d div 16)) d"

lemma rest16_short: "length (rest16 d) < 16" "length d < 16 \<Longrightarrow> rest16 d = d"
  by (simp_all add: rest16_def minus_mult_div_eq_mod)

lemma rest16_drop: "16 \<le> length d \<Longrightarrow> rest16 (drop 16 d) = rest16 d" "16 \<le> length d \<Longrightarrow> length d div 16 = Suc (length (drop 16 d) div 16)"
  by (simp_all add: rest16_def le_div_geq add.commute)

lemma width_le: "ctr_width m \<le> 16"
  by (simp add: ctr_width_def)

lemma ctr_hw_loop_to:
  assumes ok: "aes_ok P io view" and m: "m AND AES_MODE_CTR \<noteq> 0"
  defines "k \<equiv> ctr_width m"
  shows "aes_st view w key (ld128 c) m \<Longrightarrow> length c = 16 \<Longrightarrow> ctr_hw_loop io d w = (out, r, w') \<Longrightarrow>
    r = rest16 d \<and> aes_st view w' key (ld128 (ctr_after k c (length d div 16))) m \<and> others view w w' \<and>
    ctr_ref P key k c d = out @ ctr_ref P key k (ctr_after k c (length d div 16)) (rest16 d)"
proof (induction "length d" arbitrary: d c w out r w' rule: less_induct)
  case less
  show ?case
  proof (cases "16 \<le> length d")
    case True
    obtain o1 w1 where b: "ctr_block io (ld128 d) w = (o1, w1)" by (cases "ctr_block io (ld128 d) w")
    obtain out2 r2 w2 where l: "ctr_hw_loop io (drop 16 d) w1 = (out2, r2, w2)" by (cases "ctr_hw_loop io (drop 16 d) w1")
    note cb = ctr_block_to [OF ok less.prems(1) m, of "ld128 d", folded k_def]
    have st: "aes_st view w1 key (ld128 (ctr_next k c)) m" using cb(2) b st128_ld128 [OF less.prems(2)] by simp
    have "length (drop 16 d) < length d" "length (ctr_next k c) = 16" using True less.prems(2) width_le [of m] by (simp_all add: k_def)
    note IH = less.hyps [OF this(1) st this(2) l]
    have e: "out = st128 o1 @ out2" "r = r2" "w' = w2"
      using less.prems(3) True b l by (auto simp: ctr_hw_loop.simps [of io d w])
    have o1: "o1 = xor2 (p_enc P key (ld128 c)) (ld128 d)" "others view w w1" using cb(1,3) b by simp_all
    show ?thesis
      using IH e o1 others_trans rest16_drop [OF True] by (auto simp: ctr_ref_block [OF True] ctr_after_Suc)
  next
    case False
    then show ?thesis using less.prems by (auto simp: ctr_hw_loop.simps [of io d w] rest16_short(2) others_def)
  qed
qed

lemma mode_bits: "(AES_MODE_CTR OR (if i then AES_MODE_INC32 else 0)) AND AES_MODE_CTR \<noteq> 0"
  "ctr_width (AES_MODE_CTR OR (if i then AES_MODE_INC32 else 0)) = (if i then 4 else 16)"
  by (auto simp: aes_regs ctr_width_def)

lemma blocks_used: "(length d + 15) div 16 = (if rest16 d = [] then length d div 16 else Suc (length d div 16))"
proof -
  have "rest16 d = [] \<longleftrightarrow> length d mod 16 = 0" by (auto simp: rest16_def minus_mult_div_eq_mod [symmetric])
  moreover have "(n + 15) div 16 = (if n mod 16 = 0 then n div 16 else Suc (n div 16))" for n :: nat
  proof -
    have "(r + 15) div 16 = (if r = 0 then 0 else 1)" if "r < 16" for r :: nat using that by (auto intro: div_nat_eqI)
    from this [of "n mod 16"] show ?thesis by (simp add: div_add1_eq [of n 15 16])
  qed
  ultimately show ?thesis by simp
qed

lemma xor_pad: "length p = 16 \<Longrightarrow> xor_bytes (st128 (xor2 x (ld128 p))) p = st128 x"
  by (simp add: st128_xor st128_ld128 xor_bytes_twice)

lemma aes_ctr_hw_to:
  fixes inc32 :: bool
  assumes ok: "aes_ok P io view" and i: "aes_idle view w key" and c: "length c = 16"
  defines "k \<equiv> if inc32 then 4 else 16"
  shows "fst (aes_ctr_hw io c d inc32 ks w) = ctr_ref P key k c d"
    "fst (snd (aes_ctr_hw io c d inc32 ks w)) = ctr_after k c ((length d + 15) div 16)"
    "fst (snd (snd (aes_ctr_hw io c d inc32 ks w))) =
       (if rest16 d = [] then ks else map_option (\<lambda>_. st128 (p_enc P key (ld128 (ctr_after k c (length d div 16))))) ks)"
    "aes_idle view (snd (snd (snd (aes_ctr_hw io c d inc32 ks w)))) key" "others view w (snd (snd (snd (aes_ctr_hw io c d inc32 ks w))))"
proof -
  let ?m = "AES_MODE_CTR OR (if inc32 then AES_MODE_INC32 else 0)" and ?n = "length d div 16" and ?r = "rest16 d"
  define w2 where "w2 = wr io AES_MODE ?m (wr128 io AES_CTR0 AES_CTR1 (ld128 c) (spin io AES_WAIT w))"
  have s2: "aes_st view w2 key (ld128 c) ?m" "others view w w2"
    using i by (auto simp: w2_def wr128_key [OF ok] aes_wait(1) [OF ok] aes_idle_def aes_st_def others_def)
  obtain out r w3 where l: "ctr_hw_loop io d w2 = (out, r, w3)" by (cases "ctr_hw_loop io d w2")
  have kw: "k = ctr_width ?m" by (simp only: mode_bits(2) k_def)
  have k16: "k \<le> 16" by (simp add: k_def)
  note lp = ctr_hw_loop_to [OF ok mode_bits(1) s2(1) c l, folded kw]
  define t where "t = (if r \<noteq> [] then
      case ctr_block io (ld128 (pad16 r)) w3 of (o1, u) \<Rightarrow>
        (take (length r) (st128 o1), map_option (\<lambda>_. xor_bytes (st128 o1) (pad16 r)) ks, u)
      else ([], ks, w3))"
  obtain out2 ks2 w4 where t4: "t = (out2, ks2, w4)" by (cases t)
  have e: "aes_ctr_hw io c d inc32 ks w = (out @ out2, st128 (rd128 io AES_CTR0 AES_CTR1 w4), ks2, wr io AES_MODE 0 w4)"
    unfolding aes_ctr_hw_def Let_def w2_def [symmetric] l prod.case t_def [symmetric] t4 ..
  have st: "out2 = ctr_ref P key k (ctr_after k c ?n) ?r \<and> ks2 = (if ?r = [] then ks else map_option (\<lambda>_. st128 (p_enc P key (ld128 (ctr_after k c ?n)))) ks) \<and>
      aes_st view w4 key (ld128 (ctr_after k c ((length d + 15) div 16))) ?m \<and> others view w3 w4"
  proof (cases "?r = []")
    case True
    then show ?thesis using lp t4 by (auto simp: t_def blocks_used others_def)
  next
    case False
    have s3: "aes_st view w3 key (ld128 (ctr_after k c ?n)) ?m" using lp by blast
    note cb = ctr_block_to [OF ok s3 mode_bits(1), of "ld128 (pad16 ?r)", folded kw]
    have "st128 (ld128 (ctr_after k c ?n)) = ctr_after k c ?n" using c k16 by (simp add: st128_ld128)
    moreover have "length (pad16 ?r) = 16" using rest16_short(1) [of d] by (simp add: pad16_def)
    ultimately show ?thesis
      using False lp t4 cb rest16_short(1) [of d]
      by (auto simp: t_def case_prod_beta blocks_used take_pad16 ctr_ref_short ctr_after_snoc [symmetric] xor_pad)
  qed
  show "fst (aes_ctr_hw io c d inc32 ks w) = ctr_ref P key k c d" using st lp by (simp add: e)
  have nb: "\<not> a_busy (d_aes (view w4))" using st by (simp add: aes_st_def)
  show "fst (snd (aes_ctr_hw io c d inc32 ks w)) = ctr_after k c ((length d + 15) div 16)"
    using st c k16 by (simp add: e rd_out [OF ok nb] aes_st_def st128_ld128)
  show "fst (snd (snd (aes_ctr_hw io c d inc32 ks w))) =
      (if ?r = [] then ks else map_option (\<lambda>_. st128 (p_enc P key (ld128 (ctr_after k c ?n)))) ks)" using st by (simp add: e)
  show "aes_idle view (snd (snd (snd (aes_ctr_hw io c d inc32 ks w)))) key" "others view w (snd (snd (snd (aes_ctr_hw io c d inc32 ks w))))"
    using st lp s2(2) by (auto simp: e wr128_key(3) [OF ok nb] aes_idle_def aes_st_def others_def)
qed

lemma ctr_step_bytes: "st128 (ctr_step c) = ctr_next 16 (st128 c)"
proof -
  let ?l = "bswap64 (fst c)" and ?h = "bswap64 (snd c)"
  let ?n = "unat ?l * 256 ^ 8 + unat ?h + 1"
  have n: "ctr_next 16 (st128 c) = be_bytes 8 (?n div 256 ^ 8) @ be_bytes 8 ?n"
    using be_bytes_append [of 8 8 ?n] by (simp add: ctr_next_def st128_def be_val_append be_val_st64)
  have u: "unat (x + 1) = (unat x + 1) mod 256 ^ 8" for x :: u64 by (simp add: unat_word_ariths)
  have h: "unat ?h < 256 ^ 8" using unsigned_less [of ?h, where ?'a = nat] by simp
  have b: "st64 (bswap64 (x + 1)) = be_bytes 8 (unat x + 1)" for x
    using be_bytes_mod [of 8 "unat x + 1"] by (simp only: st64_bswap u)
  have "be_bytes 8 ?n = be_bytes 8 (unat ?h + 1)"
    using be_bytes_mod [of 8 ?n] be_bytes_mod [of 8 "unat ?h + 1"] by (simp add: add.assoc)
  moreover have "be_bytes 8 (?n div 256 ^ 8) = st64 (if ?h + 1 = 0 then bswap64 (?l + 1) else fst c)"
  proof (cases "?h + 1 = 0")
    case True
    then have "(unat ?h + 1) mod 256 ^ 8 = 0" using u [of ?h] by simp
    then have "unat ?h + 1 = 256 ^ 8" using h by (simp add: mod_if split: if_splits)
    then have "?n div 256 ^ 8 = unat ?l + 1" by simp
    then show ?thesis using True b [of ?l] by simp
  next
    case False
    then have "unat ?h + 1 \<noteq> 256 ^ 8" using u [of ?h] by (auto simp: unat_eq_zero [symmetric] simp del: unat_eq_zero)
    then have "?n div 256 ^ 8 = unat ?l" using h by simp
    then show ?thesis using False st64_bswap [of ?l] by simp
  qed
  ultimately show ?thesis unfolding ctr_step_def Let_def st128_def fst_conv snd_conv b n [unfolded st128_def] by (simp only:)
qed

lemma ctr_sw_Nil [simp]: "ctr_sw io c [] w = ([], w)"
  by (simp add: ctr_sw.simps)

lemma ctr_sw_to:
  assumes ok: "aes_ok P io view"
  shows "aes_idle view w key \<Longrightarrow> fst (ctr_sw io c d w) = ctr_ref P key 16 (st128 c) d \<and>
    aes_idle view (snd (ctr_sw io c d w)) key \<and> others view w (snd (ctr_sw io c d w))"
proof (induction "length d" arbitrary: c d w rule: less_induct)
  case less
  note e = crypt_block_to(1-3) [OF ok less.prems, of c]
  show ?case
  proof (cases "16 \<le> length d")
    case True
    have "xor2 (ld128 d) x = xor2 x (ld128 d)" for x by (simp add: xor2_def xor.commute)
    then show ?thesis
      using less.hyps [of "drop 16 d" "snd (aes_hw_encrypt io c w)" "ctr_step c"] True e
      by (auto simp: ctr_sw.simps [of io c d w] case_prod_beta ctr_ref_block ctr_step_bytes intro: others_trans)
  next
    case False
    then show ?thesis
      using less.prems e by (cases "d = []") (auto simp: ctr_sw.simps [of io c d w] case_prod_beta ctr_ref_short others_def)
  qed
qed

lemma aes_ctr_to:
  assumes "aes_ok P io view" and "aes_idle view w key"
  shows "fst (aes_ctr io nonce d w) = ctr_ref P key 16 (st128 nonce) d" "aes_idle view (snd (aes_ctr io nonce d w)) key"
    "others view w (snd (aes_ctr io nonce d w))"
  using aes_ctr_hw_to [OF assms, of "st128 nonce" d False None] ctr_sw_to [OF assms, of nonce d]
  by (auto simp: aes_ctr_def case_prod_beta)

lemma length_ctr_ref [simp]: "length (ctr_ref P key k c d) = length d"
proof (induction "length d" arbitrary: c d rule: less_induct)
  case less
  then show ?case by (subst ctr_ref.simps) auto
qed

lemma ctr_ref_twice: "ctr_ref P key k c (ctr_ref P key k c d) = d"
proof (induction "length d" arbitrary: c d rule: less_induct)
  case less
  let ?x = "st128 (p_enc P key (ld128 c))"
  show ?case
  proof (cases "d = []")
    case False
    have 1: "ctr_ref P key k c d = xor_bytes (take 16 d) ?x @ ctr_ref P key k (ctr_next k c) (drop 16 d)"
      using False by (simp add: ctr_ref.simps [of P key k c d])
    have 2: "take 16 (ctr_ref P key k c d) = xor_bytes (take 16 d) ?x"
      "drop 16 (ctr_ref P key k c d) = ctr_ref P key k (ctr_next k c) (drop 16 d)"
      unfolding 1 by (cases "16 \<le> length d"; simp)+
    have "ctr_ref P key k c d \<noteq> []" using False by (metis length_ctr_ref length_0_conv)
    then have "ctr_ref P key k c (ctr_ref P key k c d) = xor_bytes (xor_bytes (take 16 d) ?x) ?x @ drop 16 d"
      using less.hyps [of "drop 16 d"] False by (subst ctr_ref.simps) (simp add: 2)
    then show ?thesis by (simp add: xor_bytes_twice)
  qed simp
qed

section \<open>GHASH\<close>

text \<open>The GHASH unit with this key and tag, busy with the last step or not.\<close>

definition gh_run :: "('w \<Rightarrow> dev) \<Rightarrow> 'w \<Rightarrow> blk \<Rightarrow> blk \<Rightarrow> bool" where
  "gh_run view w h t \<longleftrightarrow> g_h (d_gcm (view w)) = h \<and> g_tag (d_gcm (view w)) = t"

definition gh_st :: "('w \<Rightarrow> dev) \<Rightarrow> 'w \<Rightarrow> blk \<Rightarrow> blk \<Rightarrow> bool" where
  "gh_st view w h t \<longleftrightarrow> gh_run view w h t \<and> \<not> g_busy (d_gcm (view w))"

definition aes_same :: "('w \<Rightarrow> dev) \<Rightarrow> 'w \<Rightarrow> 'w \<Rightarrow> bool" where
  "aes_same view w w' \<longleftrightarrow> d_aes (view w') = d_aes (view w) \<and> d_sha (view w') = d_sha (view w)"

lemma aes_same_trans: "aes_same view u v \<Longrightarrow> aes_same view v w \<Longrightarrow> aes_same view u w"
  by (simp add: aes_same_def)

lemma wr128_gcm:
  assumes ok: "gcm_ok P io view" and g: "\<not> g_busy (d_gcm (view w))"
  shows "view (wr128 io GCM_X0 GCM_X1 b w) = (view w)\<lparr>d_gcm := (d_gcm (view w))\<lparr>g_x := b\<rparr>\<rparr>"
    and "view (wr128 io GCM_H0 GCM_H1 b w) = (view w)\<lparr>d_gcm := (d_gcm (view w))\<lparr>g_h := b\<rparr>\<rparr>"
    and "view (wr io GCM_CTRL GCM_CTRL_RESET w) = (view w)\<lparr>d_gcm := (d_gcm (view w))\<lparr>g_tag := (0, 0)\<rparr>\<rparr>"
proof -
  have 1: "view (wr io GCM_X0 (fst b) w) = (view w)\<lparr>d_gcm := (d_gcm (view w))\<lparr>g_x := (fst b, snd (g_x (d_gcm (view w))))\<rparr>\<rparr>"
    by (rule gcm_okD(1) [OF ok]) (simp add: g gcm_wr.simps)
  have 2: "view (wr io GCM_H0 (fst b) w) = (view w)\<lparr>d_gcm := (d_gcm (view w))\<lparr>g_h := (fst b, snd (g_h (d_gcm (view w))))\<rparr>\<rparr>"
    by (rule gcm_okD(1) [OF ok]) (simp add: g gcm_wr.simps)
  show "view (wr128 io GCM_X0 GCM_X1 b w) = (view w)\<lparr>d_gcm := (d_gcm (view w))\<lparr>g_x := b\<rparr>\<rparr>"
    "view (wr128 io GCM_H0 GCM_H1 b w) = (view w)\<lparr>d_gcm := (d_gcm (view w))\<lparr>g_h := b\<rparr>\<rparr>"
    unfolding wr128_def by (subst gcm_okD(1) [OF ok]; simp add: gcm_wr.simps 1 2 g)+
  show "view (wr io GCM_CTRL GCM_CTRL_RESET w) = (view w)\<lparr>d_gcm := (d_gcm (view w))\<lparr>g_tag := (0, 0)\<rparr>\<rparr>"
    by (rule gcm_okD(1) [OF ok]) (simp add: g gcm_wr.simps aes_regs)
qed

lemma gcm_wait:
  assumes "gcm_ok P io view"
  shows "view (spin io GCM_WAIT w) = (view w)\<lparr>d_gcm := (d_gcm (view w))\<lparr>g_busy := False\<rparr>\<rparr>"
  by (rule gcm_okD(2) [OF assms]) simp

lemma gcm_go:
  assumes ok: "gcm_ok P io view" and g: "\<not> g_busy (d_gcm (view w))"
  shows "view (wr io GCM_CTRL GCM_CTRL_GO (wr128 io GCM_X0 GCM_X1 b w)) = (view w)\<lparr>d_gcm := (d_gcm (view w))\<lparr>g_x := b,
    g_tag := p_mul P (xor2 (g_tag (d_gcm (view w))) b) (g_h (d_gcm (view w))), g_busy := True\<rparr>\<rparr>"
  by (subst gcm_okD(1) [OF ok]) (simp_all add: wr128_gcm(1) [OF ok g] gcm_wr.simps g aes_regs)

lemma feed_to:
  assumes ok: "gcm_ok P io view" and g: "gh_run view w h t"
  shows "gh_run view (gcm_feed io b w) h (p_mul P (xor2 t b) h)" "aes_same view w (gcm_feed io b w)"
  using g by (simp_all add: gcm_feed_def gcm_go [OF ok] gcm_wait [OF ok] gh_run_def aes_same_def)

lemma ghash_block_to:
  assumes ok: "gcm_ok P io view" and g: "gh_st view w h t"
  shows "gh_st view (gcm_ghash_block io b w) h (p_mul P (xor2 t b) h)" "aes_same view w (gcm_ghash_block io b w)"
  using g by (simp_all add: gcm_ghash_block_def gcm_go [OF ok] gcm_wait [OF ok] gh_st_def gh_run_def aes_same_def)

lemma gcm_wait_to:
  assumes "gcm_ok P io view" and "gh_run view w h t"
  shows "gh_st view (spin io GCM_WAIT w) h t" "aes_same view w (spin io GCM_WAIT w)"
  using assms by (simp_all add: gcm_wait [OF assms(1)] gh_st_def gh_run_def aes_same_def)

lemma pad16_full: "length d = 16 \<Longrightarrow> pad16 d = d"
  by (simp add: pad16_def)

lemma ghash_ref_Nil [simp]: "ghash_ref P h t [] = t"
  by (simp add: ghash_ref.simps)

lemma ghash_ref_Cons: "d \<noteq> [] \<Longrightarrow> ghash_ref P h t d = ghash_ref P h (p_mul P (xor2 t (ld128 (pad16 (take 16 d)))) h) (drop 16 d)"
  by (subst ghash_ref.simps) simp

lemma ghash_ref_one: "d \<noteq> [] \<Longrightarrow> length d \<le> 16 \<Longrightarrow> ghash_ref P h t d = p_mul P (xor2 t (ld128 (pad16 d))) h"
  by (simp add: ghash_ref_Cons)

lemma ghash_ref_16: "length d = 16 \<Longrightarrow> ghash_ref P h t d = p_mul P (xor2 t (ld128 d)) h"
  by (subst ghash_ref_one) (auto simp: pad16_full)

lemma ghash_ref_append: "16 dvd length a \<Longrightarrow> ghash_ref P h t (a @ b) = ghash_ref P h (ghash_ref P h t a) b"
proof (induction "length a" arbitrary: a t rule: less_induct)
  case less
  show ?case
  proof (cases "a = []")
    case False
    then have a: "16 \<le> length a" using less.prems by (simp add: dvd_imp_le)
    then show ?thesis using False less.hyps [of "drop 16 a"] less.prems by (simp add: ghash_ref_Cons dvd_minus_self)
  qed simp
qed

lemma ghash_block_eq: "length d \<le> 16 \<Longrightarrow> ghash_block io d w = gcm_ghash_block io (ld128 (pad16 d)) w"
  by (simp add: ghash_block_def pad16_full)

lemma ghash_bytes_to:
  assumes ok: "gcm_ok P io view"
  shows "gh_st view w h t \<Longrightarrow> gh_st view (ghash_bytes io d w) h (ghash_ref P h t d) \<and> aes_same view w (ghash_bytes io d w)"
proof (induction "length d" arbitrary: d t w rule: less_induct)
  case less
  show ?case
  proof (cases "d = []")
    case True
    then show ?thesis using less.prems by (simp add: ghash_bytes.simps aes_same_def)
  next
    case False
    note b = ghash_block_to [OF ok less.prems, of "ld128 (pad16 (take 16 d))"]
    have "length (drop 16 d) < length d" using False by simp
    from less.hyps [OF this b(1)] show ?thesis
      using False b(2) by (auto simp: ghash_bytes.simps [of io d w] ghash_block_eq ghash_ref_Cons intro: aes_same_trans)
  qed
qed

section \<open>The overlapped pass\<close>

definition owed :: "prims \<Rightarrow> blk \<Rightarrow> blk option \<Rightarrow> blk \<Rightarrow> blk" where
  "owed P h pend t = (case pend of None \<Rightarrow> t | Some p \<Rightarrow> p_mul P (xor2 t p) h)"

definition feed_opt :: "'w cio \<Rightarrow> blk option \<Rightarrow> 'w \<Rightarrow> 'w" where
  "feed_opt io pend w = (case pend of None \<Rightarrow> w | Some p \<Rightarrow> gcm_feed io p w)"

lemma feed_opt_to:
  assumes "gcm_ok P io view" and "gh_run view w h t"
  shows "gh_run view (feed_opt io pend w) h (owed P h pend t)" "aes_same view w (feed_opt io pend w)"
  using assms feed_to [OF assms] by (auto simp: feed_opt_def owed_def aes_same_def split: option.split)

text \<open>One turn: both units are started, the AES unit is waited for.\<close>

lemma overlap_to:
  fixes pend :: "blk option" and i :: blk
  assumes aok: "aes_ok P io view" and gok: "gcm_ok P io view" and s: "aes_st view w key c m" and m: "m AND AES_MODE_CTR \<noteq> 0"
    and g: "gh_run view w h t"
  defines "w3 \<equiv> spin io AES_WAIT_OUT (feed_opt io pend (wr128 io AES_IN0 AES_IN1 i w))"
  shows "rd128 io AES_OUT0 AES_OUT1 w3 = xor2 (p_enc P key c) i"
    "aes_st view w3 key (ld128 (ctr_next (ctr_width m) (st128 c))) m" "gh_run view w3 h (owed P h pend t)"
    "d_sha (view w3) = d_sha (view w)"
proof -
  have nb: "\<not> a_busy (d_aes (view w))" and k: "a_key (d_aes (view w)) = key" "a_ctr (d_aes (view w)) = c" "a_mode (d_aes (view w)) = m"
    using s by (auto simp: aes_st_def)
  let ?w1 = "wr128 io AES_IN0 AES_IN1 i w"
  have w1: "view ?w1 = (view w)\<lparr>d_aes := aes_run P ((d_aes (view w))\<lparr>a_in := i\<rparr>)\<rparr>"
    by (simp add: wr128_in [OF aok nb] k m)
  have g1: "gh_run view ?w1 h t" using g by (simp add: w1 gh_run_def)
  note f = feed_opt_to [OF gok g1, of pend]
  have a2: "d_aes (view (feed_opt io pend ?w1)) = aes_run P ((d_aes (view w))\<lparr>a_in := i\<rparr>)"
    "d_sha (view (feed_opt io pend ?w1)) = d_sha (view w)" using f(2) by (simp_all add: aes_same_def w1)
  have v: "view w3 = (view (feed_opt io pend ?w1))\<lparr>d_aes := (d_aes (view (feed_opt io pend ?w1)))\<lparr>a_busy := False\<rparr>\<rparr>"
    unfolding w3_def by (rule aes_wait(2) [OF aok]) (simp add: a2 aes_run_def)
  show "rd128 io AES_OUT0 AES_OUT1 w3 = xor2 (p_enc P key c) i"
    "aes_st view w3 key (ld128 (ctr_next (ctr_width m) (st128 c))) m" "gh_run view w3 h (owed P h pend t)"
    "d_sha (view w3) = d_sha (view w)"
    using f(1) k by (simp_all add: rd_out [OF aok] v a2 aes_run_def aes_st_def gh_run_def)
qed

lemma gcm_loop_step:
  "16 \<le> length d \<Longrightarrow> gcm_loop io dec pend d w =
     (let w3 = spin io AES_WAIT_OUT (feed_opt io (if dec then Some (ld128 d) else pend) (wr128 io AES_IN0 AES_IN1 (ld128 d) w));
          o1 = rd128 io AES_OUT0 AES_OUT1 w3;
          (out, pend2, rest, w4) = gcm_loop io dec (if dec then None else Some o1) (drop 16 d) w3
      in (st128 o1 @ out, pend2, rest, w4))"
  unfolding feed_opt_def by (subst gcm_loop.simps) (simp add: Let_def)

lemma gcm_loop_to:
  assumes aok: "aes_ok P io view" and gok: "gcm_ok P io view" and m: "m AND AES_MODE_CTR \<noteq> 0"
  defines "k \<equiv> ctr_width m"
  shows "aes_st view w key (ld128 c) m \<Longrightarrow> length c = 16 \<Longrightarrow> gh_run view w h t \<Longrightarrow> (dec \<Longrightarrow> pend = None) \<Longrightarrow>
    gcm_loop io dec pend d w = (out, pend', r, w') \<Longrightarrow>
    r = rest16 d \<and> aes_st view w' key (ld128 (ctr_after k c (length d div 16))) m \<and> d_sha (view w') = d_sha (view w) \<and>
    length out = 16 * (length d div 16) \<and>
    ctr_ref P key k c d = out @ ctr_ref P key k (ctr_after k c (length d div 16)) (rest16 d) \<and>
    (\<exists>t'. gh_run view w' h t' \<and>
       owed P h pend' t' = ghash_ref P h (owed P h pend t) (if dec then take (16 * (length d div 16)) d else out))"
proof (induction "length d" arbitrary: d c w t pend out pend' r w' rule: less_induct)
  case less
  show ?case
  proof (cases "16 \<le> length d")
    case True
    let ?p = "if dec then Some (ld128 d) else pend"
    define w3 where "w3 = spin io AES_WAIT_OUT (feed_opt io ?p (wr128 io AES_IN0 AES_IN1 (ld128 d) w))"
    define o1 where "o1 = rd128 io AES_OUT0 AES_OUT1 w3"
    let ?q = "if dec then None else Some o1"
    note ov = overlap_to [OF aok gok less.prems(1) m less.prems(3), of ?p "ld128 d", folded w3_def, folded o1_def k_def]
    obtain out2 pd r2 w4 where l: "gcm_loop io dec ?q (drop 16 d) w3 = (out2, pd, r2, w4)"
      by (cases "gcm_loop io dec ?q (drop 16 d) w3")
    have st: "aes_st view w3 key (ld128 (ctr_next k c)) m" using ov(2) st128_ld128 [OF less.prems(2)] by simp
    have ln: "length (drop 16 d) < length d" "length (ctr_next k c) = 16" using True less.prems(2) width_le [of m] by (simp_all add: k_def)
    note IH = less.hyps [OF ln(1) st ln(2) ov(3) _ l]
    have "gcm_loop io dec pend d w = (st128 o1 @ out2, pd, r2, w4)"
      unfolding gcm_loop_step [OF True] Let_def w3_def [symmetric] o1_def [symmetric] l by simp
    then have e: "out = st128 o1 @ out2" "pend' = pd" "r = r2" "w' = w4" using less.prems(5) by simp_all
    have n: "length d div 16 = Suc (length (drop 16 d) div 16)" by (rule rest16_drop(2) [OF True])
    have gh: "ghash_ref P h (owed P h pend t) (if dec then take (16 * (length d div 16)) d else out) =
        ghash_ref P h (owed P h ?q (owed P h ?p t)) (if dec then take (16 * (length (drop 16 d) div 16)) (drop 16 d) else out2)"
    proof (cases dec)
      case True
      have "take (16 * (length d div 16)) d = take 16 d @ take (16 * (length (drop 16 d) div 16)) (drop 16 d)"
        unfolding n by (simp add: take_add add.commute)
      moreover have "ghash_ref P h t (take 16 d) = p_mul P (xor2 t (ld128 d)) h"
        using \<open>16 \<le> length d\<close> by (simp add: ghash_ref_16 ld128_take)
      ultimately show ?thesis using True less.prems(4) \<open>16 \<le> length d\<close> by (simp add: ghash_ref_append owed_def)
    next
      case False
      then show ?thesis using e(1) by (simp add: ghash_ref_append ghash_ref_16 owed_def)
    qed
    show ?thesis
      unfolding gh unfolding ctr_ref_block [OF True] ov(1) [symmetric]
      using IH e n ov(4) rest16_drop(1) [OF True] by (auto simp: ctr_after_Suc)
  next
    case False
    then have "gcm_loop io dec pend d w = ([], pend, d, w)" by (simp add: gcm_loop.simps)
    then show ?thesis using less.prems False by (intro conjI exI [of _ t]) (auto simp: rest16_short(2))
  qed
qed

lemma ghash_split:
  "ghash_ref P h (ghash_ref P h t (take (16 * (length d div 16)) d)) (rest16 d) = ghash_ref P h t d"
proof -
  have "take (16 * (length d div 16)) d @ rest16 d = d" by (simp add: rest16_def)
  moreover have "16 dvd length (take (16 * (length d div 16)) d)" by (simp add: min_absorb2)
  ultimately show ?thesis by (metis ghash_ref_append)
qed

lemma gcm_last_to:
  assumes aok: "aes_ok P io view" and gok: "gcm_ok P io view" and s: "aes_st view w key (ld128 c) m"
    and m: "m AND AES_MODE_CTR \<noteq> 0" and g: "gh_run view w h t" and r16: "length r < 16"
  defines "ct \<equiv> ctr_ref P key 4 c r"
  shows "fst (gcm_last io dec r w) = ct \<and> gh_run view (snd (gcm_last io dec r w)) h (ghash_ref P h t (if dec then r else ct)) \<and>
    (\<exists>c'. aes_st view (snd (gcm_last io dec r w)) key c' m) \<and> d_sha (view (snd (gcm_last io dec r w))) = d_sha (view w)"
proof (cases "r = []")
  case True
  then show ?thesis using g s by (intro conjI exI [of _ "ld128 c"]) (simp_all add: gcm_last_def ct_def)
next
  case False
  obtain o1 u where b: "ctr_block io (ld128 (pad16 r)) w = (o1, u)" by (cases "ctr_block io (ld128 (pad16 r)) w")
  note cb = ctr_block_to [OF aok s m, of "ld128 (pad16 r)", unfolded b fst_conv snd_conv]
  have oc: "take (length r) (st128 o1) = ct" unfolding cb(1) using False r16 by (simp add: take_pad16 ctr_ref_short ct_def)
  have x: "take (length r) (if dec then pad16 r else st128 o1) = (if dec then r else ct)" using oc by (simp add: pad16_def)
  have gu: "gh_run view u h t" using cb(3) g by (simp add: others_def gh_run_def)
  note gw = gcm_wait_to [OF gok gu]
  note gb = ghash_block_to [OF gok gw(1), of "ld128 (pad16 (if dec then r else ct))"]
  have e: "gcm_last io dec r w = (ct, gcm_ghash_block io (ld128 (pad16 (if dec then r else ct))) (spin io GCM_WAIT u))"
    unfolding gcm_last_def b Let_def using False oc x by simp
  have "(if dec then r else ct) \<noteq> []" "length (if dec then r else ct) \<le> 16"
    using False r16 by (auto simp: ct_def dest: arg_cong [where f = length])
  from ghash_ref_one [OF this] show ?thesis
    using gb gw(2) cb(2,3) unfolding e by (auto simp: gh_st_def aes_same_def aes_st_def others_def)
qed

lemma gcm_ctr_ghash_to:
  assumes aok: "aes_ok P io view" and gok: "gcm_ok P io view" and s: "aes_st view w key (ld128 c) m" and c: "length c = 16"
    and m: "m AND AES_MODE_CTR \<noteq> 0" "ctr_width m = 4" and g: "gh_run view w h t"
  shows "fst (gcm_ctr_ghash io d dec w) = ctr_ref P key 4 c d"
    "gh_st view (snd (gcm_ctr_ghash io d dec w)) h (ghash_ref P h t (if dec then d else ctr_ref P key 4 c d))"
    "aes_idle view (snd (gcm_ctr_ghash io d dec w)) key" "d_sha (view (snd (gcm_ctr_ghash io d dec w))) = d_sha (view w)"
proof -
  let ?n = "length d div 16" and ?r = "rest16 d"
  obtain out pd r w1 where l: "gcm_loop io dec None d w = (out, pd, r, w1)" by (cases "gcm_loop io dec None d w")
  from gcm_loop_to [OF aok gok m(1) s c g _ l, unfolded m(2)]
  obtain t1 where r: "r = ?r" and s1: "aes_st view w1 key (ld128 (ctr_after 4 c ?n)) m" and sh: "d_sha (view w1) = d_sha (view w)"
    and lo: "length out = 16 * ?n" and cr: "ctr_ref P key 4 c d = out @ ctr_ref P key 4 (ctr_after 4 c ?n) ?r"
    and g1: "gh_run view w1 h t1" and t1: "owed P h pd t1 = ghash_ref P h t (if dec then take (16 * ?n) d else out)"
    by (auto simp: owed_def)
  define w2 where "w2 = feed_opt io pd w1"
  note f = feed_opt_to [OF gok g1, of pd, folded w2_def]
  have s2: "aes_st view w2 key (ld128 (ctr_after 4 c ?n)) m" "d_sha (view w2) = d_sha (view w)"
    using f(2) s1 sh by (simp_all add: aes_same_def aes_st_def)
  let ?c = "ctr_ref P key 4 (ctr_after 4 c ?n) ?r"
  define tl where "tl = gcm_last io dec ?r w2"
  note tl = gcm_last_to [OF aok gok s2(1) m(1) f(1) rest16_short(1), of dec d, folded tl_def]
  have e: "gcm_ctr_ghash io d dec w = (out @ fst tl, wr io AES_MODE 0 (spin io GCM_WAIT (snd tl)))"
    unfolding gcm_ctr_ghash_def Let_def l prod.case r feed_opt_def [symmetric] w2_def [symmetric] tl_def [symmetric]
    by (simp add: case_prod_beta)
  note fw = gcm_wait_to [OF gok tl [THEN conjunct2, THEN conjunct1]]
  have nb: "\<not> a_busy (d_aes (view (spin io GCM_WAIT (snd tl))))" using fw(2) tl by (auto simp: aes_same_def aes_st_def)
  show "fst (gcm_ctr_ghash io d dec w) = ctr_ref P key 4 c d" using tl cr by (simp add: e)
  have "ghash_ref P h (owed P h pd t1) (if dec then ?r else ?c) = ghash_ref P h t (if dec then d else ctr_ref P key 4 c d)"
    using lo by (auto simp: t1 cr ghash_split ghash_ref_append)
  then show "gh_st view (snd (gcm_ctr_ghash io d dec w)) h (ghash_ref P h t (if dec then d else ctr_ref P key 4 c d))"
    using fw(1) by (simp add: e wr128_key(3) [OF aok nb] gh_st_def gh_run_def)
  show "aes_idle view (snd (gcm_ctr_ghash io d dec w)) key" "d_sha (view (snd (gcm_ctr_ghash io d dec w))) = d_sha (view w)"
    using fw(2) tl s2(2) by (auto simp: e wr128_key(3) [OF aok nb] aes_idle_def aes_st_def aes_same_def)
qed

section \<open>GCM\<close>

lemma j0_split: "length (iv :: bytes) = 12 \<Longrightarrow> (take 12 iv @ replicate 4 0)[15 := x] = iv @ [0, 0, 0, x]"
proof -
  assume iv: "length iv = 12"
  have "replicate 4 (0 :: u8) = [0, 0, 0, 0]" by (simp add: numeral_eq_Suc)
  then have "take 12 iv @ replicate 4 0 = (iv @ [0, 0, 0]) @ 0 # []" using iv by simp
  moreover have "15 = length (iv @ [0, 0, 0])" using iv by simp
  ultimately show ?thesis by (simp only: list_update_length) simp
qed

lemma j0_iv: "length iv = 12 \<Longrightarrow> gcm_j0 iv = gcm_iv iv"
  unfolding gcm_j0_def gcm_iv_def by (rule j0_split)

lemma j0_next: "length iv = 12 \<Longrightarrow> (gcm_j0 iv)[15 := 2] = ctr_next 4 (gcm_iv iv)"
proof -
  assume iv: "length iv = 12"
  have "(4 :: nat) = Suc (Suc (Suc (Suc 0)))" by simp
  then have "be_bytes 4 2 = [0, 0, 0, 2]" by (simp only: be_bytes.simps) simp
  moreover have "be_val [0, 0, 0, 1] + 1 = 2" by (simp add: be_val_def)
  ultimately have b: "be_bytes 4 (be_val [0, 0, 0, 1] + 1) = [0, 0, 0, 2]" by (simp only:)
  have d: "drop (length (gcm_iv iv) - 4) (gcm_iv iv) = [0, 0, 0, 1]" "take (length (gcm_iv iv) - 4) (gcm_iv iv) = iv"
    using iv by (simp_all add: gcm_iv_def)
  have "ctr_next 4 (gcm_iv iv) = iv @ [0, 0, 0, 2]" unfolding ctr_next_def d b ..
  then show ?thesis using j0_split [OF iv, of 2] by (simp only: gcm_j0_def list_update_overwrite)
qed

lemma length_gcm_iv: "length iv = 12 \<Longrightarrow> length (gcm_iv iv) = 16"
  by (simp add: gcm_iv_def)

lemma ctr_inc_next: "length c = 16 \<Longrightarrow> ctr_inc c = ctr_next 4 c"
  using inc_loop_eq [of "drop 12 c" "take 12 c" "[]"] by (simp add: ctr_inc_def ctr_next_def)

lemma lens_block: "ld128 (be_bytes 8 (8 * length a) @ be_bytes 8 (8 * length c)) = gcm_lens a c"
proof -
  have "be_bytes 8 (8 * n) = st64 (bswap64 (of_nat n * 8))" for n
    using be_bytes_mod [of 8 "8 * n"] by (simp add: st64_bswap unat_word_ariths unat_of_nat take_bit_eq_mod mult.commute mod_mult_right_eq)
  then show ?thesis by (simp add: gcm_lens_def ld128_def)
qed

definition gcm_free :: "('w \<Rightarrow> dev) \<Rightarrow> 'w \<Rightarrow> bool" where
  "gcm_free view w \<longleftrightarrow> \<not> g_busy (d_gcm (view w))"

lemma load_h_to:
  assumes aok: "aes_ok P io view" and gok: "gcm_ok P io view" and a: "aes_idle view w key" and g: "gcm_free view w"
  defines "w' \<equiv> wr io GCM_CTRL GCM_CTRL_RESET (gcm_load_h io w)"
  shows "gh_st view w' (p_enc P key (0, 0)) (0, 0)" "aes_idle view w' key" "d_sha (view w') = d_sha (view w)"
    and "\<exists>t. gh_st view (gcm_load_h io w) (p_enc P key (0, 0)) t" "aes_idle view (gcm_load_h io w) key"
      "d_sha (view (gcm_load_h io w)) = d_sha (view w)"
proof -
  let ?u = "snd (aes_hw_encrypt io (0, 0) w)"
  have e: "gcm_load_h io w = wr128 io GCM_H0 GCM_H1 (fst (aes_hw_encrypt io (0, 0) w)) ?u"
    by (simp add: gcm_load_h_def aes_hw_encrypt_def Let_def)
  note c = crypt_block_to(1-3) [OF aok a, of "(0, 0)"]
  have nb: "\<not> g_busy (d_gcm (view ?u))" using c(3) g by (simp add: others_def gcm_free_def)
  have v: "view (gcm_load_h io w) = (view ?u)\<lparr>d_gcm := (d_gcm (view ?u))\<lparr>g_h := p_enc P key (0, 0)\<rparr>\<rparr>"
    unfolding e c(1) by (rule wr128_gcm(2) [OF gok nb])
  then have nb2: "\<not> g_busy (d_gcm (view (gcm_load_h io w)))" using nb by simp
  show "\<exists>t. gh_st view (gcm_load_h io w) (p_enc P key (0, 0)) t" "aes_idle view (gcm_load_h io w) key"
      "d_sha (view (gcm_load_h io w)) = d_sha (view w)"
    using c(2,3) nb by (simp_all add: v gh_st_def gh_run_def aes_idle_def aes_st_def others_def)
  have v2: "view w' = (view (gcm_load_h io w))\<lparr>d_gcm := (d_gcm (view (gcm_load_h io w)))\<lparr>g_tag := (0, 0)\<rparr>\<rparr>"
    unfolding w'_def by (rule wr128_gcm(3) [OF gok nb2])
  show "gh_st view w' (p_enc P key (0, 0)) (0, 0)" "aes_idle view w' key" "d_sha (view w') = d_sha (view w)"
    using c(2,3) nb by (simp_all add: v2 v gh_st_def gh_run_def aes_idle_def aes_st_def others_def)
qed

lemma mode_inc32: "(AES_MODE_CTR OR AES_MODE_INC32) AND AES_MODE_CTR \<noteq> 0" "ctr_width (AES_MODE_CTR OR AES_MODE_INC32) = 4"
  using mode_bits [of True] by simp_all

lemma xor2_0 [simp]: "xor2 x (0, 0) = x" "xor2 (0, 0) x = x"
  by (simp_all add: xor2_def)

lemma setup_to:
  assumes aok: "aes_ok P io view" and gok: "gcm_ok P io view" and a: "aes_idle view w key" and g: "gcm_free view w" and iv: "length iv = 12"
  defines "h \<equiv> p_enc P key (0, 0)"
  shows "fst (gcm_ctr_setup io iv aad w) = p_enc P key (ld128 (gcm_iv iv))"
    "aes_st view (snd (gcm_ctr_setup io iv aad w)) key (ld128 (ctr_next 4 (gcm_iv iv))) (AES_MODE_CTR OR AES_MODE_INC32)"
    "gh_st view (snd (gcm_ctr_setup io iv aad w)) h (ghash_ref P h (0, 0) aad)"
    "d_sha (view (snd (gcm_ctr_setup io iv aad w))) = d_sha (view w)"
proof -
  let ?w0 = "wr io AES_MODE 0 (spin io AES_WAIT w)" and ?m = "AES_MODE_CTR OR AES_MODE_INC32"
  have a0: "aes_idle view ?w0 key" "gcm_free view ?w0" "d_sha (view ?w0) = d_sha (view w)"
    using a g by (auto simp: wr128_key(3) [OF aok] aes_wait(1) [OF aok] aes_idle_def aes_st_def gcm_free_def)
  define w1 where "w1 = wr io GCM_CTRL GCM_CTRL_RESET (gcm_load_h io ?w0)"
  note l = load_h_to(1-3) [OF aok gok a0(1,2), folded w1_def, folded h_def]
  define w2 where "w2 = ghash_bytes io aad w1"
  have g2: "gh_st view w2 h (ghash_ref P h (0, 0) aad)" "aes_same view w1 w2"
    using ghash_bytes_to [OF gok l(1), of aad] by (simp_all add: w2_def)
  define w3 where "w3 = wr io AES_MODE ?m (wr128 io AES_CTR0 AES_CTR1 (ld128 (gcm_iv iv)) w2)"
  have nb: "\<not> a_busy (d_aes (view w2))" using g2(2) l(2) by (auto simp: aes_same_def aes_idle_def aes_st_def)
  have s3: "aes_st view w3 key (ld128 (gcm_iv iv)) ?m" "gh_st view w3 h (ghash_ref P h (0, 0) aad)" "d_sha (view w3) = d_sha (view w)"
    using l g2 a0 nb by (auto simp: w3_def wr128_key [OF aok] aes_same_def aes_idle_def aes_st_def gh_st_def gh_run_def)
  have e: "gcm_ctr_setup io iv aad w = ctr_block io (0, 0) w3"
    unfolding gcm_ctr_setup_def Let_def w1_def [symmetric] w2_def [symmetric] j0_iv [OF iv] w3_def [symmetric] ..
  note cb = ctr_block_to [OF aok s3(1) mode_inc32(1), of "(0, 0)", unfolded mode_inc32(2)]
  show "fst (gcm_ctr_setup io iv aad w) = p_enc P key (ld128 (gcm_iv iv))"
    "aes_st view (snd (gcm_ctr_setup io iv aad w)) key (ld128 (ctr_next 4 (gcm_iv iv))) ?m"
    "gh_st view (snd (gcm_ctr_setup io iv aad w)) h (ghash_ref P h (0, 0) aad)"
    "d_sha (view (snd (gcm_ctr_setup io iv aad w))) = d_sha (view w)"
    using cb s3 st128_ld128 [OF length_gcm_iv [OF iv]] by (simp_all add: e others_def gh_st_def gh_run_def)
qed

lemma rd_tag: "gcm_ok P io view \<Longrightarrow> gh_st view w h t \<Longrightarrow> rd128 io GCM_TAG0 GCM_TAG1 w = t"
proof -
  assume ok: "gcm_ok P io view" and g: "gh_st view w h t"
  have "rd io GCM_TAG0 w = fst t" "rd io GCM_TAG1 w = snd t"
    by (rule gcm_okD(3) [OF ok]; use g in \<open>simp add: gcm_rd.simps gh_st_def gh_run_def\<close>)+
  then show ?thesis by (simp add: rd128_def)
qed

lemma tag_to:
  assumes gok: "gcm_ok P io view" and l: "length d = length ct"
    and g: "gh_st view w (p_enc P key (0, 0)) (ghash_ref P (p_enc P key (0, 0)) (ghash_ref P (p_enc P key (0, 0)) (0, 0) aad) ct)"
  shows "gcm_free view (gcm_ghash_block io (gcm_lens aad d) w)" "aes_same view w (gcm_ghash_block io (gcm_lens aad d) w)"
    "st128 (xor2 (rd128 io GCM_TAG0 GCM_TAG1 (gcm_ghash_block io (gcm_lens aad d) w)) (p_enc P key (ld128 (gcm_iv iv)))) =
       gcm_tag P key iv aad ct"
proof -
  note b = ghash_block_to [OF gok g, of "gcm_lens aad d"]
  show "gcm_free view (gcm_ghash_block io (gcm_lens aad d) w)" "aes_same view w (gcm_ghash_block io (gcm_lens aad d) w)"
    using b by (simp_all add: gcm_free_def gh_st_def)
  have "gcm_lens aad d = gcm_lens aad ct" using l by (simp add: gcm_lens_def)
  then show "st128 (xor2 (rd128 io GCM_TAG0 GCM_TAG1 (gcm_ghash_block io (gcm_lens aad d) w)) (p_enc P key (ld128 (gcm_iv iv)))) =
       gcm_tag P key iv aad ct"
    unfolding rd_tag [OF gok b(1)] by (simp add: gcm_tag_def Let_def ghash_ref_16 lens_block)
qed

lemma xor2_comm: "xor2 a b = xor2 b a"
  by (simp add: xor2_def xor.commute)

lemma sw_block: "take (min 16 (length d)) (st128 (xor2 (ld128 (pad16 (take 16 d))) x)) = xor_bytes (take 16 d) (st128 x)"
  using take_pad16 [of "take 16 d" x] by (simp add: xor2_comm min.commute)

lemma ctr_ref_Cons: "d \<noteq> [] \<Longrightarrow>
    ctr_ref P key k c d = xor_bytes (take 16 d) (st128 (p_enc P key (ld128 c))) @ ctr_ref P key k (ctr_next k c) (drop 16 d)"
  by (subst ctr_ref.simps) simp

lemma ghash_ref_parts:
  assumes "length a \<le> 16" and "length a = 16 \<or> b = []"
  shows "ghash_ref P h t (a @ b) = ghash_ref P h (if a = [] then t else p_mul P (xor2 t (ld128 (pad16 a))) h) b"
  using assms by (cases "a = []") (auto simp: ghash_ref_append ghash_ref_16 pad16_full ghash_ref_one)

lemma gcm_sw_enc_to:
  assumes aok: "aes_ok P io view" and gok: "gcm_ok P io view"
  shows "aes_idle view w key \<Longrightarrow> gh_st view w h t \<Longrightarrow> length c = 16 \<Longrightarrow>
    fst (gcm_sw_enc io c d w) = ctr_ref P key 4 (ctr_next 4 c) d \<and>
    gh_st view (snd (gcm_sw_enc io c d w)) h (ghash_ref P h t (ctr_ref P key 4 (ctr_next 4 c) d)) \<and>
    aes_idle view (snd (gcm_sw_enc io c d w)) key \<and> d_sha (view (snd (gcm_sw_enc io c d w))) = d_sha (view w)"
proof (induction "length d" arbitrary: c d w t rule: less_induct)
  case less
  show ?case
  proof (cases "d = []")
    case True
    then show ?thesis using less.prems by (simp add: gcm_sw_enc.simps)
  next
    case False
    let ?c = "ctr_next 4 c"
    obtain ks w1 where e1: "aes_hw_encrypt io (ld128 ?c) w = (ks, w1)" by (cases "aes_hw_encrypt io (ld128 ?c) w")
    note e = crypt_block_to(1-3) [OF aok less.prems(1), of "ld128 ?c", unfolded e1 fst_conv snd_conv]
    define b where "b = xor_bytes (take 16 d) (st128 ks)"
    have "length b = min 16 (length d)" by (simp add: b_def)
    then have lb: "length b \<le> 16" "b \<noteq> []" "length b = 16 \<or> drop 16 d = []" using False by (auto simp: min_def split: if_splits)
    have g1: "gh_st view w1 h t" using less.prems(2) e(3) by (simp add: others_def gh_st_def gh_run_def)
    note gb = ghash_block_to [OF gok g1, of "ld128 (pad16 b)"]
    let ?w2 = "gcm_ghash_block io (ld128 (pad16 b)) w1"
    have a2: "aes_idle view ?w2 key" "d_sha (view ?w2) = d_sha (view w)"
      using e gb(2) by (simp_all add: aes_same_def aes_idle_def aes_st_def others_def)
    have ln: "length (drop 16 d) < length d" "length ?c = 16" using False less.prems(3) by simp_all
    note IH = less.hyps [OF ln(1) a2(1) gb(1) ln(2)]
    obtain ct w3 where e2: "gcm_sw_enc io ?c (drop 16 d) ?w2 = (ct, w3)" by (cases "gcm_sw_enc io ?c (drop 16 d) ?w2")
    have r: "gcm_sw_enc io c d w = (b @ ct, w3)"
      by (subst gcm_sw_enc.simps)
        (simp add: False ctr_inc_next less.prems(3) e1 sw_block b_def [symmetric] ghash_block_eq lb(1) e2)
    have cr: "ctr_ref P key 4 ?c d = b @ ct"
      using IH e2 e(1) by (simp add: ctr_ref_Cons [OF False] b_def)
    have c2: "ct = ctr_ref P key 4 (ctr_next 4 ?c) (drop 16 d)" using IH e2 by simp
    then have "length b = 16 \<or> ct = []" using lb(3) by auto
    from ghash_ref_parts [OF lb(1) this] have "ghash_ref P h t (b @ ct) = ghash_ref P h (p_mul P (xor2 t (ld128 (pad16 b))) h) ct"
      using lb(2) by simp
    then show ?thesis using IH e2 a2(2) unfolding r cr c2 [symmetric] by simp
  qed
qed

lemma gcm_sw_dec_to:
  assumes aok: "aes_ok P io view"
  shows "aes_idle view w key \<Longrightarrow> length c = 16 \<Longrightarrow> fst (gcm_sw_dec io c d w) = ctr_ref P key 4 (ctr_next 4 c) d \<and>
    aes_idle view (snd (gcm_sw_dec io c d w)) key \<and> others view w (snd (gcm_sw_dec io c d w))"
proof (induction "length d" arbitrary: c d w rule: less_induct)
  case less
  show ?case
  proof (cases "d = []")
    case True
    then show ?thesis using less.prems by (simp add: gcm_sw_dec.simps others_def)
  next
    case False
    let ?c = "ctr_next 4 c"
    note e = crypt_block_to(1-3) [OF aok less.prems(1), of "ld128 ?c"]
    have "length (drop 16 d) < length d" "length ?c = 16" using False less.prems(2) by simp_all
    from less.hyps [OF this(1) e(2) this(2)] show ?thesis
      using e False less.prems(2) others_trans [OF e(3)]
      by (auto simp: gcm_sw_dec.simps [of io c d w] ctr_inc_next Let_def case_prod_beta sw_block ctr_ref_Cons)
  qed
qed

lemma tag_diff_eq: "length a = 16 \<Longrightarrow> length b = 16 \<Longrightarrow> tag_diff a b = 0 \<longleftrightarrow> a = b"
proof -
  have *: "fold (\<lambda>i d. d OR (a ! i XOR b ! i)) xs d = 0 \<longleftrightarrow> d = 0 \<and> (\<forall>i \<in> set xs. a ! i = b ! i)" for xs and d :: u8
  proof (induction xs arbitrary: d)
    case (Cons x xs)
    have "p XOR q = 0 \<longleftrightarrow> p = q" for p q :: u8
    proof
      assume "p XOR q = 0"
      then have "(p XOR q) XOR q = 0 XOR q" by simp
      then show "p = q" by (simp add: xor.assoc)
    qed simp
    then have "d OR (a ! x XOR b ! x) = 0 \<longleftrightarrow> d = 0 \<and> a ! x = b ! x" by (simp add: or_eq_0_iff)
    then show ?case using Cons by auto
  qed simp
  assume "length a = 16" "length b = 16"
  then show ?thesis unfolding tag_diff_def * by (auto intro: nth_equalityI)
qed

text \<open>What both operations start with when the overlapped pass is not used: the hash key, the mask, the header.\<close>

lemma two_pass_start:
  fixes aad :: bytes
  assumes aok: "aes_ok P io view" and gok: "gcm_ok P io view" and a: "aes_idle view w key" and g: "gcm_free view w" and iv: "length iv = 12"
  defines "h \<equiv> p_enc P key (0, 0)"
  defines "e \<equiv> aes_hw_encrypt io (ld128 (gcm_j0 iv)) (gcm_load_h io w)"
  defines "w3 \<equiv> ghash_bytes io aad (wr io GCM_CTRL GCM_CTRL_RESET (snd e))"
  shows "fst e = p_enc P key (ld128 (gcm_iv iv))" "gh_st view w3 h (ghash_ref P h (0, 0) aad)" "aes_idle view w3 key"
    "d_sha (view w3) = d_sha (view w)"
proof -
  note l = load_h_to(4-6) [OF aok gok a g, folded h_def]
  note c = crypt_block_to(1-3) [OF aok l(2), of "ld128 (gcm_j0 iv)", folded e_def]
  show "fst e = p_enc P key (ld128 (gcm_iv iv))" using c(1) by (simp add: j0_iv iv)
  obtain t where "gh_st view (gcm_load_h io w) h t" using l(1) by blast
  then have ge: "gh_st view (snd e) h t" using c(3) by (simp add: others_def gh_st_def gh_run_def)
  then have nb: "\<not> g_busy (d_gcm (view (snd e)))" by (simp add: gh_st_def)
  let ?r = "wr io GCM_CTRL GCM_CTRL_RESET (snd e)"
  have v: "view ?r = (view (snd e))\<lparr>d_gcm := (d_gcm (view (snd e)))\<lparr>g_tag := (0, 0)\<rparr>\<rparr>" by (rule wr128_gcm(3) [OF gok nb])
  then have "gh_st view ?r h (0, 0)" using ge by (simp add: gh_st_def gh_run_def)
  note b = ghash_bytes_to [OF gok this, of aad, folded w3_def]
  show "gh_st view w3 h (ghash_ref P h (0, 0) aad)" "aes_idle view w3 key" "d_sha (view w3) = d_sha (view w)"
    using b c(2,3) l(3) v by (auto simp: aes_same_def aes_idle_def aes_st_def others_def)
qed

lemma gcm_enc_body_to:
  assumes aok: "aes_ok P io view" and gok: "gcm_ok P io view" and a: "aes_idle view w key" and g: "gh_st view w h t" and iv: "length iv = 12"
  shows "fst (gcm_enc_body io iv pt w) = gcm_crypt P key iv pt \<and>
    gh_st view (snd (gcm_enc_body io iv pt w)) h (ghash_ref P h t (gcm_crypt P key iv pt)) \<and>
    aes_idle view (snd (gcm_enc_body io iv pt w)) key \<and> d_sha (view (snd (gcm_enc_body io iv pt w))) = d_sha (view w)"
proof (cases "ctr_inc32_caps io")
  case True
  let ?c = "(gcm_j0 iv)[15 := 2]"
  have c16: "length ?c = 16" using length_gcm_iv [OF iv] by (simp add: j0_next iv)
  obtain ct ctr ks u where r: "aes_ctr_hw io ?c pt True None w = (ct, ctr, ks, u)" by (cases "aes_ctr_hw io ?c pt True None w")
  note h = aes_ctr_hw_to [OF aok a c16, of pt True None, unfolded r fst_conv snd_conv if_True]
  have ct: "ct = gcm_crypt P key iv pt" using h(1) by (simp add: gcm_crypt_def j0_next iv)
  have "gh_st view u h t" using h(5) g by (simp add: others_def gh_st_def gh_run_def)
  from ghash_bytes_to [OF gok this, of ct] show ?thesis
    using True ct h(4,5) by (auto simp: gcm_enc_body_def r others_def aes_same_def aes_idle_def aes_st_def)
next
  case False
  then show ?thesis
    using gcm_sw_enc_to [OF aok gok a g length_gcm_iv [OF iv], of pt] by (simp add: gcm_enc_body_def j0_iv iv gcm_crypt_def)
qed

lemma gcm_encrypt_one_pass:
  assumes aok: "aes_ok P io view" and gok: "gcm_ok P io view" and a: "aes_idle view w key" and g: "gcm_free view w" and iv: "length iv = 12"
    and cap: "gcm_ctr_caps io sp"
  shows "\<exists>w'. aes_gcm_encrypt io sp iv aad pt w = (gcm_crypt P key iv pt, gcm_tag P key iv aad (gcm_crypt P key iv pt), w') \<and>
    aes_idle view w' key \<and> gcm_free view w' \<and> d_sha (view w') = d_sha (view w)"
proof -
  let ?h = "p_enc P key (0, 0)" and ?c = "ctr_next 4 (gcm_iv iv)" and ?ct = "gcm_crypt P key iv pt"
  let ?A = "ghash_ref P (p_enc P key (0, 0)) (0, 0) aad"
  have c16: "length ?c = 16" using length_gcm_iv [OF iv] by simp
  have lp: "length pt = length ?ct" by (simp add: gcm_crypt_def)
  define s where "s = gcm_ctr_setup io iv aad w"
  note st = setup_to [OF aok gok a g iv, of aad, folded s_def]
  define x where "x = gcm_ctr_ghash io pt False (snd s)"
  have gr: "gh_run view (snd s) ?h ?A" using st(3) by (simp add: gh_st_def)
  note xs = gcm_ctr_ghash_to [OF aok gok st(2) c16 mode_inc32 gr, of pt False, folded x_def]
  have gx: "gh_st view (snd x) ?h (ghash_ref P ?h ?A ?ct)" using xs(2) by (simp add: gcm_crypt_def)
  note t = tag_to [OF gok lp gx]
  have "aes_gcm_encrypt io sp iv aad pt w = (?ct, gcm_tag P key iv aad ?ct, gcm_ghash_block io (gcm_lens aad pt) (snd x))"
    using cap t(3) [of iv] xs(1) st(1)
    by (simp add: aes_gcm_encrypt_def gcm_ctr_tag_def Let_def case_prod_beta s_def [symmetric] x_def [symmetric] gcm_crypt_def)
  then show ?thesis using t(1,2) xs(3,4) st(4) by (auto simp: aes_same_def aes_idle_def aes_st_def)
qed

lemma gcm_encrypt_two_pass:
  assumes aok: "aes_ok P io view" and gok: "gcm_ok P io view" and a: "aes_idle view w key" and g: "gcm_free view w" and iv: "length iv = 12"
    and cap: "\<not> gcm_ctr_caps io sp"
  shows "\<exists>w'. aes_gcm_encrypt io sp iv aad pt w = (gcm_crypt P key iv pt, gcm_tag P key iv aad (gcm_crypt P key iv pt), w') \<and>
    aes_idle view w' key \<and> gcm_free view w' \<and> d_sha (view w') = d_sha (view w)"
proof -
  let ?ct = "gcm_crypt P key iv pt"
  have lp: "length pt = length ?ct" by (simp add: gcm_crypt_def)
  define e where "e = aes_hw_encrypt io (ld128 (gcm_j0 iv)) (gcm_load_h io w)"
  define w3 where "w3 = ghash_bytes io aad (wr io GCM_CTRL GCM_CTRL_RESET (snd e))"
  note st0 = two_pass_start(1) [OF aok gok a g iv, folded e_def]
  note st = two_pass_start(2-4) [OF aok gok a g iv, of aad, folded e_def, folded w3_def]
  define x where "x = gcm_enc_body io iv pt w3"
  note x = gcm_enc_body_to [OF aok gok st(2,1) iv, of pt, folded x_def]
  note t = tag_to [OF gok lp x [THEN conjunct2, THEN conjunct1]]
  obtain m w2 where e2: "e = (m, w2)" by (cases e)
  obtain ct w4 where x2: "x = (ct, w4)" by (cases x)
  have w3: "ghash_bytes io aad (wr io GCM_CTRL GCM_CTRL_RESET w2) = w3" by (simp add: w3_def e2)
  have "aes_gcm_encrypt io sp iv aad pt w = (?ct, gcm_tag P key iv aad ?ct, gcm_ghash_block io (gcm_lens aad pt) (snd x))"
    unfolding aes_gcm_encrypt_def Let_def if_not_P [OF cap] e_def [symmetric] e2 prod.case w3 x_def [symmetric] x2
    using t(3) [of iv] x st0 by (simp add: e2 x2)
  then show ?thesis using t(1,2) x st(3) by (auto simp: aes_same_def aes_idle_def aes_st_def)
qed

lemma gcm_encrypt_to:
  assumes "aes_ok P io view" and "gcm_ok P io view" and "aes_idle view w key" and "gcm_free view w" and "length iv = 12"
  shows "\<exists>w'. aes_gcm_encrypt io sp iv aad pt w = (gcm_crypt P key iv pt, gcm_tag P key iv aad (gcm_crypt P key iv pt), w') \<and>
    aes_idle view w' key \<and> gcm_free view w' \<and> d_sha (view w') = d_sha (view w)"
  using gcm_encrypt_one_pass [OF assms] gcm_encrypt_two_pass [OF assms] by (cases "gcm_ctr_caps io sp") blast+

lemma length_gcm_tag [simp]: "length (gcm_tag P key iv aad ct) = 16"
  by (simp add: gcm_tag_def Let_def)

lemma gcm_decrypt_one_pass:
  assumes aok: "aes_ok P io view" and gok: "gcm_ok P io view" and a: "aes_idle view w key" and g: "gcm_free view w" and iv: "length iv = 12"
    and tg: "length tag_in = 16" and cap: "gcm_ctr_caps io sp"
  shows "\<exists>w'. aes_gcm_decrypt io sp iv aad ct tag_in w =
      (if tag_in = gcm_tag P key iv aad ct then (0, gcm_crypt P key iv ct, w') else (- 1, replicate (length ct) 0, w')) \<and>
    aes_idle view w' key \<and> gcm_free view w' \<and> d_sha (view w') = d_sha (view w)"
proof -
  let ?h = "p_enc P key (0, 0)" and ?c = "ctr_next 4 (gcm_iv iv)" and ?tag = "gcm_tag P key iv aad ct"
  let ?A = "ghash_ref P (p_enc P key (0, 0)) (0, 0) aad"
  have c16: "length ?c = 16" using length_gcm_iv [OF iv] by simp
  have df: "tag_diff ?tag tag_in \<noteq> 0 \<longleftrightarrow> tag_in \<noteq> ?tag" using tag_diff_eq [of ?tag tag_in] tg by auto
  define s where "s = gcm_ctr_setup io iv aad w"
  note st = setup_to [OF aok gok a g iv, of aad, folded s_def]
  define x where "x = gcm_ctr_ghash io ct True (snd s)"
  have gr: "gh_run view (snd s) ?h ?A" using st(3) by (simp add: gh_st_def)
  note xs = gcm_ctr_ghash_to [OF aok gok st(2) c16 mode_inc32 gr, of ct True, folded x_def, unfolded if_True]
  note t = tag_to [OF gok refl xs(2)]
  let ?w' = "gcm_ghash_block io (gcm_lens aad ct) (snd x)"
  have "aes_gcm_decrypt io sp iv aad ct tag_in w =
      (if tag_diff ?tag tag_in \<noteq> 0 then (- 1, replicate (length ct) 0, ?w') else (0, gcm_crypt P key iv ct, ?w'))"
    using cap t(3) [of iv] xs(1) st(1)
    by (simp add: aes_gcm_decrypt_def gcm_ctr_tag_def Let_def case_prod_beta s_def [symmetric] x_def [symmetric] gcm_crypt_def)
  then have r: "aes_gcm_decrypt io sp iv aad ct tag_in w =
      (if tag_in = ?tag then (0, gcm_crypt P key iv ct, ?w') else (- 1, replicate (length ct) 0, ?w'))" unfolding df by simp
  show ?thesis unfolding r using t(1,2) xs(3,4) st(4) by (intro exI [of _ ?w']) (auto simp: aes_same_def aes_idle_def aes_st_def)
qed

lemma gcm_decrypt_two_pass:
  assumes aok: "aes_ok P io view" and gok: "gcm_ok P io view" and a: "aes_idle view w key" and g: "gcm_free view w" and iv: "length iv = 12"
    and tg: "length tag_in = 16" and cap: "\<not> gcm_ctr_caps io sp"
  shows "\<exists>w'. aes_gcm_decrypt io sp iv aad ct tag_in w =
      (if tag_in = gcm_tag P key iv aad ct then (0, gcm_crypt P key iv ct, w') else (- 1, replicate (length ct) 0, w')) \<and>
    aes_idle view w' key \<and> gcm_free view w' \<and> d_sha (view w') = d_sha (view w)"
proof -
  let ?h = "p_enc P key (0, 0)" and ?c = "ctr_next 4 (gcm_iv iv)" and ?tag = "gcm_tag P key iv aad ct"
  let ?A = "ghash_ref P (p_enc P key (0, 0)) (0, 0) aad"
  have c16: "length ?c = 16" using length_gcm_iv [OF iv] by simp
  have df: "tag_diff ?tag tag_in \<noteq> 0 \<longleftrightarrow> tag_in \<noteq> ?tag" using tag_diff_eq [of ?tag tag_in] tg by auto
  define e where "e = aes_hw_encrypt io (ld128 (gcm_j0 iv)) (gcm_load_h io w)"
  define w3 where "w3 = ghash_bytes io aad (wr io GCM_CTRL GCM_CTRL_RESET (snd e))"
  note st0 = two_pass_start(1) [OF aok gok a g iv, folded e_def]
  note st = two_pass_start(2-4) [OF aok gok a g iv, of aad, folded e_def, folded w3_def]
  note gc = ghash_bytes_to [OF gok st(1), of ct]
  note t = tag_to [OF gok refl gc [THEN conjunct1]]
  define w4 where "w4 = gcm_ghash_block io (gcm_lens aad ct) (ghash_bytes io ct w3)"
  have a4: "aes_idle view w4 key" "gcm_free view w4" "d_sha (view w4) = d_sha (view w)"
    using t(1,2) gc st(2,3) by (auto simp: w4_def aes_same_def aes_idle_def aes_st_def)
  obtain m w2 where e2: "e = (m, w2)" by (cases e)
  have w3: "ghash_bytes io aad (wr io GCM_CTRL GCM_CTRL_RESET w2) = w3" by (simp add: w3_def e2)
  have ct: "st128 (xor2 (rd128 io GCM_TAG0 GCM_TAG1 w4) m) = ?tag" using t(3) [of iv] st0 by (simp add: w4_def e2)
  have r: "aes_gcm_decrypt io sp iv aad ct tag_in w =
      (if tag_diff ?tag tag_in \<noteq> 0 then (- 1, replicate (length ct) 0, w4)
       else if ctr_inc32_caps io then case aes_ctr_hw io ((gcm_j0 iv)[15 := 2]) ct True None w4 of (pt, ctr, ks, w5) \<Rightarrow> (0, pt, w5)
       else case gcm_sw_dec io (gcm_j0 iv) ct w4 of (pt, w5) \<Rightarrow> (0, pt, w5))"
    unfolding aes_gcm_decrypt_def Let_def if_not_P [OF cap] e_def [symmetric] e2 prod.case w3 w4_def [symmetric] ct ..
  show ?thesis
  proof (cases "tag_in = ?tag")
    case False
    then show ?thesis unfolding r df using a4 by auto
  next
    case True
    have h: "fst (aes_ctr_hw io ((gcm_j0 iv)[15 := 2]) ct True None w4) = gcm_crypt P key iv ct"
      "aes_idle view (snd (snd (snd (aes_ctr_hw io ((gcm_j0 iv)[15 := 2]) ct True None w4)))) key"
      "others view w4 (snd (snd (snd (aes_ctr_hw io ((gcm_j0 iv)[15 := 2]) ct True None w4))))"
      using aes_ctr_hw_to [OF aok a4(1) c16, of ct True None] by (simp_all add: gcm_crypt_def j0_next iv)
    note sw = gcm_sw_dec_to [OF aok a4(1) length_gcm_iv [OF iv], of ct]
    show ?thesis
    proof (cases "ctr_inc32_caps io")
      case True
      then show ?thesis unfolding r df using h a4 \<open>tag_in = ?tag\<close> by (auto simp: case_prod_beta others_def gcm_free_def)
    next
      case False
      have "gcm_sw_dec io (gcm_iv iv) ct w4 = (gcm_crypt P key iv ct, snd (gcm_sw_dec io (gcm_iv iv) ct w4))"
        using sw by (simp add: prod_eq_iff gcm_crypt_def)
      then show ?thesis unfolding r df using sw a4 \<open>tag_in = ?tag\<close> False
        by (intro exI [of _ "snd (gcm_sw_dec io (gcm_iv iv) ct w4)"]) (simp add: case_prod_beta others_def gcm_free_def j0_iv iv gcm_crypt_def)
    qed
  qed
qed

lemmas gcm_decrypt_to = gcm_decrypt_one_pass gcm_decrypt_two_pass

section \<open>Properties\<close>

text \<open>
  Counter mode is counter mode, on the hardware counter and in software.  With either
  kind of bitstream \<^verbatim>\<open>aes_ctr\<close> is AES counter mode with the 128-bit big-endian counter, so
  the two paths agree on every message, and applying it twice gives the message back.
\<close>

theorem aes_ctr_exact:
  assumes "aes_ok P io view" and "aes_idle view w key"
  shows "fst (aes_ctr io nonce d w) = ctr_ref P key 16 (st128 nonce) d \<and>
    (case aes_ctr io nonce d w of (c, w1) \<Rightarrow> fst (aes_ctr io nonce c w1)) = d"
  using aes_ctr_to [OF assms, of nonce d] aes_ctr_to(1) [OF assms(1), of "snd (aes_ctr io nonce d w)" key nonce]
  by (simp add: case_prod_beta ctr_ref_twice)

theorem aes_ctr_exact_witness:
  "aes_ok soft_prims soft_io id \<and> fst (aes_ctr soft_io (7, 9) [1, 2, 3] soft_dev) = ctr_ref soft_prims (0, 0) 16 (st128 (7, 9)) [1, 2, 3]"
proof -
  have "aes_idle id soft_dev (0, 0)" by (simp add: aes_idle_def aes_st_def soft_dev_def)
  then show ?thesis using aes_ctr_exact [OF soft_ok(1), of soft_dev "(0, 0)" "(7, 9)" "[1, 2, 3]"] soft_ok(1) by simp
qed

text \<open>
  C5: the three ways to encrypt in Galois/counter mode agree with the standard.  For every
  12-byte nonce, header and plaintext, whatever the bitstream's capabilities and the switch
  for the overlapped pass, the ciphertext and the tag are those of AES-GCM; and after the
  call both units are idle, whatever was overlapped.
\<close>

theorem aes_gcm_encrypt_exact:
  assumes "aes_ok P io view" and "gcm_ok P io view" and "aes_idle view w key" and "gcm_free view w" and "length iv = 12"
  shows "\<exists>w'. aes_gcm_encrypt io sp iv aad pt w = (gcm_crypt P key iv pt, gcm_tag P key iv aad (gcm_crypt P key iv pt), w') \<and>
    aes_idle view w' key \<and> gcm_free view w'"
  using gcm_encrypt_to [OF assms, of sp aad pt] by blast

theorem aes_gcm_encrypt_exact_witness:
  "aes_ok soft_prims soft_io id \<and> gcm_ok soft_prims soft_io id \<and>
   fst (aes_gcm_encrypt soft_io True (replicate 12 1) [4] [1, 2, 3] soft_dev) = gcm_crypt soft_prims (0, 0) (replicate 12 1) [1, 2, 3]"
proof -
  have "aes_idle id soft_dev (0, 0)" "gcm_free id soft_dev" by (simp_all add: aes_idle_def aes_st_def gcm_free_def soft_dev_def)
  from aes_gcm_encrypt_exact [OF soft_ok(1,2) this, of "replicate 12 1" True "[4]" "[1, 2, 3]"] show ?thesis
    using soft_ok by auto
qed

text \<open>
  C6: decryption checks the tag, and returns what was encrypted.  \<^verbatim>\<open>aes_gcm_decrypt\<close> returns
  -1 and a buffer of zeros exactly if the tag is not the GCM tag of header and ciphertext,
  and otherwise 0 and the decryption; applied to the output of \<^verbatim>\<open>aes_gcm_encrypt\<close>, on the
  same path or another one, it returns the plaintext.
\<close>

theorem aes_gcm_decrypt_exact:
  assumes "aes_ok P io view" and "gcm_ok P io view" and "aes_idle view w key" and "gcm_free view w" and "length iv = 12"
    and "length tag = 16"
  shows "(\<exists>w'. aes_gcm_decrypt io sp iv aad ct tag w =
        (if tag = gcm_tag P key iv aad ct then (0, gcm_crypt P key iv ct, w') else (- 1, replicate (length ct) 0, w'))) \<and>
    (\<exists>w'. (case aes_gcm_encrypt io sp' iv aad pt w of (c, t, w1) \<Rightarrow> aes_gcm_decrypt io sp iv aad c t w1) = (0, pt, w'))"
proof -
  obtain w1 where e: "aes_gcm_encrypt io sp' iv aad pt w = (gcm_crypt P key iv pt, gcm_tag P key iv aad (gcm_crypt P key iv pt), w1)"
      "aes_idle view w1 key" "gcm_free view w1"
    using gcm_encrypt_to [OF assms(1-5), of sp' aad pt] by blast
  have "gcm_crypt P key iv (gcm_crypt P key iv pt) = pt" by (simp add: gcm_crypt_def ctr_ref_twice)
  then show ?thesis
    using gcm_decrypt_to [OF assms, where sp = sp and aad = aad and ct = ct]
      gcm_decrypt_to [OF assms(1,2) e(2,3) assms(5) length_gcm_tag, where sp = sp and aad = aad and ct = "gcm_crypt P key iv pt"]
    by (cases "gcm_ctr_caps io sp") (simp add: e(1), metis)+
qed

theorem aes_gcm_decrypt_exact_witness:
  "aes_ok soft_prims soft_io id \<and> gcm_ok soft_prims soft_io id \<and>
   (\<exists>w'. (case aes_gcm_encrypt soft_io True (replicate 12 1) [4] [1, 2, 3] soft_dev of
      (c, t, w1) \<Rightarrow> aes_gcm_decrypt soft_io False (replicate 12 1) [4] c t w1) = (0, [1, 2, 3], w'))"
proof -
  have "aes_idle id soft_dev (0, 0)" "gcm_free id soft_dev" by (simp_all add: aes_idle_def aes_st_def gcm_free_def soft_dev_def)
  then show ?thesis
    using aes_gcm_decrypt_exact [OF soft_ok(1,2), of soft_dev "(0, 0)" "replicate 12 1" "replicate 16 0" False "[4]" "[]" True "[1, 2, 3]"] soft_ok
    by simp
qed

end
