(* ===== verification/Ctr_Stream.thy ===== *)
theory Ctr_Stream
  imports Aes_Driver
begin

unbundle bit_operations_syntax

text \<open>
  Counter mode as a stream: a context keeps the next counter block and the unused end of the
  last keystream block, and every call goes on where the one before stopped.  The loop that
  uses up the kept keystream is shared by the drivers above \<^verbatim>\<open>src/crypto_hw.c\<close>; the locale
  states what each of them promises and what follows for a sequence of calls.
\<close>

section \<open>Kept keystream\<close>

text \<open>
  The loop at the head of \<^verbatim>\<open>ctr_crypt\<close> and \<^verbatim>\<open>hw_ctr\<close>: output, keystream bytes still left,
  and the input not consumed.
\<close>

fun ks_drain :: "bytes \<Rightarrow> 'l::len word \<Rightarrow> bytes \<Rightarrow> bytes \<times> 'l word \<times> bytes" where
  "ks_drain ks left [] = ([], left, [])"
| "ks_drain ks left (b # inp) =
     (if left \<noteq> 0 then
        case ks_drain ks (left - 1) inp of (out, l, rest) \<Rightarrow> ((b XOR ks ! (16 - unat left)) # out, l, rest)
      else ([], left, b # inp))"

section \<open>The keystream\<close>

definition ks_block :: "prims \<Rightarrow> blk \<Rightarrow> bytes \<Rightarrow> nat \<Rightarrow> bytes" where
  "ks_block P key iv n = st128 (p_enc P key (ld128 (ctr_after 16 iv n)))"

definition ks_at :: "prims \<Rightarrow> blk \<Rightarrow> bytes \<Rightarrow> nat \<Rightarrow> u8" where
  "ks_at P key iv i = ks_block P key iv (i div 16) ! (i mod 16)"

text \<open>The bytes of counter mode from position \<open>n\<close> of the stream on.\<close>

definition crypt_from :: "prims \<Rightarrow> blk \<Rightarrow> bytes \<Rightarrow> nat \<Rightarrow> bytes \<Rightarrow> bytes" where
  "crypt_from P key iv n d = map (\<lambda>i. d ! i XOR ks_at P key iv (n + i)) [0..<length d]"

lemma length_crypt_from [simp]: "length (crypt_from P key iv n d) = length d"
  by (simp add: crypt_from_def)

lemma nth_crypt_from [simp]: "i < length d \<Longrightarrow> crypt_from P key iv n d ! i = d ! i XOR ks_at P key iv (n + i)"
  by (simp add: crypt_from_def)

lemma crypt_from_Nil [simp]: "crypt_from P key iv n [] = []"
  by (simp add: crypt_from_def)

lemma crypt_from_append: "crypt_from P key iv n (a @ b) = crypt_from P key iv n a @ crypt_from P key iv (n + length a) b"
  by (rule nth_equalityI) (auto simp: nth_append add.assoc)

lemma crypt_from_Cons: "crypt_from P key iv n (b # d) = (b XOR ks_at P key iv n) # crypt_from P key iv (Suc n) d"
  using crypt_from_append [of P key iv n "[b]" d] by (simp add: crypt_from_def)

lemma ctr_after_add: "ctr_after k (ctr_after k c m) n = ctr_after k c (m + n)"
  by (simp add: ctr_after_def add.commute [of m n] funpow_add)

lemma crypt_from_short:
  assumes "length d \<le> 16"
  shows "crypt_from P key iv (16 * m) d = xor_bytes d (ks_block P key iv m)"
  using assms by (intro nth_equalityI) (auto simp: xor_bytes_def ks_at_def ks_block_def)

lemma ctr_ref_from: "ctr_ref P key 16 (ctr_after 16 iv m) d = crypt_from P key iv (16 * m) d"
proof (induction "length d" arbitrary: m d rule: less_induct)
  case less
  show ?case
  proof (cases "d = []")
    case False
    have "ctr_ref P key 16 (ctr_after 16 iv m) d =
        xor_bytes (take 16 d) (ks_block P key iv m) @ ctr_ref P key 16 (ctr_after 16 iv (Suc m)) (drop 16 d)"
      using False by (simp add: ctr_ref.simps [of P key 16 _ d] ks_block_def ctr_after_snoc)
    also have "\<dots> = crypt_from P key iv (16 * m) (take 16 d) @ crypt_from P key iv (16 * Suc m) (drop 16 d)"
      using False less [of "drop 16 d" "Suc m"] by (simp add: crypt_from_short)
    also have "\<dots> = crypt_from P key iv (16 * m) (take 16 d @ drop 16 d)"
      by (cases "16 \<le> length d") (simp_all only: crypt_from_append, simp_all add: add.commute)
    finally show ?thesis by simp
  qed simp
qed

lemma ctr_ref_stream: "ctr_ref P key 16 iv d = crypt_from P key iv 0 d"
  using ctr_ref_from [of P key iv 0 d] by simp

lemma crypt_from_twice: "crypt_from P key iv n (crypt_from P key iv n d) = d"
  by (rule nth_equalityI) (auto simp: xor.assoc)

section \<open>Stream positions\<close>

text \<open>A counter block, a kept keystream block and the number of its unused bytes, at position \<open>n\<close>.\<close>

definition stream_at :: "prims \<Rightarrow> blk \<Rightarrow> bytes \<Rightarrow> nat \<Rightarrow> bytes \<Rightarrow> bytes \<Rightarrow> 'l::len word \<Rightarrow> bool" where
  "stream_at P key iv n ctr ks left \<longleftrightarrow> length iv = 16 \<and> ctr = ctr_after 16 iv ((n + 15) div 16) \<and>
     unat left = (16 - n mod 16) mod 16 \<and> (n mod 16 \<noteq> 0 \<longrightarrow> ks = ks_block P key iv (n div 16))"

lemma stream_start: "length iv = 16 \<Longrightarrow> stream_at P key iv 0 iv ks 0"
  by (simp add: stream_at_def)

lemma stream_length: "stream_at P key iv n ctr ks left \<Longrightarrow> length ctr = 16"
  by (simp add: stream_at_def)

lemma stream_aligned:
  assumes "stream_at P key iv n ctr ks (0 :: 'l::len word)"
  obtains m where "n = 16 * m" "ctr = ctr_after 16 iv m"
proof -
  have "(16 - n mod 16) mod 16 = 0" using assms by (simp add: stream_at_def)
  then have "n mod 16 = 0" using mod_less_divisor [of 16 n] by (cases "n mod 16 = 0") auto
  then obtain m where n: "n = 16 * m" by (auto simp: mod_eq_0_iff_dvd elim!: dvdE)
  have "ctr = ctr_after 16 iv m" using assms by (simp add: stream_at_def n)
  with n show ?thesis by (rule that)
qed

lemma stream_step:
  assumes "stream_at P key iv n ctr ks (left :: 'l::len word)" and "left \<noteq> 0"
  shows "ks ! (16 - unat left) = ks_at P key iv n" "stream_at P key iv (Suc n) ctr ks (left - 1)"
proof -
  have u: "unat left \<noteq> 0" using assms(2) by (simp add: unat_eq_0)
  define q r where "q = n div 16" and "r = n mod 16"
  have n: "n = 16 * q + r" and r16: "r < 16" by (simp_all add: q_def r_def)
  have l: "unat left = (16 - r) mod 16" using assms(1) by (simp add: stream_at_def r_def)
  have r: "0 < r" using u l by (cases "r = 0") auto
  then have l16: "unat left = 16 - r" using l by simp
  have d: "(16 * q + r + 15) div 16 = Suc q" "(16 * q + r) div 16 = q" "(16 * q + r) mod 16 = r"
    using r r16 by auto
  have iv: "length iv = 16" and ks: "ks = ks_block P key iv q" and c: "ctr = ctr_after 16 iv (Suc q)"
    using assms(1) r unfolding stream_at_def n d by auto
  show "ks ! (16 - unat left) = ks_at P key iv n" using l16 r16 by (simp add: ks_at_def ks n d)
  have u1: "unat (left - 1) = 15 - r" using assms(2) l16 by (simp add: unat_minus_one)
  have e: "(Suc (16 * q + r) + 15) div 16 = Suc q" using r16 by auto
  show "stream_at P key iv (Suc n) ctr ks (left - 1)"
  proof (cases "r = 15")
    case True
    then show ?thesis using u1 iv c by (simp add: stream_at_def n)
  next
    case False
    then have "Suc (16 * q + r) mod 16 = Suc r" "Suc (16 * q + r) div 16 = q" using r16 by auto
    then show ?thesis using u1 iv c ks e False r16 unfolding stream_at_def n by simp
  qed
qed

lemma drain_to:
  fixes left l' :: "'l::len word"
  shows "stream_at P key iv n ctr ks left \<Longrightarrow> ks_drain ks left d = (out, l', rest) \<Longrightarrow>
    \<exists>a. d = a @ rest \<and> out = crypt_from P key iv n a \<and> stream_at P key iv (n + length a) ctr ks l' \<and> (rest \<noteq> [] \<longrightarrow> l' = 0)"
proof (induction d arbitrary: n left out)
  case (Cons b d)
  show ?case
  proof (cases "left = 0")
    case False
    obtain o2 l2 r2 where e: "ks_drain ks (left - 1) d = (o2, l2, r2)" by (cases "ks_drain ks (left - 1) d")
    note s = stream_step [OF Cons.prems(1) False]
    have x: "l2 = l'" "r2 = rest" "out = (b XOR ks_at P key iv n) # o2" using Cons.prems(2) False e s(1) by auto
    from Cons.IH [OF s(2) e [unfolded x]] obtain a where
      "d = a @ rest" "o2 = crypt_from P key iv (Suc n) a" "stream_at P key iv (Suc n + length a) ctr ks l'" "rest \<noteq> [] \<longrightarrow> l' = 0"
      by blast
    then show ?thesis using x by (intro exI [of _ "b # a"]) (simp add: crypt_from_Cons)
  qed (use Cons.prems in auto)
qed auto

lemma stream_advance:
  assumes "length iv = 16" and "unat (left :: 'l::len word) = (16 - length d mod 16) mod 16"
    and "length d mod 16 \<noteq> 0 \<Longrightarrow> ks = ks_block P key iv (m + length d div 16)"
  shows "stream_at P key iv (16 * m + length d) (ctr_after 16 (ctr_after 16 iv m) ((length d + 15) div 16)) ks left"
proof -
  have "(16 * m + length d + 15) div 16 = m + (length d + 15) div 16" by (simp add: add.assoc)
  then show ?thesis using assms by (simp add: stream_at_def ctr_after_add)
qed

section \<open>Stream ciphers\<close>

text \<open>The hardware as a driver sees it: what it promises, and the AES unit at rest with any key.\<close>

definition aes_ready :: "prims \<times> 'w cio \<times> ('w \<Rightarrow> dev) \<Rightarrow> 'w \<Rightarrow> bool" where
  "aes_ready e w = (case e of (P, io, view) \<Rightarrow> aes_ok P io view \<and> (\<exists>k. aes_idle view w k))"

text \<open>
  What a driver promises of its stream: from a context at some position the next bytes of
  the stream, a context that many bytes further, and a device ready for the next call.  The
  environment \<open>e\<close> is the hardware and its primitives.
\<close>

locale stream_cipher =
  fixes crypt :: "'e \<Rightarrow> 'c \<Rightarrow> bytes \<Rightarrow> 'w \<Rightarrow> bytes \<times> 'c \<times> 'w"
    and prims_of :: "'e \<Rightarrow> prims"
    and ready :: "'e \<Rightarrow> 'w \<Rightarrow> bool"
    and at :: "'e \<Rightarrow> blk \<Rightarrow> bytes \<Rightarrow> nat \<Rightarrow> 'c \<Rightarrow> bool"
  assumes crypt_at: "\<lbrakk>ready e w; at e key iv n c; crypt e c d w = (out, c', w')\<rbrakk> \<Longrightarrow>
    out = crypt_from (prims_of e) key iv n d \<and> at e key iv (n + length d) c' \<and> ready e w'"
begin

fun run :: "'e \<Rightarrow> 'c \<Rightarrow> bytes list \<Rightarrow> 'w \<Rightarrow> bytes \<times> 'c \<times> 'w" where
  "run e c [] w = ([], c, w)"
| "run e c (d # ds) w = (case crypt e c d w of (o1, c1, w1) \<Rightarrow> case run e c1 ds w1 of (o2, c2, w2) \<Rightarrow> (o1 @ o2, c2, w2))"

lemma run_at:
  "\<lbrakk>ready e w; at e key iv n c; run e c ds w = (out, c', w')\<rbrakk> \<Longrightarrow>
   out = crypt_from (prims_of e) key iv n (concat ds) \<and> at e key iv (n + length (concat ds)) c' \<and> ready e w'"
proof (induction ds arbitrary: n c w out)
  case (Cons d ds)
  obtain o1 c1 w1 where 1: "crypt e c d w = (o1, c1, w1)" by (cases "crypt e c d w")
  obtain o2 c2 w2 where 2: "run e c1 ds w1 = (o2, c2, w2)" by (cases "run e c1 ds w1")
  note a = crypt_at [OF Cons.prems(1,2) 1]
  have x: "out = o1 @ o2" "c2 = c'" "w2 = w'" using Cons.prems(3) 1 2 by auto
  from Cons.IH [of w1 "n + length d" c1 o2] a 2 x show ?case by (simp add: crypt_from_append add.assoc)
qed simp

end

end
