(* ===== verification/Psa_Driver.thy ===== *)
theory Psa_Driver
  imports Sha_Driver Ctr_Stream
begin

unbundle bit_operations_syntax

text \<open>
  The PSA accelerator driver \<^verbatim>\<open>drivers/crypto/psa_klausscpu.c\<close>: SHA-256 and AES-128-CTR
  operations of the PSA interface on top of \<^verbatim>\<open>src/crypto_hw.c\<close>.  Any number of operations is
  in flight at once; the hardware belongs to one of them only inside a section under the lock
  of its unit.  The operations are compared with an interface that keeps the message of every
  operation and knows nothing of the hardware.
\<close>

section \<open>Hash operations\<close>

datatype psa_status = PSA_SUCCESS | PSA_ERROR_NOT_SUPPORTED | PSA_ERROR_BUFFER_TOO_SMALL | PSA_ERROR_INVALID_ARGUMENT

text \<open>The algorithms and key types the driver tells apart; every other one is an \<open>OTHER\<close>.\<close>

datatype psa_algorithm = PSA_ALG_SHA_256 | PSA_ALG_CTR | PSA_ALG_OTHER nat

datatype psa_key_type = PSA_KEY_TYPE_AES | PSA_KEY_TYPE_OTHER nat

definition SHA_CAP_RESTORE_BIT :: u64 where "SHA_CAP_RESTORE_BIT = 1"

definition AES_CAP_CTR_BIT :: u64 where "AES_CAP_CTR_BIT = 1"

definition sha_hw :: "'w cio \<Rightarrow> psa_algorithm \<Rightarrow> bool" where
  "sha_hw io alg \<longleftrightarrow> alg = PSA_ALG_SHA_256 \<and> sha_cap io AND SHA_CAP_RESTORE_BIT \<noteq> 0"

definition hash_setup :: "'w cio \<Rightarrow> rctx \<Rightarrow> psa_algorithm \<Rightarrow> psa_status \<times> rctx" where
  "hash_setup io ctx alg = (if \<not> sha_hw io alg then (PSA_ERROR_NOT_SUPPORTED, ctx) else (PSA_SUCCESS, sha256_hw_rinit ctx))"

definition hash_clone :: "rctx \<Rightarrow> rctx \<Rightarrow> psa_status \<times> rctx" where
  "hash_clone src dst = (PSA_SUCCESS, src)"

definition hash_update :: "'w cio \<Rightarrow> rctx \<Rightarrow> bytes \<Rightarrow> 'w \<Rightarrow> psa_status \<times> rctx \<times> 'w" where
  "hash_update io ctx inp w = (PSA_SUCCESS, sha256_hw_rupdate io ctx inp w)"

text \<open>The digest and its length are written only if the call succeeds.\<close>

definition hash_finish :: "'w cio \<Rightarrow> rctx \<Rightarrow> nat \<Rightarrow> 'w \<Rightarrow> psa_status \<times> bytes option \<times> rctx \<times> 'w" where
  "hash_finish io ctx hash_size w =
     (if hash_size < 32 then (PSA_ERROR_BUFFER_TOO_SMALL, None, ctx, w)
      else case sha256_hw_rfinal io ctx w of (hash, ctx1, w1) \<Rightarrow> (PSA_SUCCESS, Some hash, zero_rctx, w1))"

definition hash_abort :: "rctx \<Rightarrow> psa_status \<times> rctx" where
  "hash_abort ctx = (PSA_SUCCESS, zero_rctx)"

text \<open>The context of the one-shot call is a local variable with whatever bytes it happens to hold.\<close>

definition hash_compute :: "'w cio \<Rightarrow> rctx \<Rightarrow> psa_algorithm \<Rightarrow> bytes \<Rightarrow> nat \<Rightarrow> 'w \<Rightarrow> psa_status \<times> bytes option \<times> 'w" where
  "hash_compute io ctx alg inp hash_size w =
     (case hash_setup io ctx alg of (st, ctx1) \<Rightarrow>
        if st \<noteq> PSA_SUCCESS then (st, None, w)
        else case hash_update io ctx1 inp w of (_, ctx2, w1) \<Rightarrow>
             case hash_finish io ctx2 hash_size w1 of (st2, out, _, w2) \<Rightarrow> (st2, out, w2))"

section \<open>Cipher operations\<close>

record cipher_ctx =
  c_key :: bytes
  c_ctr :: bytes
  c_ks :: bytes
  c_left :: u8

definition zero_cipher :: cipher_ctx where
  "zero_cipher = \<lparr>c_key = replicate 16 0, c_ctr = replicate 16 0, c_ks = replicate 16 0, c_left = 0\<rparr>"

definition ctr_setup :: "'w cio \<Rightarrow> cipher_ctx \<Rightarrow> psa_key_type \<Rightarrow> bytes \<Rightarrow> psa_algorithm \<Rightarrow> psa_status \<times> cipher_ctx" where
  "ctr_setup io ctx ktype key alg =
     (if alg \<noteq> PSA_ALG_CTR \<or> ktype \<noteq> PSA_KEY_TYPE_AES \<or> length key \<noteq> 16 \<or> aes_cap io AND AES_CAP_CTR_BIT = 0
      then (PSA_ERROR_NOT_SUPPORTED, ctx)
      else (PSA_SUCCESS, zero_cipher\<lparr>c_key := key\<rparr>))"

definition cipher_encrypt_setup :: "'w cio \<Rightarrow> cipher_ctx \<Rightarrow> psa_key_type \<Rightarrow> bytes \<Rightarrow> psa_algorithm \<Rightarrow> psa_status \<times> cipher_ctx" where
  "cipher_encrypt_setup io ctx ktype key alg = ctr_setup io ctx ktype key alg"

definition cipher_decrypt_setup :: "'w cio \<Rightarrow> cipher_ctx \<Rightarrow> psa_key_type \<Rightarrow> bytes \<Rightarrow> psa_algorithm \<Rightarrow> psa_status \<times> cipher_ctx" where
  "cipher_decrypt_setup io ctx ktype key alg = ctr_setup io ctx ktype key alg"

definition cipher_set_iv :: "cipher_ctx \<Rightarrow> bytes \<Rightarrow> psa_status \<times> cipher_ctx" where
  "cipher_set_iv ctx iv =
     (if length iv \<noteq> 16 then (PSA_ERROR_INVALID_ARGUMENT, ctx) else (PSA_SUCCESS, ctx\<lparr>c_ctr := iv, c_left := 0\<rparr>))"

definition ctr_crypt :: "'w cio \<Rightarrow> cipher_ctx \<Rightarrow> bytes \<Rightarrow> 'w \<Rightarrow> bytes \<times> cipher_ctx \<times> 'w" where
  "ctr_crypt io ctx inp w =
     (case ks_drain (c_ks ctx) (c_left ctx) inp of (out, left, rest) \<Rightarrow>
        if rest = [] then (out, ctx\<lparr>c_left := left\<rparr>, w)
        else case aes_ctr_hw io (c_ctr ctx) rest False (Some (c_ks ctx)) (aes_hw_set_key io (ld128 (c_key ctx)) w) of
               (out2, ctr, ks, w1) \<Rightarrow>
                 (out @ out2, ctx\<lparr>c_ctr := ctr, c_ks := the ks,
                    c_left := (if length rest mod 16 \<noteq> 0 then of_nat (16 - length rest mod 16) else 0)\<rparr>, w1))"

definition cipher_update :: "'w cio \<Rightarrow> cipher_ctx \<Rightarrow> bytes \<Rightarrow> nat \<Rightarrow> 'w \<Rightarrow> psa_status \<times> bytes option \<times> cipher_ctx \<times> 'w" where
  "cipher_update io ctx inp output_size w =
     (if output_size < length inp then (PSA_ERROR_BUFFER_TOO_SMALL, None, ctx, w)
      else case ctr_crypt io ctx inp w of (out, ctx1, w1) \<Rightarrow> (PSA_SUCCESS, Some out, ctx1, w1))"

definition cipher_finish :: "cipher_ctx \<Rightarrow> psa_status \<times> bytes option \<times> cipher_ctx" where
  "cipher_finish ctx = (PSA_SUCCESS, Some [], zero_cipher)"

definition cipher_abort :: "cipher_ctx \<Rightarrow> psa_status \<times> cipher_ctx" where
  "cipher_abort ctx = (PSA_SUCCESS, zero_cipher)"

text \<open>The one-shot calls; the local context is filled by the setup.\<close>

definition cipher_encrypt :: "'w cio \<Rightarrow> psa_key_type \<Rightarrow> bytes \<Rightarrow> psa_algorithm \<Rightarrow> bytes \<Rightarrow> bytes \<Rightarrow> nat \<Rightarrow> 'w \<Rightarrow> psa_status \<times> bytes option \<times> 'w" where
  "cipher_encrypt io ktype key alg iv inp output_size w =
     (case ctr_setup io zero_cipher ktype key alg of (st, ctx) \<Rightarrow>
        if st \<noteq> PSA_SUCCESS then (st, None, w)
        else case cipher_set_iv ctx iv of (st1, ctx1) \<Rightarrow>
               if st1 = PSA_SUCCESS
               then case cipher_update io ctx1 inp output_size w of (st2, out, _, w1) \<Rightarrow> (st2, out, w1)
               else (st1, None, w))"

definition cipher_decrypt :: "'w cio \<Rightarrow> psa_key_type \<Rightarrow> bytes \<Rightarrow> psa_algorithm \<Rightarrow> bytes \<Rightarrow> nat \<Rightarrow> 'w \<Rightarrow> psa_status \<times> bytes option \<times> 'w" where
  "cipher_decrypt io ktype key alg inp output_size w =
     (case ctr_setup io zero_cipher ktype key alg of (st, ctx) \<Rightarrow>
        if st \<noteq> PSA_SUCCESS then (st, None, w)
        else if length inp < 16 then (PSA_ERROR_INVALID_ARGUMENT, None, w)
        else case cipher_set_iv ctx (take 16 inp) of (_, ctx1) \<Rightarrow>
             case cipher_update io ctx1 (drop 16 inp) output_size w of (st2, out, _, w1) \<Rightarrow> (st2, out, w1))"

section \<open>Operations in flight\<close>

text \<open>All operation objects of the callers, and the hardware they share.\<close>

record 'w psa =
  hops :: "nat \<Rightarrow> rctx"
  cops :: "nat \<Rightarrow> cipher_ctx"
  hw :: 'w

datatype psa_call =
    HashSetup nat psa_algorithm
  | HashClone nat nat
  | HashUpdate nat bytes
  | HashFinish nat nat
  | HashAbort nat
  | CipherSetup nat bool psa_key_type bytes psa_algorithm
  | CipherSetIv nat bytes
  | CipherUpdate nat bytes nat
  | CipherFinish nat
  | CipherAbort nat

text \<open>One call of the interface: its status and output.\<close>

fun psa_do :: "'w cio \<Rightarrow> psa_call \<Rightarrow> 'w psa \<Rightarrow> (psa_status \<times> bytes option) \<times> 'w psa" where
  "psa_do io (HashSetup i alg) s = (case hash_setup io (hops s i) alg of (st, c) \<Rightarrow> ((st, None), s\<lparr>hops := (hops s)(i := c)\<rparr>))"
| "psa_do io (HashClone i j) s = (case hash_clone (hops s i) (hops s j) of (st, c) \<Rightarrow> ((st, None), s\<lparr>hops := (hops s)(j := c)\<rparr>))"
| "psa_do io (HashUpdate i d) s =
     (case hash_update io (hops s i) d (hw s) of (st, c, w) \<Rightarrow> ((st, None), s\<lparr>hops := (hops s)(i := c), hw := w\<rparr>))"
| "psa_do io (HashFinish i n) s =
     (case hash_finish io (hops s i) n (hw s) of (st, out, c, w) \<Rightarrow> ((st, out), s\<lparr>hops := (hops s)(i := c), hw := w\<rparr>))"
| "psa_do io (HashAbort i) s = (case hash_abort (hops s i) of (st, c) \<Rightarrow> ((st, None), s\<lparr>hops := (hops s)(i := c)\<rparr>))"
| "psa_do io (CipherSetup i enc kt key alg) s =
     (case (if enc then cipher_encrypt_setup io (cops s i) kt key alg else cipher_decrypt_setup io (cops s i) kt key alg) of
        (st, c) \<Rightarrow> ((st, None), s\<lparr>cops := (cops s)(i := c)\<rparr>))"
| "psa_do io (CipherSetIv i iv) s = (case cipher_set_iv (cops s i) iv of (st, c) \<Rightarrow> ((st, None), s\<lparr>cops := (cops s)(i := c)\<rparr>))"
| "psa_do io (CipherUpdate i d n) s =
     (case cipher_update io (cops s i) d n (hw s) of (st, out, c, w) \<Rightarrow> ((st, out), s\<lparr>cops := (cops s)(i := c), hw := w\<rparr>))"
| "psa_do io (CipherFinish i) s = (case cipher_finish (cops s i) of (st, out, c) \<Rightarrow> ((st, out), s\<lparr>cops := (cops s)(i := c)\<rparr>))"
| "psa_do io (CipherAbort i) s = (case cipher_abort (cops s i) of (st, c) \<Rightarrow> ((st, None), s\<lparr>cops := (cops s)(i := c)\<rparr>))"

fun psa_run :: "'w cio \<Rightarrow> psa_call list \<Rightarrow> 'w psa \<Rightarrow> (psa_status \<times> bytes option) list \<times> 'w psa" where
  "psa_run io [] s = ([], s)"
| "psa_run io (c # cs) s = (case psa_do io c s of (r, s1) \<Rightarrow> case psa_run io cs s1 of (rs, s2) \<Rightarrow> (r # rs, s2))"

section \<open>The interface without hardware\<close>

text \<open>
  The message of every hash operation in progress, and of every cipher operation its key,
  initial counter block and the input so far.
\<close>

record spec =
  msgs :: "nat \<Rightarrow> bytes option"
  streams :: "nat \<Rightarrow> (blk \<times> bytes \<times> bytes) option"

fun spec_do :: "prims \<Rightarrow> bool \<Rightarrow> bool \<Rightarrow> psa_call \<Rightarrow> spec \<Rightarrow> (psa_status \<times> bytes option) \<times> spec" where
  "spec_do P hsup csup (HashSetup i alg) a =
     (if alg = PSA_ALG_SHA_256 \<and> hsup then ((PSA_SUCCESS, None), a\<lparr>msgs := (msgs a)(i := Some [])\<rparr>)
      else ((PSA_ERROR_NOT_SUPPORTED, None), a))"
| "spec_do P hsup csup (HashClone i j) a = ((PSA_SUCCESS, None), a\<lparr>msgs := (msgs a)(j := msgs a i)\<rparr>)"
| "spec_do P hsup csup (HashUpdate i d) a = ((PSA_SUCCESS, None), a\<lparr>msgs := (msgs a)(i := map_option (\<lambda>m. m @ d) (msgs a i))\<rparr>)"
| "spec_do P hsup csup (HashFinish i n) a =
     (if n < 32 then ((PSA_ERROR_BUFFER_TOO_SMALL, None), a)
      else ((PSA_SUCCESS, map_option (sha256 P) (msgs a i)), a\<lparr>msgs := (msgs a)(i := None)\<rparr>))"
| "spec_do P hsup csup (HashAbort i) a = ((PSA_SUCCESS, None), a\<lparr>msgs := (msgs a)(i := None)\<rparr>)"
| "spec_do P hsup csup (CipherSetup i enc kt key alg) a =
     (if alg = PSA_ALG_CTR \<and> kt = PSA_KEY_TYPE_AES \<and> length key = 16 \<and> csup
      then ((PSA_SUCCESS, None), a\<lparr>streams := (streams a)(i := Some (ld128 key, replicate 16 0, []))\<rparr>)
      else ((PSA_ERROR_NOT_SUPPORTED, None), a))"
| "spec_do P hsup csup (CipherSetIv i iv) a =
     (if length iv = 16 then ((PSA_SUCCESS, None), a\<lparr>streams := (streams a)(i := map_option (\<lambda>(key, _, _). (key, iv, [])) (streams a i))\<rparr>)
      else ((PSA_ERROR_INVALID_ARGUMENT, None), a))"
| "spec_do P hsup csup (CipherUpdate i d n) a =
     (if n < length d then ((PSA_ERROR_BUFFER_TOO_SMALL, None), a)
      else ((PSA_SUCCESS, map_option (\<lambda>(key, iv, m). drop (length m) (ctr_ref P key 16 iv (m @ d))) (streams a i)),
            a\<lparr>streams := (streams a)(i := map_option (\<lambda>(key, iv, m). (key, iv, m @ d)) (streams a i))\<rparr>))"
| "spec_do P hsup csup (CipherFinish i) a = ((PSA_SUCCESS, Some []), a\<lparr>streams := (streams a)(i := None)\<rparr>)"
| "spec_do P hsup csup (CipherAbort i) a = ((PSA_SUCCESS, None), a\<lparr>streams := (streams a)(i := None)\<rparr>)"

text \<open>The calls the PSA core makes: those that go on with an operation are made while it is in progress.\<close>

fun in_order :: "psa_call \<Rightarrow> spec \<Rightarrow> bool" where
  "in_order (HashClone i j) a \<longleftrightarrow> msgs a i \<noteq> None"
| "in_order (HashUpdate i d) a \<longleftrightarrow> msgs a i \<noteq> None"
| "in_order (HashFinish i n) a \<longleftrightarrow> msgs a i \<noteq> None"
| "in_order (CipherSetIv i iv) a \<longleftrightarrow> streams a i \<noteq> None"
| "in_order (CipherUpdate i d n) a \<longleftrightarrow> streams a i \<noteq> None"
| "in_order c a \<longleftrightarrow> True"

fun spec_run :: "prims \<Rightarrow> bool \<Rightarrow> bool \<Rightarrow> psa_call list \<Rightarrow> spec \<Rightarrow> (psa_status \<times> bytes option) list \<times> spec" where
  "spec_run P hsup csup [] a = ([], a)"
| "spec_run P hsup csup (c # cs) a =
     (case spec_do P hsup csup c a of (r, a1) \<Rightarrow> case spec_run P hsup csup cs a1 of (rs, a2) \<Rightarrow> (r # rs, a2))"

fun all_in_order :: "prims \<Rightarrow> bool \<Rightarrow> bool \<Rightarrow> psa_call list \<Rightarrow> spec \<Rightarrow> bool" where
  "all_in_order P hsup csup [] a \<longleftrightarrow> True"
| "all_in_order P hsup csup (c # cs) a \<longleftrightarrow> in_order c a \<and> all_in_order P hsup csup cs (snd (spec_do P hsup csup c a))"

section \<open>Well-formed contexts\<close>

text \<open>
  The sizes the C types give, and the two counters within their buffers: the hash buffer
  never holds a whole block, and the keystream index \<open>16 - left\<close> stays inside the keystream.
\<close>

definition hash_wf :: "rctx \<Rightarrow> bool" where
  "hash_wf c \<longleftrightarrow> length (rh c) = 4 \<and> length (rbuf c) = 64 \<and> unat (rbuf_len c) < 64"

definition cipher_wf :: "cipher_ctx \<Rightarrow> bool" where
  "cipher_wf c \<longleftrightarrow> length (c_key c) = 16 \<and> length (c_ctr c) = 16 \<and> length (c_ks c) = 16 \<and> unat (c_left c) < 16"

definition psa_wf :: "'w psa \<Rightarrow> bool" where
  "psa_wf s \<longleftrightarrow> (\<forall>i. hash_wf (hops s i)) \<and> (\<forall>i. cipher_wf (cops s i))"

lemma zero_wf [simp]: "hash_wf zero_rctx" "cipher_wf zero_cipher"
  by (simp_all add: hash_wf_def cipher_wf_def zero_rctx_def zero_cipher_def)

lemma unat_same: "k < 2 ^ LENGTH('l) \<Longrightarrow> unat (of_nat k :: 'l::len word) = k"
  by (simp add: unat_of_nat take_bit_nat_eq_self)

lemma unat_small: "k < m \<Longrightarrow> m < 2 ^ LENGTH('l) \<Longrightarrow> unat (of_nat k :: 'l::len word) < m"
  by (simp add: unat_same)

lemma length_put_bytes: "off + length src \<le> length buf \<Longrightarrow> length (put_bytes off src buf) = length buf"
  by (simp add: put_bytes_def)

lemma length_r_blocks: "length h = 4 \<Longrightarrow> length (fst (sha_r_blocks io h data n w)) = 4"
  by (simp add: sha_r_blocks_def Let_def)

lemma rinit_wf: "hash_wf c \<Longrightarrow> hash_wf (sha256_hw_rinit c)"
  by (simp add: hash_wf_def sha256_hw_rinit_def words_def)

lemma r_tail_wf:
  assumes "hash_wf c"
  shows "hash_wf (fst (sha_r_tail io c d w))"
proof -
  have t: "length d - length d div 64 * 64 < 64" by (simp add: minus_div_mult_eq_mod)
  obtain h w1 where b: "sha_r_blocks io (rh c) d (length d div 64) w = (h, w1)" by (cases "sha_r_blocks io (rh c) d (length d div 64) w")
  have "length h = 4" using assms length_r_blocks [of "rh c" io d "length d div 64" w] by (simp add: hash_wf_def b)
  moreover have "unat (of_nat (length d - length d div 64 * 64) :: u32) < 64"
    by (rule unat_small [OF t]) simp
  ultimately show ?thesis
    using assms t by (auto simp: sha_r_tail_def b Let_def hash_wf_def length_put_bytes)
qed

lemma rupdate_wf:
  assumes "hash_wf c"
  shows "hash_wf (fst (sha256_hw_rupdate io c d w))"
proof (cases "rbuf_len c > 0")
  case False
  then show ?thesis using r_tail_wf [of "c\<lparr>rtotal := rtotal c + of_nat (length d)\<rparr>" io d w] assms
    by (simp add: sha256_hw_rupdate_def Let_def hash_wf_def)
next
  case True
  define n where "n = min (64 - unat (rbuf_len c)) (length d)"
  define c1 where "c1 = c\<lparr>rtotal := rtotal c + of_nat (length d), rbuf := put_bytes (unat (rbuf_len c)) (take n d) (rbuf c),
    rbuf_len := rbuf_len c + of_nat n\<rparr>"
  have l: "length (rh c) = 4" "length (rbuf c) = 64" "unat (rbuf_len c) < 64" using assms by (simp_all add: hash_wf_def)
  have c1: "length (rh c1) = 4" "length (rbuf c1) = 64"
    using l by (simp_all add: c1_def length_put_bytes n_def)
  have u: "unat (64 :: u32) = 64" by simp
  show ?thesis
  proof (cases "rbuf_len c1 < 64")
    case small: True
    then have "unat (rbuf_len c1) < 64" by (simp add: word_less_nat_alt)
    then have "hash_wf c1" using c1 by (simp add: hash_wf_def)
    then show ?thesis using True small by (simp add: sha256_hw_rupdate_def Let_def n_def [symmetric] c1_def)
  next
    case big: False
    obtain h w1 where b: "sha_r_blocks io (rh c1) (rbuf c1) 1 w = (h, w1)" by (cases "sha_r_blocks io (rh c1) (rbuf c1) 1 w")
    have "hash_wf (c1\<lparr>rh := h, rbuf_len := 0\<rparr>)"
      using c1 length_r_blocks [of "rh c1" io "rbuf c1" 1 w] unfolding b by (simp add: hash_wf_def)
    from r_tail_wf [OF this, of io "drop n d" w1] show ?thesis
      using True big b by (simp add: sha256_hw_rupdate_def Let_def n_def [symmetric] c1_def)
  qed
qed

lemma drain_left: "ks_drain ks (left :: 'l::len word) d = (out, l, rest) \<Longrightarrow> unat l \<le> unat left"
proof (induction d arbitrary: left out)
  case (Cons b d)
  show ?case
  proof (cases "left = 0")
    case False
    then have "unat (left - 1) \<le> unat left" by (simp add: unat_minus_one)
    then show ?thesis using Cons False by (fastforce split: prod.splits)
  qed (use Cons.prems in auto)
qed simp

lemma length_ctr_hw:
  assumes "length ks = 16"
  shows "length (fst (snd (aes_ctr_hw io c d i (Some ks) w))) = 16" "\<exists>k. fst (snd (snd (aes_ctr_hw io c d i (Some ks) w))) = Some k \<and> length k = 16"
  using assms by (auto simp: aes_ctr_hw_def Let_def pad16_def split: prod.splits)

lemma ctr_crypt_wf:
  assumes "cipher_wf c"
  shows "cipher_wf (fst (snd (ctr_crypt io c d w)))"
proof -
  obtain out l rest where dr: "ks_drain (c_ks c) (c_left c) d = (out, l, rest)" by (cases "ks_drain (c_ks c) (c_left c) d")
  have l: "unat l < 16" using drain_left [OF dr] assms by (simp add: cipher_wf_def)
  show ?thesis
  proof (cases "rest = []")
    case True
    then show ?thesis using assms l by (simp add: ctr_crypt_def dr cipher_wf_def)
  next
    case False
    let ?a = "aes_ctr_hw io (c_ctr c) rest False (Some (c_ks c)) (aes_hw_set_key io (ld128 (c_key c)) w)"
    obtain out2 ctr ks w1 where a: "?a = (out2, ctr, ks, w1)" by (cases ?a)
    have "length ctr = 16" "length (the ks) = 16"
      using length_ctr_hw [of "c_ks c" io "c_ctr c" rest False "aes_hw_set_key io (ld128 (c_key c)) w"] assms a by (auto simp: cipher_wf_def)
    moreover have "unat (of_nat (16 - length rest mod 16) :: u8) < 16" if "length rest mod 16 \<noteq> 0"
      by (rule unat_small) (use that in simp_all)
    ultimately show ?thesis using assms False by (simp add: ctr_crypt_def dr a cipher_wf_def)
  qed
qed

lemma psa_do_wf: "psa_wf s \<Longrightarrow> psa_wf (snd (psa_do io c s))"
proof (cases c)
  case (HashUpdate i d)
  assume "psa_wf s"
  then show ?thesis using rupdate_wf [of "hops s i" io d "hw s"]
    by (auto simp: HashUpdate psa_wf_def hash_update_def split: prod.splits)
next
  case (HashFinish i n)
  assume "psa_wf s"
  then show ?thesis by (auto simp: HashFinish psa_wf_def hash_finish_def split: prod.splits)
next
  case (CipherSetup i enc kt key alg)
  assume "psa_wf s"
  then show ?thesis
    by (auto simp: CipherSetup psa_wf_def cipher_encrypt_setup_def cipher_decrypt_setup_def ctr_setup_def cipher_wf_def zero_cipher_def)
next
  case (CipherUpdate i d n)
  assume "psa_wf s"
  then show ?thesis using ctr_crypt_wf [of "cops s i" io d "hw s"]
    by (auto simp: CipherUpdate psa_wf_def cipher_update_def split: prod.splits)
qed (auto simp: psa_wf_def hash_setup_def hash_clone_def hash_abort_def cipher_set_iv_def cipher_finish_def cipher_abort_def rinit_wf
  cipher_wf_def zero_cipher_def)

section \<open>The cipher is a stream\<close>

definition ctx_at :: "prims \<Rightarrow> blk \<Rightarrow> bytes \<Rightarrow> nat \<Rightarrow> cipher_ctx \<Rightarrow> bool" where
  "ctx_at P key iv n c \<longleftrightarrow> ld128 (c_key c) = key \<and> stream_at P key iv n (c_ctr c) (c_ks c) (c_left c)"

lemma ctr_crypt_to:
  assumes ok: "aes_ok P io view" and i: "aes_idle view w k" and c: "ctx_at P key iv n c" and e: "ctr_crypt io c d w = (out, c', w')"
  shows "out = crypt_from P key iv n d" "ctx_at P key iv (n + length d) c'" "\<exists>k. aes_idle view w' k" "others view w w'"
proof -
  have key: "ld128 (c_key c) = key" and at: "stream_at P key iv n (c_ctr c) (c_ks c) (c_left c)" using c by (simp_all add: ctx_at_def)
  obtain o1 l rest where dr: "ks_drain (c_ks c) (c_left c) d = (o1, l, rest)" by (cases "ks_drain (c_ks c) (c_left c) d")
  obtain a where d: "d = a @ rest" and o1: "o1 = crypt_from P key iv n a" and at1: "stream_at P key iv (n + length a) (c_ctr c) (c_ks c) l"
    and l: "rest \<noteq> [] \<longrightarrow> l = 0" using drain_to [OF at dr] by blast
  have "out = crypt_from P key iv n d \<and> ctx_at P key iv (n + length d) c' \<and> (\<exists>k. aes_idle view w' k) \<and> others view w w'"
  proof (cases "rest = []")
    case True
    then have "out = o1" "c' = c\<lparr>c_left := l\<rparr>" "w' = w" using e dr by (simp_all add: ctr_crypt_def)
    then show ?thesis using True d o1 at1 key i by (auto simp: ctx_at_def others_def simp del: split_paired_Ex)
  next
    case False
    let ?w = "aes_hw_set_key io key w" and ?ks = "Some (c_ks c)"
    obtain m where m: "n + length a = 16 * m" and ctr: "c_ctr c = ctr_after 16 iv m"
      using stream_aligned [of P key iv "n + length a" "c_ctr c" "c_ks c"] at1 l False by metis
    have iv: "length iv = 16" using at by (simp add: stream_at_def)
    note sk = set_key_to [OF ok i, of key]
    obtain o2 ct ks w1 where hw: "aes_ctr_hw io (c_ctr c) rest False ?ks ?w = (o2, ct, ks, w1)" by (cases "aes_ctr_hw io (c_ctr c) rest False ?ks ?w")
    note h = aes_ctr_hw_to [OF ok sk(1) stream_length [OF at], of rest False ?ks, unfolded hw, simplified]
    let ?left = "if length rest mod 16 \<noteq> 0 then of_nat (16 - length rest mod 16) else 0 :: u8"
    have "unat (of_nat (16 - length rest mod 16) :: u8) = 16 - length rest mod 16" by (rule unat_same) simp
    then have left: "unat ?left = (16 - length rest mod 16) mod 16" by (simp del: of_nat_diff)
    have ks: "the ks = ks_block P key iv (m + length rest div 16)" if "length rest mod 16 \<noteq> 0"
    proof -
      have "length (rest16 rest) \<noteq> 0" using that by (simp add: rest16_def minus_mult_div_eq_mod)
      then show ?thesis using h(3) by (auto simp: ctr ctr_after_add ks_block_def)
    qed
    have at2: "stream_at P key iv (16 * m + length rest) ct (the ks) ?left"
      using stream_advance [OF iv left, of "the ks" P key m] ks h(2) ctr by simp
    have o2: "o2 = crypt_from P key iv (16 * m) rest" using h(1) by (simp add: ctr ctr_ref_from)
    have x: "out = o1 @ o2" "c' = c\<lparr>c_ctr := ct, c_ks := the ks, c_left := ?left\<rparr>" "w' = w1"
      using e False dr hw key by (auto simp: ctr_crypt_def)
    have nd: "n + length d = 16 * m + length rest" using d m by simp
    have "out = crypt_from P key iv n d" by (simp add: x(1) o1 o2 d crypt_from_append m)
    moreover have "ctx_at P key iv (n + length d) c'" using at2 key unfolding nd x(2) by (simp add: ctx_at_def)
    ultimately show ?thesis using h(4) others_trans [OF sk(2) h(5)] unfolding x(3) by blast
  qed
  then show "out = crypt_from P key iv n d" "ctx_at P key iv (n + length d) c'" "\<exists>k. aes_idle view w' k" "others view w w'" by blast+
qed

interpretation psa_ctr: stream_cipher "\<lambda>e. ctr_crypt (fst (snd e))" fst aes_ready "\<lambda>e. ctx_at (fst e)"
proof
  fix e :: "prims \<times> 'w cio \<times> ('w \<Rightarrow> dev)" and w key iv n c d out c' w'
  assume "aes_ready e w" and at: "ctx_at (fst e) key iv n c" and cr: "ctr_crypt (fst (snd e)) c d w = (out, c', w')"
  then obtain P io view k where e: "e = (P, io, view)" and ok: "aes_ok P io view" and i: "aes_idle view w k"
    by (auto simp: aes_ready_def split: prod.splits)
  show "out = crypt_from (fst e) key iv n d \<and> ctx_at (fst e) key iv (n + length d) c' \<and> aes_ready e w'"
    using ctr_crypt_to [OF ok i, of key iv n c d out c' w'] at cr ok by (simp add: e aes_ready_def)
qed

section \<open>Refinement\<close>

definition hash_at :: "prims \<Rightarrow> bytes \<Rightarrow> rctx \<Rightarrow> bool" where
  "hash_at P m c \<longleftrightarrow> rctx_of P (words 4 sha256_iv) 0 m c"

definition hw_rest :: "('w \<Rightarrow> dev) \<Rightarrow> 'w \<Rightarrow> bool" where
  "hw_rest view w \<longleftrightarrow> sha_free (view w) \<and> (\<exists>k. aes_idle view w k)"

definition psa_rel :: "prims \<Rightarrow> ('w \<Rightarrow> dev) \<Rightarrow> 'w psa \<Rightarrow> spec \<Rightarrow> bool" where
  "psa_rel P view s a \<longleftrightarrow> psa_wf s \<and> hw_rest view (hw s) \<and>
     (\<forall>i m. msgs a i = Some m \<longrightarrow> hash_at P m (hops s i)) \<and>
     (\<forall>i key iv m. streams a i = Some (key, iv, m) \<longrightarrow> ctx_at P key iv (length m) (cops s i))"

lemma rest_sha: "hw_rest view w \<Longrightarrow> sha_to view w h w' \<Longrightarrow> hw_rest view w'"
  by (simp add: hw_rest_def sha_to_def aes_idle_def aes_st_def)

lemma rest_aes: "hw_rest view w \<Longrightarrow> others view w w' \<Longrightarrow> \<exists>k. aes_idle view w' k \<Longrightarrow> hw_rest view w'"
  by (simp add: hw_rest_def others_def sha_free_def)

lemma hash_update_to:
  assumes "sha_ok P io view" and "hw_rest view w" and "hash_at P m c"
  shows "hash_at P (m @ d) (fst (sha256_hw_rupdate io c d w))" "hw_rest view (snd (sha256_hw_rupdate io c d w))"
proof -
  have fr: "sha_free (view w)" using assms(2) by (simp add: hw_rest_def)
  note u = rupdate_ctx [OF assms(1) fr assms(3) [unfolded hash_at_def], of d]
  show "hash_at P (m @ d) (fst (sha256_hw_rupdate io c d w))" using u(1) by (simp add: hash_at_def)
  show "hw_rest view (snd (sha256_hw_rupdate io c d w))" using u(2) rest_sha [OF assms(2)] by blast
qed

lemma hash_final_to:
  assumes "sha_ok P io view" and "hw_rest view w" and "hash_at P m c"
  shows "fst (sha256_hw_rfinal io c w) = sha256 P m" "hw_rest view (snd (snd (sha256_hw_rfinal io c w)))"
proof -
  have fr: "sha_free (view w)" using assms(2) by (simp add: hw_rest_def)
  have c: "rctx_of P (compress P (words 4 sha256_iv) []) (length []) m c" using assms(3) by (simp add: hash_at_def compress_short)
  note f = rfinal_ctx [OF assms(1) fr _ c, simplified]
  show "fst (sha256_hw_rfinal io c w) = sha256 P m" using f(1) by simp
  show "hw_rest view (snd (snd (sha256_hw_rfinal io c w)))" using f(2) rest_sha [OF assms(2)] by blast
qed

lemma stream_part: "drop (length m) (ctr_ref P key 16 iv (m @ d)) = crypt_from P key iv (length m) d"
  by (simp add: ctr_ref_stream crypt_from_append)

lemma setup_at: "length key = 16 \<Longrightarrow> ctx_at P (ld128 key) (replicate 16 0) 0 (zero_cipher\<lparr>c_key := key\<rparr>)"
  by (simp add: ctx_at_def zero_cipher_def stream_start)

lemma set_iv_at: "ctx_at P key iv n c \<Longrightarrow> length iv' = 16 \<Longrightarrow> ctx_at P key iv' 0 (c\<lparr>c_ctr := iv', c_left := 0\<rparr>)"
  by (simp add: ctx_at_def stream_start)

text \<open>One call: the same reply, and related states again.\<close>

lemma sim_update_hash:
  assumes "sha_ok P io view" and "psa_rel P view s a" and "msgs a i = Some m"
  shows "psa_rel P view (snd (psa_do io (HashUpdate i d) s)) (a\<lparr>msgs := (msgs a)(i := Some (m @ d))\<rparr>)"
proof -
  have r: "hw_rest view (hw s)" "hash_at P m (hops s i)" "psa_wf s" using assms(2,3) by (simp_all add: psa_rel_def)
  note u = hash_update_to [OF assms(1) r(1,2), of d] and wf = psa_do_wf [OF r(3), of io "HashUpdate i d"]
  show ?thesis using u wf assms(2) by (auto simp: psa_rel_def hash_update_def split: prod.splits)
qed

lemma sim_finish_hash:
  assumes "sha_ok P io view" and "psa_rel P view s a" and "msgs a i = Some m" and "32 \<le> n"
  shows "fst (psa_do io (HashFinish i n) s) = (PSA_SUCCESS, Some (sha256 P m))"
    "psa_rel P view (snd (psa_do io (HashFinish i n) s)) (a\<lparr>msgs := (msgs a)(i := None)\<rparr>)"
proof -
  have r: "hw_rest view (hw s)" "hash_at P m (hops s i)" "psa_wf s" using assms(2,3) by (simp_all add: psa_rel_def)
  note u = hash_final_to [OF assms(1) r(1,2)] and wf = psa_do_wf [OF r(3), of io "HashFinish i n"]
  show "fst (psa_do io (HashFinish i n) s) = (PSA_SUCCESS, Some (sha256 P m))"
    "psa_rel P view (snd (psa_do io (HashFinish i n) s)) (a\<lparr>msgs := (msgs a)(i := None)\<rparr>)"
    using u wf assms(2,4) by (auto simp: psa_rel_def hash_finish_def split: prod.splits)
qed

lemma sim_update_cipher:
  assumes "aes_ok P io view" and "psa_rel P view s a" and "streams a i = Some (key, iv, m)" and "length d \<le> n"
  shows "fst (psa_do io (CipherUpdate i d n) s) = (PSA_SUCCESS, Some (drop (length m) (ctr_ref P key 16 iv (m @ d))))"
    "psa_rel P view (snd (psa_do io (CipherUpdate i d n) s)) (a\<lparr>streams := (streams a)(i := Some (key, iv, m @ d))\<rparr>)"
proof -
  have r: "hw_rest view (hw s)" "ctx_at P key iv (length m) (cops s i)" "psa_wf s"
    using assms(2,3) unfolding psa_rel_def by blast+
  obtain k where k: "aes_idle view (hw s) k" using r(1) by (auto simp: hw_rest_def)
  obtain out c w where e: "ctr_crypt io (cops s i) d (hw s) = (out, c, w)" by (cases "ctr_crypt io (cops s i) d (hw s)")
  note u = ctr_crypt_to [OF assms(1) k r(2) e] and wf = psa_do_wf [OF r(3), of io "CipherUpdate i d n"]
  have w: "hw_rest view w" by (rule rest_aes [OF r(1) u(4,3)])
  show "fst (psa_do io (CipherUpdate i d n) s) = (PSA_SUCCESS, Some (drop (length m) (ctr_ref P key 16 iv (m @ d))))"
    unfolding stream_part using assms(4) u(1) by (simp add: cipher_update_def e)
  show "psa_rel P view (snd (psa_do io (CipherUpdate i d n) s)) (a\<lparr>streams := (streams a)(i := Some (key, iv, m @ d))\<rparr>)"
    using u(2) w wf assms(2,4) by (auto simp: psa_rel_def cipher_update_def e)
qed

lemma psa_do_refines:
  assumes "sha_ok P io view" and "aes_ok P io view" and rel: "psa_rel P view s a" and ord: "in_order c a"
  defines "hsup \<equiv> sha_cap io AND SHA_CAP_RESTORE_BIT \<noteq> 0" and "csup \<equiv> aes_cap io AND AES_CAP_CTR_BIT \<noteq> 0"
  shows "fst (psa_do io c s) = fst (spec_do P hsup csup c a) \<and> psa_rel P view (snd (psa_do io c s)) (snd (spec_do P hsup csup c a))"
proof (cases c)
  case (HashSetup i alg)
  have "length (rbuf (hops s i)) = 64" using rel by (simp add: psa_rel_def psa_wf_def hash_wf_def)
  then have "hash_at P [] (sha256_hw_rinit (hops s i))" by (simp add: hash_at_def rinit_ctx)
  then show ?thesis
    using rel psa_do_wf [of s io c] by (auto simp: HashSetup psa_rel_def hash_setup_def sha_hw_def hsup_def)
next
  case (HashClone i j)
  then show ?thesis using rel ord psa_do_wf [of s io c] by (auto simp: psa_rel_def hash_clone_def)
next
  case (HashUpdate i d)
  obtain m where m: "msgs a i = Some m" using ord by (auto simp: HashUpdate)
  from sim_update_hash [OF assms(1) rel m, of d] show ?thesis by (simp add: HashUpdate m) (simp add: hash_update_def split: prod.splits)
next
  case (HashFinish i n)
  obtain m where m: "msgs a i = Some m" using ord by (auto simp: HashFinish)
  show ?thesis
  proof (cases "n < 32")
    case True
    then show ?thesis using rel by (auto simp: HashFinish psa_rel_def hash_finish_def psa_wf_def)
  next
    case False
    then show ?thesis using sim_finish_hash [OF assms(1) rel m, of n] by (simp add: HashFinish m)
  qed
next
  case (CipherSetup i enc kt key alg)
  then show ?thesis using rel psa_do_wf [of s io c] setup_at [of key P]
    by (auto simp: psa_rel_def cipher_encrypt_setup_def cipher_decrypt_setup_def ctr_setup_def csup_def)
next
  case (CipherSetIv i iv)
  obtain key iv0 m where m: "streams a i = Some (key, iv0, m)" using ord by (auto simp: CipherSetIv)
  have "ctx_at P key iv0 (length m) (cops s i)" using rel m unfolding psa_rel_def by blast
  then show ?thesis using rel psa_do_wf [of s io c] set_iv_at [of P key iv0 "length m" "cops s i" iv]
    by (auto simp: CipherSetIv m psa_rel_def cipher_set_iv_def)
next
  case (CipherUpdate i d n)
  obtain key iv m where m: "streams a i = Some (key, iv, m)" using ord by (auto simp: CipherUpdate)
  show ?thesis
  proof (cases "n < length d")
    case True
    then show ?thesis using rel by (auto simp: CipherUpdate psa_rel_def cipher_update_def psa_wf_def)
  next
    case False
    then show ?thesis using sim_update_cipher [OF assms(2) rel m, of d n] by (simp add: CipherUpdate m)
  qed
qed (use rel psa_do_wf [of s io c] in \<open>auto simp: psa_rel_def hash_abort_def cipher_finish_def cipher_abort_def\<close>)

lemma soft_caps: "sha_cap soft_io AND SHA_CAP_RESTORE_BIT \<noteq> 0" "aes_cap soft_io AND AES_CAP_CTR_BIT \<noteq> 0"
  by (simp_all add: soft_io_def SHA_CAP_RESTORE_BIT_def AES_CAP_CTR_BIT_def)

text \<open>
  C3: the operations in flight do not disturb each other.  For every sequence of calls on
  any number of hash and cipher operations, in any interleaving in which the core goes on
  only with operations in progress, every call returns the status and output of the
  interface without hardware: each digest is the SHA-256 of what was fed to that operation
  or its clones, each cipher output the next part of that operation's own counter-mode
  stream, however it was cut up; and unsupported requests and short buffers change nothing.
\<close>

theorem psa_refines:
  assumes "sha_ok P io view" and "aes_ok P io view" and "psa_rel P view s a"
    and "all_in_order P (sha_cap io AND SHA_CAP_RESTORE_BIT \<noteq> 0) (aes_cap io AND AES_CAP_CTR_BIT \<noteq> 0) cs a"
  shows "fst (psa_run io cs s) =
    fst (spec_run P (sha_cap io AND SHA_CAP_RESTORE_BIT \<noteq> 0) (aes_cap io AND AES_CAP_CTR_BIT \<noteq> 0) cs a)"
  using assms(3,4)
proof (induction cs arbitrary: s a)
  case (Cons c cs)
  then have "in_order c a" by simp
  note d = psa_do_refines [OF assms(1,2) Cons.prems(1) this]
  then show ?case using Cons.IH [of "snd (psa_do io c s)"] Cons.prems(2) by (simp add: case_prod_beta)
qed simp

text \<open>
  C34: contexts stay well-formed.  Whatever the hardware answers, and whatever calls are made
  in whatever order and with whatever arguments, every operation object keeps the sizes of
  its arrays, a hash buffer never holds a full block, and fewer than 16 keystream bytes are
  kept, so the keystream index is always inside the array.
\<close>

theorem psa_contexts_wf:
  assumes "psa_wf s"
  shows "psa_wf (snd (psa_run io cs s))"
  using assms
proof (induction cs arbitrary: s)
  case (Cons c cs)
  from Cons.IH [OF psa_do_wf [OF Cons.prems, of io c]] show ?case by (simp add: case_prod_beta)
qed simp

theorem psa_contexts_wf_witness:
  "psa_wf (snd (psa_run soft_io [HashUpdate 0 [1, 2], CipherUpdate 5 [1, 2, 3] 2, CipherUpdate 5 [1, 2, 3] 3, HashFinish 1 7]
     \<lparr>hops = (\<lambda>i. zero_rctx), cops = (\<lambda>i. zero_cipher), hw = soft_dev\<rparr>))"
  by (rule psa_contexts_wf) (simp add: psa_wf_def)

theorem psa_refines_witness:
  "fst (psa_run soft_io [HashSetup 0 PSA_ALG_SHA_256, CipherSetup 1 True PSA_KEY_TYPE_AES (replicate 16 5) PSA_ALG_CTR, HashUpdate 0 [1],
       CipherUpdate 1 [1, 2] 9, HashClone 0 2, CipherUpdate 1 [3] 9, HashUpdate 2 [4], HashFinish 0 32, HashFinish 2 40]
     \<lparr>hops = (\<lambda>i. zero_rctx), cops = (\<lambda>i. zero_cipher), hw = soft_dev\<rparr>) =
   (let ct = ctr_ref soft_prims (ld128 (replicate 16 5)) 16 (replicate 16 0)
    in [(PSA_SUCCESS, None), (PSA_SUCCESS, None), (PSA_SUCCESS, None), (PSA_SUCCESS, Some (ct [1, 2])), (PSA_SUCCESS, None),
        (PSA_SUCCESS, Some (drop 2 (ct [1, 2, 3]))), (PSA_SUCCESS, None), (PSA_SUCCESS, Some (sha256 soft_prims [1])),
        (PSA_SUCCESS, Some (sha256 soft_prims [1, 4]))])"
proof -
  let ?s = "\<lparr>hops = (\<lambda>i. zero_rctx), cops = (\<lambda>i. zero_cipher), hw = soft_dev\<rparr>" and ?a = "\<lparr>msgs = (\<lambda>i. None), streams = (\<lambda>i. None)\<rparr>"
  have "aes_idle id soft_dev (0, 0)" "sha_free (id soft_dev)" by (simp_all add: aes_idle_def aes_st_def sha_free_def soft_dev_def)
  then have rel: "psa_rel soft_prims id ?s ?a" by (auto simp: psa_rel_def psa_wf_def hw_rest_def)
  show ?thesis by (subst psa_refines [OF soft_ok(3,1) rel]) (simp_all add: soft_caps Let_def numeral_2_eq_2)
qed

section \<open>One-shot calls\<close>

lemma encrypt_to:
  assumes "aes_ok P io view" and "aes_idle view w k" and "aes_cap io AND AES_CAP_CTR_BIT \<noteq> 0"
    and "length key = 16" and "length iv = 16" and "length d \<le> n"
  shows "\<exists>w'. cipher_encrypt io PSA_KEY_TYPE_AES key PSA_ALG_CTR iv d n w = (PSA_SUCCESS, Some (ctr_ref P (ld128 key) 16 iv d), w') \<and>
    (\<exists>k. aes_idle view w' k)"
proof -
  let ?c = "zero_cipher\<lparr>c_key := key, c_ctr := iv, c_left := 0\<rparr>"
  have at: "ctx_at P (ld128 key) iv 0 ?c" using set_iv_at [OF setup_at [OF assms(4)] assms(5), of P] by simp
  obtain out c' w' where e: "ctr_crypt io ?c d w = (out, c', w')" by (cases "ctr_crypt io ?c d w")
  note u = ctr_crypt_to [OF assms(1,2) at e]
  have "cipher_encrypt io PSA_KEY_TYPE_AES key PSA_ALG_CTR iv d n w = (PSA_SUCCESS, Some out, w')"
    using assms(3-6) e by (simp add: cipher_encrypt_def ctr_setup_def cipher_set_iv_def cipher_update_def)
  then show ?thesis using u(1,3) by (simp add: ctr_ref_stream)
qed

lemma decrypt_encrypt: "length iv = 16 \<Longrightarrow>
  cipher_decrypt io kt key alg (iv @ d) n w = cipher_encrypt io kt key alg iv d n w"
  by (auto simp: cipher_decrypt_def cipher_encrypt_def cipher_set_iv_def split: prod.splits)

text \<open>
  The one-shot calls.  The one-shot hash is SHA-256; one-shot encryption is counter mode
  from the given counter block, and one-shot decryption of the counter block followed by that
  ciphertext gives the plaintext back.
\<close>

theorem psa_oneshot:
  assumes "sha_ok P io view" and "aes_ok P io view" and "hw_rest view w"
    and "sha_cap io AND SHA_CAP_RESTORE_BIT \<noteq> 0" and "aes_cap io AND AES_CAP_CTR_BIT \<noteq> 0"
    and "length (rbuf c) = 64" and "length key = 16" and "length iv = 16"
  shows "fst (snd (hash_compute io c PSA_ALG_SHA_256 d 32 w)) = Some (sha256 P d) \<and>
    (\<exists>ct w1 w2. ct = ctr_ref P (ld128 key) 16 iv d \<and>
       cipher_encrypt io PSA_KEY_TYPE_AES key PSA_ALG_CTR iv d (length d) w = (PSA_SUCCESS, Some ct, w1) \<and>
       cipher_decrypt io PSA_KEY_TYPE_AES key PSA_ALG_CTR (iv @ ct) (length d) w1 = (PSA_SUCCESS, Some d, w2))"
proof
  have "hash_at P [] (sha256_hw_rinit c)" using assms(6) by (simp add: hash_at_def rinit_ctx)
  note u = hash_update_to [OF assms(1,3) this, of d, simplified]
  show "fst (snd (hash_compute io c PSA_ALG_SHA_256 d 32 w)) = Some (sha256 P d)"
    using hash_final_to(1) [OF assms(1) u(2,1)] assms(4)
    by (simp add: hash_compute_def hash_setup_def sha_hw_def hash_update_def hash_finish_def case_prod_beta)
  obtain k where k: "aes_idle view w k" using assms(3) by (auto simp: hw_rest_def)
  note enc = encrypt_to [OF assms(2) _ assms(5,7,8)]
  let ?ct = "ctr_ref P (ld128 key) 16 iv d"
  obtain w1 k1 where 1: "cipher_encrypt io PSA_KEY_TYPE_AES key PSA_ALG_CTR iv d (length d) w = (PSA_SUCCESS, Some ?ct, w1)"
    and k1: "aes_idle view w1 k1" using enc [OF k, of d "length d"] by auto
  obtain w2 where 2: "cipher_encrypt io PSA_KEY_TYPE_AES key PSA_ALG_CTR iv ?ct (length d) w1 = (PSA_SUCCESS, Some d, w2)"
    using enc [OF k1, of ?ct "length d"] by (auto simp: ctr_ref_twice)
  show "\<exists>ct w1 w2. ct = ?ct \<and> cipher_encrypt io PSA_KEY_TYPE_AES key PSA_ALG_CTR iv d (length d) w = (PSA_SUCCESS, Some ct, w1) \<and>
       cipher_decrypt io PSA_KEY_TYPE_AES key PSA_ALG_CTR (iv @ ct) (length d) w1 = (PSA_SUCCESS, Some d, w2)"
    by (intro exI [of _ ?ct] exI [of _ w1] exI [of _ w2]) (simp add: 1 2 decrypt_encrypt [OF assms(8)])
qed

theorem psa_oneshot_witness:
  "fst (snd (hash_compute soft_io zero_rctx PSA_ALG_SHA_256 [1, 2, 3] 32 soft_dev)) = Some (sha256 soft_prims [1, 2, 3])"
proof -
  have "aes_idle id soft_dev (0, 0)" "sha_free (id soft_dev)" by (simp_all add: aes_idle_def aes_st_def sha_free_def soft_dev_def)
  then have "hw_rest id soft_dev" by (auto simp: hw_rest_def)
  from psa_oneshot [OF soft_ok(3,1) this, of zero_rctx "replicate 16 1" "replicate 16 2" "[1, 2, 3]"] show ?thesis
    using soft_caps by (simp add: zero_rctx_def)
qed

end
