(* ===== verification/Wolfssl_Hw.thy ===== *)
theory Wolfssl_Hw
  imports Ctr_Stream
begin

unbundle bit_operations_syntax

text \<open>
  The wolfCrypt callbacks on top of \<^verbatim>\<open>src/crypto_hw.c\<close>: \<^verbatim>\<open>ssh/wolfssl_hw.c\<close> of the Zephyr
  port, with its stream state across calls and its profile counters, and
  \<^verbatim>\<open>freertos/wolfssl_hw.c\<close>.  wolfCrypt itself is not modelled: a request is what it hands to
  the callback, and the part of its \<^verbatim>\<open>Aes\<close> object the callbacks touch is a record.
\<close>

section \<open>Zephyr callback\<close>

record wc_aes =
  keylen :: nat
  key_words :: "u32 list"
  reg :: bytes
  tmp :: bytes
  left :: u32

definition key_bytes :: "u32 list \<Rightarrow> bytes" where
  "key_bytes ws = concat (map (\<lambda>i. let w = ws ! i in
     [ucast (drop_bit 24 w), ucast (drop_bit 16 w), ucast (drop_bit 8 w), ucast w]) [0..<4])"

definition extract_key128 :: "wc_aes option \<Rightarrow> blk option" where
  "extract_key128 aes =
     (case aes of None \<Rightarrow> None
      | Some a \<Rightarrow> if keylen a \<noteq> 16 then None else Some (ld128 (key_bytes (key_words a))))"

definition ctr_inc_be :: "bytes \<Rightarrow> bytes" where
  "ctr_inc_be ctr = inc_loop 16 15 ctr"




text \<open>A cipher request and the callback's answer: output and tag are written only in a finished request.\<close>

datatype cipher_req =
    AES_CTR bytes
  | AES_GCM_ENC bytes bytes bytes nat
  | AES_GCM_DEC bytes bytes bytes bytes
  | OTHER_CIPHER

datatype wc_rc = RC_OK | CRYPTOCB_UNAVAILABLE | AES_GCM_AUTH_E

record wc_reply =
  rc :: wc_rc
  r_out :: "bytes option"
  r_tag :: "bytes option"

definition unavailable :: wc_reply where
  "unavailable = \<lparr>rc = CRYPTOCB_UNAVAILABLE, r_out = None, r_tag = None\<rparr>"

definition gcm_enc_req :: "'w cio \<Rightarrow> bool \<Rightarrow> blk option \<Rightarrow> bytes \<Rightarrow> bytes \<Rightarrow> bytes \<Rightarrow> nat \<Rightarrow> 'w \<Rightarrow> wc_reply \<times> 'w" where
  "gcm_enc_req io sp key iv aad pt tag_sz w =
     (if length iv \<noteq> 12 \<or> tag_sz \<noteq> 16 then (unavailable, w)
      else case key of None \<Rightarrow> (unavailable, w)
      | Some k \<Rightarrow> (case aes_gcm_encrypt io sp iv aad pt (aes_hw_set_key io k w) of (ct, tag, w1) \<Rightarrow>
          (\<lparr>rc = RC_OK, r_out = Some ct, r_tag = Some tag\<rparr>, w1)))"

definition gcm_dec_req :: "'w cio \<Rightarrow> bool \<Rightarrow> blk option \<Rightarrow> bytes \<Rightarrow> bytes \<Rightarrow> bytes \<Rightarrow> bytes \<Rightarrow> 'w \<Rightarrow> wc_reply \<times> 'w" where
  "gcm_dec_req io sp key iv aad ct tag w =
     (if length iv \<noteq> 12 \<or> length tag \<noteq> 16 then (unavailable, w)
      else case key of None \<Rightarrow> (unavailable, w)
      | Some k \<Rightarrow> (case aes_gcm_decrypt io sp iv aad ct tag (aes_hw_set_key io k w) of (r, pt, w1) \<Rightarrow>
          (\<lparr>rc = (if r = 0 then RC_OK else AES_GCM_AUTH_E), r_out = Some pt, r_tag = None\<rparr>, w1)))"






definition KLAUSSCPU_CRYPTO_DEV_ID :: int where "KLAUSSCPU_CRYPTO_DEV_ID = 1"

definition hw_find_cb :: "int \<Rightarrow> bool \<Rightarrow> int" where
  "hw_find_cb dev_id is_cipher = (if is_cipher then KLAUSSCPU_CRYPTO_DEV_ID else dev_id)"

section \<open>FreeRTOS callback\<close>

record f_aes =
  f_keylen :: nat
  f_key :: "u32 list"
  f_reg :: "u32 list"

definition f_key_bytes :: "u32 list \<Rightarrow> bytes" where
  "f_key_bytes ws = concat (map (\<lambda>i. let w = ws ! i in
     [ucast w, ucast (drop_bit 8 w), ucast (drop_bit 16 w), ucast (drop_bit 24 w)]) [0..<4])"

definition f_extract_key128 :: "f_aes option \<Rightarrow> blk option" where
  "f_extract_key128 aes =
     (case aes of None \<Rightarrow> None | Some a \<Rightarrow> if f_keylen a \<noteq> 16 then None else Some (ld128 (f_key_bytes (f_key a))))"

text \<open>The counter block of the register words, and back.\<close>

definition reg_bytes :: "u32 list \<Rightarrow> bytes" where
  "reg_bytes ws = concat (map (\<lambda>i. let w = ws ! i in
     [ucast (drop_bit 24 w), ucast (drop_bit 16 w), ucast (drop_bit 8 w), ucast w]) [0..<4])"

definition reg_words :: "bytes \<Rightarrow> u32 list" where
  "reg_words nc = map (\<lambda>i. push_bit 24 (ucast (nc ! (4 * i))) OR push_bit 16 (ucast (nc ! (4 * i + 1))) OR
     push_bit 8 (ucast (nc ! (4 * i + 2))) OR ucast (nc ! (4 * i + 3))) [0..<4]"

definition f_advance :: "bytes \<Rightarrow> nat \<Rightarrow> bytes" where
  "f_advance ctr sz =
     (let blocks = (of_nat sz + 15 :: u32) div 16;
          (clo, old_chi) = ld128 ctr;
          chi = old_chi + ucast blocks
      in st128 (if chi < old_chi then clo + 1 else clo, chi))"

datatype f_info = F_CIPHER cipher_req | F_SEED nat | F_OTHER

fun f_hw_crypto_cb :: "'w cio \<Rightarrow> bool \<Rightarrow> f_aes option \<Rightarrow> f_info \<Rightarrow> 'w \<Rightarrow> wc_reply \<times> f_aes option \<times> 'w" where
  "f_hw_crypto_cb io sp aes (F_CIPHER (AES_CTR inp)) w =
     (case (f_extract_key128 aes, aes) of
        (Some k, Some a) \<Rightarrow>
          (let ctr = reg_bytes (f_reg a) in
           case aes_ctr io (ld128 ctr) inp (aes_hw_set_key io k w) of (out, w1) \<Rightarrow>
             (\<lparr>rc = RC_OK, r_out = Some out, r_tag = None\<rparr>, Some (a\<lparr>f_reg := reg_words (f_advance ctr (length inp))\<rparr>), w1))
      | _ \<Rightarrow> (unavailable, aes, w))"
| "f_hw_crypto_cb io sp aes (F_CIPHER (AES_GCM_ENC iv aad pt tag_sz)) w =
     (case gcm_enc_req io sp (f_extract_key128 aes) iv aad pt tag_sz w of (r, w1) \<Rightarrow> (r, aes, w1))"
| "f_hw_crypto_cb io sp aes (F_CIPHER (AES_GCM_DEC iv aad ct tag)) w =
     (case gcm_dec_req io sp (f_extract_key128 aes) iv aad ct tag w of (r, w1) \<Rightarrow> (r, aes, w1))"
| "f_hw_crypto_cb io sp aes (F_CIPHER OTHER_CIPHER) w = (unavailable, aes, w)"
| "f_hw_crypto_cb io sp aes (F_SEED n) w = (unavailable, aes, w)"
| "f_hw_crypto_cb io sp aes F_OTHER w = (unavailable, aes, w)"

section \<open>The stream of the Zephyr callback\<close>


lemma ctr_inc_be_next: "length c = 16 \<Longrightarrow> ctr_inc_be c = ctr_next 16 c"
  using inc_loop_eq [of c "[]" "[]"] by (simp add: ctr_inc_be_def ctr_next_def)



lemma extract_upd [simp]: "extract_key128 (Some (a\<lparr>left := l\<rparr>)) = extract_key128 (Some a)"
  "extract_key128 (Some (a\<lparr>reg := r\<rparr>)) = extract_key128 (Some a)" "extract_key128 (Some (a\<lparr>tmp := t\<rparr>)) = extract_key128 (Some a)"
  by (simp_all add: extract_key128_def)






section \<open>Calls of the callback\<close>










section \<open>The FreeRTOS callback\<close>

lemma inc_loop_above: "i < j \<Longrightarrow> inc_loop k i c ! j = c ! j"
  by (induction k i c rule: inc_loop.induct) (auto simp: Let_def)

lemma ctr_next_last: "length c = 16 \<Longrightarrow> ctr_next 16 c ! 15 = c ! 15 + 1"
proof -
  assume c: "length c = 16"
  have "inc_loop (Suc 15) 15 c ! 15 = c ! 15 + 1" 
    using c inc_loop_above [of 14 15 15 "c[15 := c ! 15 + 1]"] inc_loop.simps(2) [of 15 15 c] by (simp add: Let_def split: if_splits)
  then show ?thesis using ctr_inc_be_next [OF c] by (simp add: ctr_inc_be_def)
qed

lemma top_byte_kept:
  fixes x :: u64
  assumes "unat x mod 256 \<noteq> 255"
  shows "drop_bit 56 (x + 1) = drop_bit 56 x" "x \<le> x + 1"
proof -
  have n: "unat x + 1 < 2 ^ 64" using assms unsigned_less [of x, where ?'a = nat] by (cases "unat x = 2 ^ 64 - 1") auto
  then have u: "unat (x + 1) = unat x + 1" by (simp add: unat_word_ariths)
  define q r where "q = unat x div 256" and "r = unat x mod 256"
  have "unat x = 256 * q + r" "r < 255" using assms mod_less_divisor [of 256 "unat x"] unfolding r_def q_def by auto
  then have "(unat x + 1) div 256 = unat x div 256" by auto
  then have "(unat x + 1) div (256 * 2 ^ 48) = unat x div (256 * 2 ^ 48)" by (simp only: div_mult2_eq)
  then have "unat (drop_bit 56 (x + 1)) = unat (drop_bit 56 x)" 
    unfolding unat_drop_bit_eq u by (simp add: drop_bit_eq_div)
  then show "drop_bit 56 (x + 1) = drop_bit 56 x" by (rule unsigned_word_eqI)
  show "x \<le> x + 1" by (simp add: word_le_nat_alt u)
qed

lemma reg_roundtrip:
  assumes "length b = 16"
  shows "reg_bytes (reg_words b) = b"
proof -
  have w: "ucast (drop_bit 24 (push_bit 24 (ucast p) OR push_bit 16 (ucast q) OR push_bit 8 (ucast r) OR ucast t :: u32)) = p"
    "ucast (drop_bit 16 (push_bit 24 (ucast p) OR push_bit 16 (ucast q) OR push_bit 8 (ucast r) OR ucast t :: u32)) = q"
    "ucast (drop_bit 8 (push_bit 24 (ucast p) OR push_bit 16 (ucast q) OR push_bit 8 (ucast r) OR ucast t :: u32)) = r"
    "ucast (push_bit 24 (ucast p) OR push_bit 16 (ucast q) OR push_bit 8 (ucast r) OR ucast t :: u32) = t" for p q r t :: u8
    by (rule bit_word_eqI; auto simp: bit_simps dest: bit_imp_le_length)+
  have "b = concat (map (\<lambda>i. [b ! (4 * i), b ! (4 * i + 1), b ! (4 * i + 2), b ! (4 * i + 3)]) [0..<4])"
    using assms by (intro nth_equalityI) (auto simp: upt_rec numeral_eq_Suc less_Suc_eq)
  also have "\<dots> = reg_bytes (reg_words b)"
  proof -
    have r: "reg_words b ! i = push_bit 24 (ucast (b ! (4 * i))) OR push_bit 16 (ucast (b ! (4 * i + 1))) OR
        push_bit 8 (ucast (b ! (4 * i + 2))) OR ucast (b ! (4 * i + 3))" if "i \<in> set [0..<4]" for i
      using that by (simp add: reg_words_def del: upt_Suc)
    show ?thesis unfolding reg_bytes_def Let_def
      by (intro arg_cong [where f = concat] map_cong refl) (simp only: r w)
  qed
  finally show ?thesis by simp
qed

lemma length_reg_bytes [simp]: "length (reg_bytes ws) = 16"
  by (simp add: reg_bytes_def Let_def upt_rec)

text \<open>After one block the FreeRTOS callback's counter block is not the next one.\<close>

lemma f_advance_wrong:
  assumes c: "length c = 16" and b: "c ! 8 \<noteq> 255"
  shows "f_advance c 16 \<noteq> ctr_next 16 c"
proof -
  define x where "x = snd (ld128 c)"
  have s: "st128 (ld128 c) = c" using c by (rule st128_ld128)
  have x8: "st64 x = drop 8 c" by (metis s x_def st128_def append_eq_conv_conj length_st64)
  have c8: "c ! 8 = ucast x" using arg_cong [OF x8, of "\<lambda>l. l ! 0"] c by (simp add: nth_st64)
  have "unat (c ! 8) = unat x mod 256" unfolding c8 by (simp add: unsigned_ucast_eq take_bit_eq_mod)
  moreover have "unat (c ! 8) \<noteq> unat (255 :: u8)" using b unsigned_word_eqI [of "c ! 8" "255 :: u8", where ?'a = nat] by blast
  ultimately have x: "unat x mod 256 \<noteq> 255" by simp
  have "f_advance c 16 = st128 (fst (ld128 c), x + 1)"
    using top_byte_kept(2) [OF x] by (simp add: f_advance_def case_prod_beta x_def [symmetric] Let_def not_less [symmetric])
  then have "f_advance c 16 ! 15 = ucast (drop_bit 56 (x + 1))" by (simp add: st128_def nth_append nth_st64)
  also have "\<dots> = st64 x ! 7" unfolding top_byte_kept(1) [OF x] by (simp add: nth_st64)
  also have "\<dots> = c ! 15" using c by (simp add: x8)
  finally show ?thesis using ctr_next_last [OF c] by auto
qed

lemma xor2_twice: "xor2 (xor2 x y) y = x"
  by (simp add: xor2_def xor.assoc)

lemma f_ctr_call:
  assumes "aes_ok P io view" and "aes_idle view w k" and "f_extract_key128 (Some a) = Some key"
  obtains w' where "f_hw_crypto_cb io sp (Some a) (F_CIPHER (AES_CTR d)) w =
      (\<lparr>rc = RC_OK, r_out = Some (ctr_ref P key 16 (reg_bytes (f_reg a)) d), r_tag = None\<rparr>,
       Some (a\<lparr>f_reg := reg_words (f_advance (reg_bytes (f_reg a)) (length d))\<rparr>), w')" "aes_idle view w' key"
proof -
  note sk = set_key_to [OF assms(1,2), of key]
  have s: "st128 (ld128 (reg_bytes (f_reg a))) = reg_bytes (f_reg a)" by (simp add: st128_ld128)
  note c = aes_ctr_to [OF assms(1) sk(1), of "ld128 (reg_bytes (f_reg a))" d, unfolded s]
  show thesis using c assms(3) that [of "snd (aes_ctr io (ld128 (reg_bytes (f_reg a))) d (aes_hw_set_key io key w))"]
    by (simp add: Let_def case_prod_beta)
qed

text \<open>
  C39: the FreeRTOS callback's counter mode is not one stream.  The first request is counter
  mode, but the counter it leaves behind is advanced as a little-endian number: for every
  block cipher, unless byte 8 of the counter block is 255, the second of two one-block requests
  gets the wrong keystream, so the pieces do not join up to counter mode of the whole.
\<close>

theorem f_ctr_second_call_wrong:
  assumes "aes_ok P io view" and "aes_idle view w k" and "f_extract_key128 (Some a) = Some key" and "inj (p_enc P key)"
    and "reg_bytes (f_reg a) ! 8 \<noteq> 255" and "length d1 = 16" and "length d2 = 16"
    and "f_hw_crypto_cb io sp (Some a) (F_CIPHER (AES_CTR d1)) w = (r1, a1, w1)"
    and "f_hw_crypto_cb io sp a1 (F_CIPHER (AES_CTR d2)) w1 = (r2, a2, w2)"
  shows "r_out r1 = Some (ctr_ref P key 16 (reg_bytes (f_reg a)) d1) \<and>
    the (r_out r1) @ the (r_out r2) \<noteq> ctr_ref P key 16 (reg_bytes (f_reg a)) (d1 @ d2)"
proof -
  let ?c = "reg_bytes (f_reg a)"
  have l: "length (f_advance ?c 16) = 16" by (simp add: f_advance_def Let_def case_prod_beta)
  have 1: "r_out r1 = Some (ctr_ref P key 16 ?c d1)" "a1 = Some (a\<lparr>f_reg := reg_words (f_advance ?c 16)\<rparr>)" "aes_idle view w1 key"
    using f_ctr_call [OF assms(1-3), of sp d1] assms(6,8) by (force, force, force)
  have "f_extract_key128 (Some (a\<lparr>f_reg := reg_words (f_advance ?c 16)\<rparr>)) = Some key"
    using assms(3) by (simp add: f_extract_key128_def split: if_splits)
  then have 2: "r_out r2 = Some (ctr_ref P key 16 (f_advance ?c 16) d2)"
    using f_ctr_call [OF assms(1) 1(3), of "a\<lparr>f_reg := reg_words (f_advance ?c 16)\<rparr>" key sp d2] assms(9)
    by (force simp: 1(2) reg_roundtrip [OF l])
  have "ld128 (f_advance ?c 16) \<noteq> ld128 (ctr_next 16 ?c)"
    using f_advance_wrong [OF _ assms(5)] l st128_ld128 [of "f_advance ?c 16"] st128_ld128 [of "ctr_next 16 ?c"] by auto
  then have e: "p_enc P key (ld128 (f_advance ?c 16)) \<noteq> p_enc P key (ld128 (ctr_next 16 ?c))" using assms(4) by (auto dest: injD)
  have b: "ctr_ref P key 16 c d2 = st128 (xor2 (p_enc P key (ld128 c)) (ld128 d2))" for c
    using assms(7) by (simp add: ctr_ref_block)
  have "xor2 (p_enc P key (ld128 (f_advance ?c 16))) (ld128 d2) \<noteq> xor2 (p_enc P key (ld128 (ctr_next 16 ?c))) (ld128 d2)"
    using e xor2_twice by metis
  then have "ctr_ref P key 16 (f_advance ?c 16) d2 \<noteq> ctr_ref P key 16 (ctr_next 16 ?c) d2" unfolding b by (metis ld128_st128(1))
  moreover have "ctr_ref P key 16 ?c (d1 @ d2) = ctr_ref P key 16 ?c d1 @ ctr_ref P key 16 (ctr_next 16 ?c) d2"
    using assms(6) ctr_ref_block [of "d1 @ d2" P key 16 ?c] ctr_ref_block [of d1 P key 16 ?c] ld128_take [of 16 "d1 @ d2"] by simp
  ultimately show ?thesis using 1(1) 2 by simp
qed

theorem f_ctr_second_call_wrong_witness:
  "\<exists>r1 a1 w1 r2 a2 w2.
    f_hw_crypto_cb soft_io True (Some \<lparr>f_keylen = 16, f_key = replicate 4 7, f_reg = replicate 4 0\<rparr>) (F_CIPHER (AES_CTR (replicate 16 1))) soft_dev = (r1, a1, w1) \<and>
    f_hw_crypto_cb soft_io True a1 (F_CIPHER (AES_CTR (replicate 16 2))) w1 = (r2, a2, w2) \<and>
    the (r_out r1) @ the (r_out r2) \<noteq> ctr_ref soft_prims (ld128 (f_key_bytes (replicate 4 7))) 16 (reg_bytes (replicate 4 0)) (replicate 16 1 @ replicate 16 2)"
proof -
  let ?a = "\<lparr>f_keylen = 16, f_key = replicate 4 7, f_reg = replicate 4 0\<rparr>" and ?key = "ld128 (f_key_bytes (replicate 4 7))"
  obtain r1 a1 w1 where 1: "f_hw_crypto_cb soft_io True (Some ?a) (F_CIPHER (AES_CTR (replicate 16 1))) soft_dev = (r1, a1, w1)" by (metis prod.exhaust)
  obtain r2 a2 w2 where 2: "f_hw_crypto_cb soft_io True a1 (F_CIPHER (AES_CTR (replicate 16 2))) w1 = (r2, a2, w2)" by (metis prod.exhaust)
  have i: "aes_idle id soft_dev (0, 0)" by (simp add: aes_idle_def aes_st_def soft_dev_def)
  have k: "f_extract_key128 (Some ?a) = Some ?key" by (simp add: f_extract_key128_def)
  have j: "inj (p_enc soft_prims ?key)" by (auto simp: inj_def soft_prims_def prod_eq_iff)
  have b: "reg_bytes (f_reg ?a) ! 8 \<noteq> 255" by (simp add: reg_bytes_def upt_rec Let_def)
  from f_ctr_second_call_wrong [OF soft_ok(1) i k j b _ _ 1 2] 1 2 show ?thesis by auto
qed

end
