(* ===== verification/Trng.thy ===== *)
theory Trng
  imports Crypto_Unit
begin

unbundle bit_operations_syntax

text \<open>
  The true random number generator and its users: the polling routines of
  \<^verbatim>\<open>src/crypto_hw.c\<close> and \<^verbatim>\<open>mmio.h\<close>, the Zephyr entropy driver
  \<^verbatim>\<open>entropy_klausscpu_trng.c\<close>, and the two seed functions for wolfCrypt.  The generator is a
  parameter: a status register, a control register and a word register whose read takes a
  word out of the FIFO.  Loops that wait for the hardware return \<open>None\<close> if it never answers.
\<close>

section \<open>Registers\<close>

record 'w tio =
  t_status :: "'w \<Rightarrow> u32 \<times> 'w"
  t_ctrl :: "u32 \<Rightarrow> 'w \<Rightarrow> 'w"
  t_data :: "'w \<Rightarrow> u64 \<times> 'w"

definition TRNG_CTRL_ENABLE :: u32 where "TRNG_CTRL_ENABLE = 1"
definition TRNG_CTRL_RESEED :: u32 where "TRNG_CTRL_RESEED = 2"
definition TRNG_STATUS_READY :: u32 where "TRNG_STATUS_READY = 1"
definition TRNG_STATUS_HEALTH_OK :: u32 where "TRNG_STATUS_HEALTH_OK = 2"

abbreviation is_ready :: "u32 \<Rightarrow> bool" where
  "is_ready st \<equiv> st AND TRNG_STATUS_READY \<noteq> 0"

abbreviation is_healthy :: "u32 \<Rightarrow> bool" where
  "is_healthy st \<equiv> st AND TRNG_STATUS_HEALTH_OK \<noteq> 0"

section \<open>The shared driver\<close>

text \<open>\<^verbatim>\<open>while (!(REG_TRNG_STATUS & TRNG_STATUS_READY)) {}\<close>\<close>

partial_function (option) wait_ready :: "'w tio \<Rightarrow> 'w \<Rightarrow> 'w option" where
  "wait_ready io w = (case t_status io w of (st, w1) \<Rightarrow> if is_ready st then Some w1 else wait_ready io w1)"

fun trng_drain :: "'w tio \<Rightarrow> nat \<Rightarrow> 'w \<Rightarrow> 'w" where
  "trng_drain io 0 w = snd (t_status io w)"
| "trng_drain io (Suc n) w =
     (case t_status io w of (st, w1) \<Rightarrow> if is_ready st then trng_drain io n (snd (t_data io w1)) else w1)"

definition trng_init :: "'w tio \<Rightarrow> 'w \<Rightarrow> 'w option" where
  "trng_init io w =
     wait_ready io (t_ctrl io (TRNG_CTRL_ENABLE OR TRNG_CTRL_RESEED) (trng_drain io 32 (t_ctrl io TRNG_CTRL_ENABLE w)))"

definition trng_ready :: "'w tio \<Rightarrow> 'w \<Rightarrow> bool \<times> 'w" where
  "trng_ready io w = (case t_status io w of (st, w1) \<Rightarrow> (is_ready st, w1))"

definition trng_health_ok :: "'w tio \<Rightarrow> 'w \<Rightarrow> bool \<times> 'w" where
  "trng_health_ok io w = (case t_status io w of (st, w1) \<Rightarrow> (is_healthy st, w1))"

text \<open>A word when one is ready.\<close>

definition next_word :: "'w tio \<Rightarrow> 'w \<Rightarrow> (u64 \<times> 'w) option" where
  "next_word io w = map_option (t_data io) (wait_ready io w)"

function trng_read :: "'w tio \<Rightarrow> nat \<Rightarrow> 'w \<Rightarrow> (bytes \<times> 'w) option" where
  "trng_read io len w =
     (if 8 \<le> len then
        case next_word io w of None \<Rightarrow> None
        | Some (v, w1) \<Rightarrow> map_option (\<lambda>(b, w2). (st64 v @ b, w2)) (trng_read io (len - 8) w1)
      else if 0 < len then map_option (\<lambda>(v, w1). (take len (st64 v), w1)) (next_word io w)
      else Some ([], w))"
  by auto
termination by (relation "measure (\<lambda>(io, len, w). len)") auto

definition trng_read64 :: "'w tio \<Rightarrow> 'w \<Rightarrow> u64 option \<times> 'w" where
  "trng_read64 io w =
     (case t_status io w of (st1, w1) \<Rightarrow>
        if \<not> is_ready st1 then (None, w1)
        else case t_status io w1 of (st2, w2) \<Rightarrow>
          if \<not> is_healthy st2 then (None, w2)
          else case t_data io w2 of (v, w3) \<Rightarrow> (Some v, w3))"

section \<open>The Zephyr entropy driver\<close>

datatype errno = EIO | ETIMEDOUT | ENODATA

definition TRNG_READY_POLLS :: nat where "TRNG_READY_POLLS = 100000"

fun reseed_polls :: "'w tio \<Rightarrow> nat \<Rightarrow> 'w \<Rightarrow> errno option \<times> 'w" where
  "reseed_polls io 0 w = (Some ETIMEDOUT, w)"
| "reseed_polls io (Suc n) w =
     (case t_status io w of (st, w1) \<Rightarrow>
        if is_ready st then (if is_healthy st then None else Some EIO, w1) else reseed_polls io n w1)"

text \<open>\<open>None\<close> is the return value 0.\<close>

definition trng_reseed :: "'w tio \<Rightarrow> 'w \<Rightarrow> errno option \<times> 'w" where
  "trng_reseed io w = reseed_polls io TRNG_READY_POLLS (t_ctrl io (TRNG_CTRL_ENABLE OR TRNG_CTRL_RESEED) w)"

text \<open>
  The loop with its local variables: the bytes delivered so far and whether this request has
  reseeded.  It returns the count or the error, and the bytes written to the buffer.
\<close>

partial_function (option) fill_loop :: "'w tio \<Rightarrow> u16 \<Rightarrow> bool \<Rightarrow> u16 \<Rightarrow> bool \<Rightarrow> bytes \<Rightarrow> 'w \<Rightarrow> ((errno + u16) \<times> bytes \<times> 'w) option" where
  "fill_loop io len wait got reseeded buf w =
     (if got < len then
        case t_status io w of (st, w1) \<Rightarrow>
          (if \<not> is_healthy st then
             if reseeded then Some (Inl EIO, buf, w1)
             else case trng_reseed io w1 of (r, w2) \<Rightarrow>
                    (if r \<noteq> None then Some (Inl EIO, buf, w2) else fill_loop io len wait got True buf w2)
           else if \<not> is_ready st then
             if \<not> wait then Some (Inr got, buf, w1) else fill_loop io len wait got reseeded buf w1
           else case t_data io w1 of (v, w2) \<Rightarrow>
                  fill_loop io len wait (got + min 8 (len - got)) reseeded (buf @ take (unat (min 8 (len - got))) (st64 v)) w2)
      else Some (Inr got, buf, w))"

definition trng_fill :: "'w tio \<Rightarrow> u16 \<Rightarrow> bool \<Rightarrow> 'w \<Rightarrow> ((errno + u16) \<times> bytes \<times> 'w) option" where
  "trng_fill io len wait w = fill_loop io len wait 0 False [] w"

definition trng_get_entropy :: "'w tio \<Rightarrow> u16 \<Rightarrow> 'w \<Rightarrow> (errno option \<times> bytes \<times> 'w) option" where
  "trng_get_entropy io len w =
     map_option (\<lambda>(ret, buf, w1). (case ret of Inl e \<Rightarrow> Some e | Inr n \<Rightarrow> None, buf, w1)) (trng_fill io len True w)"

definition trng_get_entropy_isr :: "'w tio \<Rightarrow> u16 \<Rightarrow> bool \<Rightarrow> 'w \<Rightarrow> ((errno + u16) \<times> bytes \<times> 'w) option" where
  "trng_get_entropy_isr io len busywait w =
     map_option (\<lambda>(ret, buf, w1). (if ret = Inr 0 \<and> len > 0 then Inl ENODATA else ret, buf, w1)) (trng_fill io len busywait w)"

fun init_drain :: "'w tio \<Rightarrow> nat \<Rightarrow> 'w \<Rightarrow> 'w" where
  "init_drain io 0 w = w"
| "init_drain io (Suc n) w =
     (case t_status io w of (st, w1) \<Rightarrow> if is_ready st then init_drain io n (snd (t_data io w1)) else w1)"

definition entropy_init :: "'w tio \<Rightarrow> 'w \<Rightarrow> errno option \<times> 'w" where
  "entropy_init io w = trng_reseed io (init_drain io 32 (t_ctrl io TRNG_CTRL_ENABLE w))"

section \<open>Seeding wolfCrypt\<close>

text \<open>FreeRTOS; \<open>False\<close> is the return value -1.\<close>

definition f_trng_seed :: "'w tio \<Rightarrow> nat \<Rightarrow> 'w \<Rightarrow> (bool \<times> bytes \<times> 'w) option" where
  "f_trng_seed io sz w =
     (case trng_health_ok io w of (h, w1) \<Rightarrow>
        if \<not> h then Some (False, [], w1) else map_option (\<lambda>(b, w2). (True, b, w2)) (trng_read io sz w1))"

text \<open>Zephyr: its own routines on the same registers.\<close>

fun health_polls :: "'w tio \<Rightarrow> nat \<Rightarrow> 'w \<Rightarrow> 'w" where
  "health_polls io 0 w = w"
| "health_polls io (Suc n) w = (case t_status io w of (st, w1) \<Rightarrow> if is_healthy st then w1 else health_polls io n w1)"

definition trng_init_hw :: "'w tio \<Rightarrow> 'w \<Rightarrow> 'w option" where
  "trng_init_hw io w = map_option (health_polls io 1000) (wait_ready io (t_ctrl io TRNG_CTRL_ENABLE w))"

definition z_trng_health_ok :: "'w tio \<Rightarrow> 'w \<Rightarrow> bool \<times> 'w" where
  "z_trng_health_ok io w = (case t_status io w of (st, w1) \<Rightarrow> (st AND (TRNG_STATUS_HEALTH_OK OR TRNG_STATUS_READY) \<noteq> 0, w1))"

function z_read_loop :: "'w tio \<Rightarrow> nat \<Rightarrow> nat \<Rightarrow> 'w \<Rightarrow> (bytes \<times> 'w) option" where
  "z_read_loop io len n w =
     (if n < len then
        case next_word io w of None \<Rightarrow> None
        | Some (v, w1) \<Rightarrow>
            (let chunk = (if 8 < len - n then 8 else len - n)
             in map_option (\<lambda>(b, w2). (take chunk (st64 v) @ b, w2)) (z_read_loop io len (n + chunk) w1))
      else Some ([], w))"
  by auto
termination by (relation "measure (\<lambda>(io, len, n, w). len - n)") auto

definition z_trng_read :: "'w tio \<Rightarrow> nat \<Rightarrow> 'w \<Rightarrow> (bytes \<times> 'w) option" where
  "z_trng_read io len w = z_read_loop io len 0 w"

definition z_trng_seed :: "'w tio \<Rightarrow> nat \<Rightarrow> 'w \<Rightarrow> (bool \<times> bytes \<times> 'w) option" where
  "z_trng_seed io sz w =
     (case z_trng_health_ok io w of (h, w1) \<Rightarrow>
        if \<not> h then Some (False, [], w1) else map_option (\<lambda>(b, w2). (True, b, w2)) (z_trng_read io sz w1))"

section \<open>What the registers saw\<close>

text \<open>The same registers with a record of every access, the latest first.\<close>

datatype tev = Status u32 | Ctrl u32 | Data u64

definition logged :: "'w tio \<Rightarrow> ('w \<times> tev list) tio" where
  "logged io = \<lparr>
     t_status = (\<lambda>(w, l). case t_status io w of (v, w1) \<Rightarrow> (v, w1, Status v # l)),
     t_ctrl = (\<lambda>v (w, l). (t_ctrl io v w, Ctrl v # l)),
     t_data = (\<lambda>(w, l). case t_data io w of (v, w1) \<Rightarrow> (v, w1, Data v # l))\<rparr>"

text \<open>Every word taken right after a status that shows the generator healthy and ready.\<close>

fun checked :: "tev list \<Rightarrow> bool" where
  "checked (Data v # Status st # l) \<longleftrightarrow> is_healthy st \<and> is_ready st \<and> checked l"
| "checked (Data v # l) \<longleftrightarrow> False"
| "checked (e # l) \<longleftrightarrow> checked l"
| "checked [] \<longleftrightarrow> True"

fun words_of :: "tev list \<Rightarrow> u64 list" where
  "words_of [] = []"
| "words_of (Data v # l) = words_of l @ [v]"
| "words_of (e # l) = words_of l"

fun reseeds :: "tev list \<Rightarrow> nat" where
  "reseeds [] = 0"
| "reseeds (Ctrl v # l) = Suc (reseeds l)"
| "reseeds (e # l) = reseeds l"

lemma logged_sel [simp]:
  "t_status (logged io) (w, l) = (case t_status io w of (v, w1) \<Rightarrow> (v, w1, Status v # l))"
  "t_ctrl (logged io) v (w, l) = (t_ctrl io v w, Ctrl v # l)"
  "t_data (logged io) (w, l) = (case t_data io w of (v, w1) \<Rightarrow> (v, w1, Data v # l))"
  by (simp_all add: logged_def)

text \<open>What a request has delivered: the words taken, in order, cut to the length asked for.\<close>

definition delivered :: "u16 \<Rightarrow> u16 \<Rightarrow> bytes \<Rightarrow> tev list \<Rightarrow> bool" where
  "delivered len got buf l \<longleftrightarrow> unat got = min (unat len) (8 * length (words_of l)) \<and>
     buf = take (unat got) (concat (map st64 (words_of l)))"

lemma length_word_bytes: "length (concat (map st64 ws)) = 8 * length ws"
  by (induction ws) simp_all

lemma delivered_more:
  assumes "delivered len got buf l" and "got < len"
  shows "delivered len (got + min 8 (len - got)) (buf @ take (unat (min 8 (len - got))) (st64 v)) (Data v # Status st # l)"
proof -
  let ?ws = "words_of l"
  have g: "unat got < unat len" using assms(2) by (simp add: word_less_nat_alt)
  then have k: "unat got = 8 * length ?ws" using assms(1) by (auto simp: delivered_def)
  have d: "unat (len - got) = unat len - unat got" using assms(2) by (simp add: unat_sub less_imp_le)
  have m: "unat (min 8 (len - got)) = min 8 (unat len - unat got)" by (simp add: min_def word_le_nat_alt d)
  have "unat got + min 8 (unat len - unat got) < 2 ^ 16" using g unsigned_less [of len, where ?'a = nat] by simp
  then have s: "unat (got + min 8 (len - got)) = min (unat len) (8 * length ?ws + 8)"
    using g k by (simp add: unat_word_ariths m)
  have "take (min (unat len) (8 * length ?ws + 8)) (concat (map st64 ?ws) @ st64 v) = concat (map st64 ?ws) @ take (min 8 (unat len - unat got)) (st64 v)"
    using g k by (auto simp: length_word_bytes min_def)
  moreover have "buf = concat (map st64 ?ws)" using assms(1) k by (simp add: delivered_def length_word_bytes)
  ultimately show ?thesis by (simp add: delivered_def s m)
qed

lemma reseed_log:
  "reseed_polls (logged io) n (w, l) = (r, w', l') \<Longrightarrow> (checked l' \<longleftrightarrow> checked l) \<and> words_of l' = words_of l \<and> reseeds l' = reseeds l"
proof (induction n arbitrary: w l)
  case (Suc n)
  obtain st w1 where st: "t_status io w = (st, w1)" by (cases "t_status io w")
  show ?case using Suc.prems Suc.IH [of w1 "Status st # l"] by (auto simp: st split: if_splits)
qed simp

lemma trng_reseed_log:
  "trng_reseed (logged io) (w, l) = (r, w', l') \<Longrightarrow> (checked l' \<longleftrightarrow> checked l) \<and> words_of l' = words_of l \<and> reseeds l' = Suc (reseeds l)"
  using reseed_log by (fastforce simp: trng_reseed_def)

definition fill_inv :: "u16 \<Rightarrow> u16 \<Rightarrow> bool \<Rightarrow> bytes \<Rightarrow> tev list \<Rightarrow> bool" where
  "fill_inv len got reseeded buf l \<longleftrightarrow> checked l \<and> delivered len got buf l \<and> reseeds l \<le> (if reseeded then 1 else 0)"

lemma fill_inv_le: "fill_inv len got rs buf l \<Longrightarrow> got \<le> len"
  by (simp add: fill_inv_def delivered_def word_le_nat_alt)

lemma fill_inv_status: "fill_inv len got rs buf (Status st # l) \<longleftrightarrow> fill_inv len got rs buf l"
  by (simp add: fill_inv_def delivered_def)

lemma fill_inv_True: "fill_inv len got rs buf l \<Longrightarrow> fill_inv len got True buf l"
  by (cases rs) (simp_all add: fill_inv_def)

definition fill_post :: "u16 \<Rightarrow> bool \<Rightarrow> (errno + u16) \<times> bytes \<times> 'w \<times> tev list \<Rightarrow> bool" where
  "fill_post len wait res \<longleftrightarrow> (case res of (r, b, w, l) \<Rightarrow>
     \<exists>n. fill_inv len n True b l \<and> (r = Inl EIO \<or> r = Inr n \<and> (wait \<longrightarrow> n = len)))"

text \<open>One turn of the loop, for whatever the rest of it guarantees.\<close>

lemma fill_turn:
  assumes IH: "\<And>g k bx s res. fl (logged io) len wait g k bx s = Some res \<Longrightarrow> fill_inv len g k bx (snd s) \<Longrightarrow> fill_post len wait res"
    and inv: "fill_inv len got rs buf l" and st: "t_status io w = (st, w1)"
    and e: "(if got < len then
        (if \<not> is_healthy st then
             if rs then Some (Inl EIO, buf, w1, Status st # l)
             else case trng_reseed (logged io) (w1, Status st # l) of (r, w2) \<Rightarrow>
                    (if r \<noteq> None then Some (Inl EIO, buf, w2) else fl (logged io) len wait got True buf w2)
           else if \<not> is_ready st then
             if \<not> wait then Some (Inr got, buf, w1, Status st # l) else fl (logged io) len wait got rs buf (w1, Status st # l)
           else case t_data (logged io) (w1, Status st # l) of (v, w2) \<Rightarrow>
                  fl (logged io) len wait (got + min 8 (len - got)) rs (buf @ take (unat (min 8 (len - got))) (st64 v)) w2)
      else Some (Inr got, buf, w, l)) = Some res"
  shows "fill_post len wait res"
proof -
  consider "\<not> got < len" | "got < len" "\<not> is_healthy st" "rs" | "got < len" "\<not> is_healthy st" "\<not> rs"
    | "got < len" "is_healthy st" "\<not> is_ready st" | "got < len" "is_healthy st" "is_ready st" by blast
  then show ?thesis
  proof cases
    case 1
    then have "got = len" using fill_inv_le [OF inv] by simp
    then show ?thesis using 1 e inv fill_inv_True by (auto simp: fill_post_def)
  next
    case 2
    then show ?thesis using e inv by (auto simp: fill_post_def fill_inv_status)
  next
    case 3
    obtain r w2 l2 where r: "trng_reseed (logged io) (w1, Status st # l) = (r, w2, l2)" by (cases "trng_reseed (logged io) (w1, Status st # l)")
    have "fill_inv len got True buf l2" using trng_reseed_log [OF r] inv 3(3) by (simp add: fill_inv_def delivered_def)
    then show ?thesis using 3 e r IH [of got True buf "(w2, l2)" res] by (auto simp: fill_post_def split: if_splits)
  next
    case 4
    then show ?thesis using e inv fill_inv_True [OF inv] IH [of got rs buf "(w1, Status st # l)" res]
      by (auto simp: fill_post_def fill_inv_status split: if_splits)
  next
    case 5
    obtain v w2 where v: "t_data io w1 = (v, w2)" by (cases "t_data io w1")
    have "delivered len got buf l" "checked l" "reseeds l \<le> (if rs then 1 else 0)" using inv by (simp_all add: fill_inv_def)
    then have "fill_inv len (got + min 8 (len - got)) rs (buf @ take (unat (min 8 (len - got))) (st64 v)) (Data v # Status st # l)"
      using 5 delivered_more [of len got buf l v st] by (simp add: fill_inv_def)
    then show ?thesis using 5 e v IH by (simp del: take_append)
  qed
qed

lemma fill_loop_safe:
  assumes "fill_loop (logged io) len wait got rs buf (w, l) = Some res" and "fill_inv len got rs buf l"
  shows "fill_post len wait res"
proof -
  have "x = logged io \<longrightarrow> lx = len \<longrightarrow> wx = wait \<longrightarrow> fill_inv lx g k bx (snd s) \<longrightarrow> fill_post lx wx res"
    if "fill_loop x lx wx g k bx s = Some res" for x lx wx g k bx s res
  proof (rule fill_loop.raw_induct [where P = "\<lambda>x lx wx g k bx s res. x = logged io \<longrightarrow> lx = len \<longrightarrow> wx = wait \<longrightarrow>
      fill_inv lx g k bx (snd s) \<longrightarrow> fill_post lx wx res", OF _ that], intro impI, goal_cases)
    case (1 fl x lx wx g k bx s res)
    obtain w l where s: "s = (w, l)" by (cases s)
    obtain st w1 where st: "t_status io w = (st, w1)" by (cases "t_status io w")
    have inv: "fill_inv len g k bx l" using 1 s by simp
    have "fill_post len wait res"
    proof (rule fill_turn [OF _ inv st, where fl = fl])
      show "fill_post len wait res" if "fl (logged io) len wait g k bx s = Some res" "fill_inv len g k bx (snd s)" for g k bx s res
        using 1(1) that by blast
    qed (use 1(2) in \<open>unfold 1(3-5) s logged_sel(1) st prod.case\<close>)
    then show ?case using 1 by simp
  qed
  then show ?thesis using assms by auto
qed

section \<open>The loop ends\<close>

lemma got_grows:
  assumes "(got :: u16) < len"
  shows "unat len - unat (got + min 8 (len - got)) < unat len - unat got" "got + min 8 (len - got) \<le> len"
    "unat (got + min 8 (len - got)) = unat got + min (unat (min 8 (len - got))) 8"
proof -
  have g: "unat got < unat len" using assms by (simp add: word_less_nat_alt)
  have d: "unat (len - got) = unat len - unat got" using assms by (simp add: unat_sub less_imp_le)
  have m: "unat (min 8 (len - got)) = min 8 (unat len - unat got)" by (simp add: min_def word_le_nat_alt d)
  have "unat got + min 8 (unat len - unat got) < 2 ^ 16" using g unsigned_less [of len, where ?'a = nat] by simp
  then have s: "unat (got + min 8 (len - got)) = unat got + min 8 (unat len - unat got)" by (simp add: unat_word_ariths m)
  show "unat len - unat (got + min 8 (len - got)) < unat len - unat got" "got + min 8 (len - got) \<le> len"
    "unat (got + min 8 (len - got)) = unat got + min (unat (min 8 (len - got))) 8"
    using g by (simp_all add: s m word_le_nat_alt)
qed

lemma fill_loop_returns: "\<exists>r. fill_loop io len False got rs buf w = Some r"
proof (induction "2 * (unat len - unat got) + (if rs then 0 else 1)" arbitrary: got rs buf w rule: less_induct)
  case less
  obtain st w1 where st: "t_status io w = (st, w1)" by (cases "t_status io w")
  have "\<exists>r. fill_loop io len False got True buf x = Some r" if "\<not> rs" for x using less.hyps [of got True] that by simp
  moreover have "\<exists>r. fill_loop io len False (got + min 8 (len - got)) rs b x = Some r" if "got < len" for b x
    using less.hyps [of "got + min 8 (len - got)" rs] got_grows(1) [OF that] by simp
  ultimately show ?case
    by (subst fill_loop.simps) (auto simp: st split: prod.splits)
qed

text \<open>A device that shows a healthy word within \<open>n\<close> polls.\<close>

fun ready_within :: "'w tio \<Rightarrow> nat \<Rightarrow> 'w \<Rightarrow> bool" where
  "ready_within io 0 w \<longleftrightarrow> False"
| "ready_within io (Suc n) w \<longleftrightarrow> (case t_status io w of (st, w1) \<Rightarrow> is_healthy st \<and> (is_ready st \<or> ready_within io n w1))"

definition trng_live :: "'w tio \<Rightarrow> ('w \<Rightarrow> bool) \<Rightarrow> bool" where
  "trng_live io ok \<longleftrightarrow> (\<forall>w. ok w \<longrightarrow> (\<exists>n. ready_within io n w) \<and> ok (snd (t_status io w)) \<and> ok (snd (t_data io w)))"

lemma fill_loop_poll:
  assumes live: "trng_live io ok" and g: "got < len"
    and go: "\<And>v w'. ok w' \<Longrightarrow> \<exists>b x. fill_loop io len True (got + min 8 (len - got)) rs (buf @ take (unat (min 8 (len - got))) (st64 v)) w' = Some (Inr len, b, x) \<and> length b = unat len"
  shows "ok w \<Longrightarrow> ready_within io n w \<Longrightarrow> \<exists>b x. fill_loop io len True got rs buf w = Some (Inr len, b, x) \<and> length b = unat len"
proof (induction n arbitrary: w)
  case (Suc n)
  obtain st w1 where st: "t_status io w = (st, w1)" by (cases "t_status io w")
  obtain v w2 where v: "t_data io w1 = (v, w2)" by (cases "t_data io w1")
  have ok1: "ok w1" using live Suc.prems(1) st by (metis trng_live_def snd_conv)
  then have ok2: "ok w2" using live v by (metis trng_live_def snd_conv)
  have h: "is_healthy st" using Suc.prems(2) by (simp add: st)
  show ?case
  proof (cases "is_ready st")
    case True
    then show ?thesis using go [OF ok2, of v] g h by (subst fill_loop.simps) (simp add: st v)
  next
    case False
    then show ?thesis using Suc.IH [OF ok1] Suc.prems(2) g h by (subst fill_loop.simps) (simp add: st)
  qed
qed simp

lemma fill_loop_live:
  assumes "trng_live io ok"
  shows "ok w \<Longrightarrow> got \<le> len \<Longrightarrow> length buf = unat got \<Longrightarrow> \<exists>b x. fill_loop io len True got rs buf w = Some (Inr len, b, x) \<and> length b = unat len"
proof (induction "unat len - unat got" arbitrary: got buf w rule: less_induct)
  case less
  show ?case
  proof (cases "got < len")
    case True
    obtain n where "ready_within io n w" using assms less.prems(1) by (metis trng_live_def)
    then show ?thesis
      using less.prems less.hyps [OF got_grows(1) [OF True]] got_grows(2,3) [OF True] by (intro fill_loop_poll [OF assms True]) simp_all
  next
    case False
    then show ?thesis using less.prems(2,3) by (subst fill_loop.simps) simp
  qed
qed

section \<open>Properties\<close>

text \<open>
  C18: no suspect entropy.  Whatever the generator does, every word a request takes from it is
  taken right after a status that shows it healthy and a word ready; a request reseeds at most
  once; the buffer holds the words taken, in order; the request ends with the I/O error or with
  the number of bytes written, which for a blocking request is the number asked for.
\<close>

theorem entropy_checked:
  assumes "trng_fill (logged io) len wait (w, []) = Some (r, buf, w', l)"
  shows "checked l \<and> reseeds l \<le> 1 \<and> buf = take (length buf) (concat (map st64 (words_of l))) \<and>
    (r = Inl EIO \<or> (\<exists>n. r = Inr n \<and> unat n = length buf \<and> (wait \<longrightarrow> n = len)))"
proof -
  have "fill_inv len 0 False [] []" by (simp add: fill_inv_def delivered_def)
  from fill_loop_safe [OF assms [unfolded trng_fill_def] this] obtain n where
    f: "fill_inv len n True buf l" and r: "r = Inl EIO \<or> r = Inr n \<and> (wait \<longrightarrow> n = len)" by (auto simp: fill_post_def)
  have "length buf = unat n" using f by (simp add: fill_inv_def delivered_def length_word_bytes)
  then show ?thesis using f r by (auto simp: fill_inv_def delivered_def)
qed

text \<open>
  C38: a request from an interrupt returns.  Without the busy-wait flag the request comes back
  whatever the generator does, because every turn of the loop delivers a byte, uses up its one
  reseed, or ends.
\<close>

theorem entropy_isr_returns: "\<exists>r. trng_get_entropy_isr io len False w = Some r"
  using fill_loop_returns [of io len 0 False "[]" w] by (auto simp: trng_get_entropy_isr_def trng_fill_def)

text \<open>
  C37: a blocking request is served.  If the generator keeps showing a healthy word after
  finitely many polls, \<^verbatim>\<open>get_entropy\<close> returns 0 with all the bytes asked for.
\<close>

theorem entropy_served:
  assumes "trng_live io ok" and "ok w"
  shows "\<exists>buf x. trng_get_entropy io len w = Some (None, buf, x) \<and> length buf = unat len"
  using fill_loop_live [OF assms, of 0 len "[]" False] by (auto simp: trng_get_entropy_def trng_fill_def)

theorem entropy_served_witness:
  "\<exists>buf x. trng_get_entropy \<lparr>t_status = (\<lambda>n. (if even n then 3 else 2, n + 1)), t_ctrl = (\<lambda>v n. n), t_data = (\<lambda>n. (of_nat n, n))\<rparr> 100 (7 :: nat) =
    Some (None, buf, x) \<and> length buf = unat (100 :: u16)"
proof (rule entropy_served [of _ "\<lambda>n. True"])
  let ?io = "\<lparr>t_status = (\<lambda>n. (if even n then 3 else 2, n + 1)), t_ctrl = (\<lambda>v n. n), t_data = (\<lambda>n. (of_nat n, n))\<rparr> :: nat tio"
  have "ready_within ?io (Suc (Suc 0)) w" for w by (cases "even w") (simp_all add: TRNG_STATUS_READY_def TRNG_STATUS_HEALTH_OK_def)
  then show "trng_live ?io (\<lambda>n. True)" unfolding trng_live_def by blast
qed simp

theorem entropy_checked_witness:
  "checked [Data 9, Status 3, Status 2] \<and>
   (\<exists>r buf w' l. trng_fill (logged \<lparr>t_status = (\<lambda>n. (3, n + 1)), t_ctrl = (\<lambda>v n. n), t_data = (\<lambda>n. (of_nat n, n))\<rparr>) 4 False (7 :: nat, []) = Some (r, buf, w', l) \<and>
      checked l \<and> reseeds l \<le> 1)"
proof -
  let ?io = "\<lparr>t_status = (\<lambda>n. (3, n + 1)), t_ctrl = (\<lambda>v n. n), t_data = (\<lambda>n. (of_nat n, n))\<rparr> :: nat tio"
  obtain r buf w' l where f: "trng_fill (logged ?io) 4 False (7, []) = Some (r, buf, w', l)"
    using fill_loop_returns [of "logged ?io" 4 0 False "[]" "(7, [])"] by (auto simp: trng_fill_def)
  from entropy_checked [OF f] f show ?thesis by (auto simp: TRNG_STATUS_READY_def TRNG_STATUS_HEALTH_OK_def)
qed

section \<open>Seeds\<close>

lemma wait_ready_now: "is_ready (fst (t_status io w)) \<Longrightarrow> wait_ready io w = Some (snd (t_status io w))"
  by (subst wait_ready.simps) (simp add: case_prod_beta)

lemma read_loop_ready:
  assumes "\<And>w. is_ready (fst (t_status io w))"
  shows "\<exists>b x. z_read_loop io len n w = Some (b, x) \<and> length b = len - n"
proof (induction "len - n" arbitrary: n w rule: less_induct)
  case less
  let ?c = "if 8 < len - n then 8 else len - n"
  show ?case
  proof (cases "n < len")
    case True
    obtain v w1 where v: "next_word io w = Some (v, w1)" using assms by (simp add: next_word_def wait_ready_now) (metis prod.exhaust)
    have "len - (n + ?c) < len - n" using True by (simp add: diff_less_mono2)
    from less [OF this, of w1] obtain b x where "z_read_loop io len (n + ?c) w1 = Some (b, x)" "length b = len - (n + ?c)" by blast
    then show ?thesis using True v by (subst z_read_loop.simps) (auto simp: Let_def)
  qed (simp add: z_read_loop.simps)
qed

text \<open>
  C40: the two seed functions treat an unhealthy generator differently.  On one that always
  has a word ready but fails its health tests, the FreeRTOS seed function takes no word and
  fails, as the driver's interface asks; the Zephyr one returns success with as many bytes as
  asked for, because it accepts either status bit.
\<close>

theorem seed_health_differs:
  assumes "\<And>w. fst (t_status io w) = TRNG_STATUS_READY"
  shows "f_trng_seed (logged io) sz (w, []) = Some (False, [], snd (t_status io w), [Status TRNG_STATUS_READY]) \<and>
    (\<exists>buf x. z_trng_seed io sz w = Some (True, buf, x) \<and> length buf = sz)"
proof -
  have r: "is_ready (fst (t_status io w))" for w using assms by (simp add: TRNG_STATUS_READY_def)
  have "f_trng_seed (logged io) sz (w, []) = Some (False, [], snd (t_status io w), [Status TRNG_STATUS_READY])"
    using assms [of w] by (simp add: f_trng_seed_def trng_health_ok_def case_prod_beta TRNG_STATUS_READY_def TRNG_STATUS_HEALTH_OK_def)
  moreover have "fst (z_trng_health_ok io w)"
    using assms [of w] by (simp add: z_trng_health_ok_def case_prod_beta TRNG_STATUS_READY_def TRNG_STATUS_HEALTH_OK_def)
  moreover obtain b x where "z_read_loop io sz 0 (snd (z_trng_health_ok io w)) = Some (b, x)" "length b = sz"
    using read_loop_ready [OF r, of sz 0 "snd (z_trng_health_ok io w)"] by (auto simp del: z_read_loop.simps)
  ultimately show ?thesis by (auto simp: z_trng_seed_def z_trng_read_def case_prod_beta simp del: z_read_loop.simps)
qed

theorem seed_health_differs_witness:
  "\<exists>buf x. z_trng_seed \<lparr>t_status = (\<lambda>n. (TRNG_STATUS_READY, n + 1)), t_ctrl = (\<lambda>v n. n), t_data = (\<lambda>n. (0, n))\<rparr> 20 (0 :: nat) = Some (True, buf, x) \<and> length buf = 20"
  using seed_health_differs [of "\<lparr>t_status = (\<lambda>n. (TRNG_STATUS_READY, n + 1)), t_ctrl = (\<lambda>v n. n), t_data = (\<lambda>n. (0, n))\<rparr>" 20 "0 :: nat"] by simp

end
