(* ===== verification/Elf_Loader.thy ===== *)
theory Elf_Loader
  imports Klauss_Prelude
begin

unbundle bit_operations_syntax

text \<open>
  The two run-time loaders of ELF programs: \<^verbatim>\<open>baremetal/programs/loader.c\<close>, which loads a
  linked program from a file and moves it to its load address, and the relocation hook
  \<^verbatim>\<open>arch/klausscpu/core/elf.c\<close> of Zephyr's extension loader.  Memory is a function of 64-bit
  addresses; the file system, the console and the loaded program are parameters.
\<close>

section \<open>Memory\<close>

type_synonym mem = "u64 \<Rightarrow> u8"

definition get_mem :: "u64 \<Rightarrow> nat \<Rightarrow> mem \<Rightarrow> u8 list" where
  "get_mem a n m = map (\<lambda>i. m (a + of_nat i)) [0..<n]"

definition put_mem :: "u64 \<Rightarrow> u8 list \<Rightarrow> mem \<Rightarrow> mem" where
  "put_mem a bs m = (\<lambda>x. if unat (x - a) < length bs then bs ! unat (x - a) else m x)"

definition zero_mem :: "u64 \<Rightarrow> nat \<Rightarrow> mem \<Rightarrow> mem" where
  "zero_mem a n m = (\<lambda>x. if unat (x - a) < n then 0 else m x)"

section \<open>The program loader\<close>

text \<open>
  The file as FatFs reads it: from an offset up to so many bytes, and whether the seek and
  the read succeeded.
\<close>

type_synonym fat_file = "u32 \<Rightarrow> nat \<Rightarrow> bool \<times> u8 list"

text \<open>Whether all bytes were read, and the bytes that were.\<close>

definition fread_at :: "fat_file \<Rightarrow> u32 \<Rightarrow> nat \<Rightarrow> bool \<times> u8 list" where
  "fread_at f off len = (case f off len of (ok, bs) \<Rightarrow> (ok \<and> length bs = len, bs))"

record ehdr =
  e_ident :: "u8 list"
  e_machine :: u16
  e_entry :: u32
  e_phoff :: u32
  e_shoff :: u32
  e_flags :: u32
  e_phentsize :: u16
  e_phnum :: u16
  e_shentsize :: u16
  e_shnum :: u16

record phdr =
  p_type :: u32
  p_offset :: u32
  p_vaddr :: u32
  p_filesz :: u32
  p_memsz :: u32

record shdr =
  sh_type :: u32
  sh_flags :: u32
  sh_offset :: u32
  sh_size :: u32
  sh_info :: u32
  sh_entsize :: u32

record rela =
  r_offset :: u32
  r_info :: u32

definition field :: "nat \<Rightarrow> nat \<Rightarrow> u8 list \<Rightarrow> 'l::len word" where
  "field off n bs = ld_le (take n (drop off bs))"

text \<open>The structs as they lie in the file, without the fields nothing reads.\<close>

definition parse_ehdr :: "u8 list \<Rightarrow> ehdr" where
  "parse_ehdr b = \<lparr>e_ident = take 16 b, e_machine = field 18 2 b, e_entry = field 24 4 b, e_phoff = field 28 4 b,
     e_shoff = field 32 4 b, e_flags = field 36 4 b, e_phentsize = field 42 2 b, e_phnum = field 44 2 b,
     e_shentsize = field 46 2 b, e_shnum = field 48 2 b\<rparr>"

definition parse_phdr :: "u8 list \<Rightarrow> phdr" where
  "parse_phdr b = \<lparr>p_type = field 0 4 b, p_offset = field 4 4 b, p_vaddr = field 8 4 b, p_filesz = field 16 4 b,
     p_memsz = field 20 4 b\<rparr>"

definition parse_shdr :: "u8 list \<Rightarrow> shdr" where
  "parse_shdr b = \<lparr>sh_type = field 4 4 b, sh_flags = field 8 4 b, sh_offset = field 16 4 b, sh_size = field 20 4 b,
     sh_info = field 28 4 b, sh_entsize = field 36 4 b\<rparr>"

definition parse_rela :: "u8 list \<Rightarrow> rela" where
  "parse_rela b = \<lparr>r_offset = field 0 4 b, r_info = field 4 4 b\<rparr>"

definition EM_KLAUSSCPU :: u16 where "EM_KLAUSSCPU = 0x4B43"
definition KLAUSSCPU_EF_ABI_MASK :: u32 where "KLAUSSCPU_EF_ABI_MASK = 0xFF"
definition KLAUSSCPU_ABI_VERSION :: u32 where "KLAUSSCPU_ABI_VERSION = 3"
definition PT_LOAD :: u32 where "PT_LOAD = 1"
definition SHT_RELA :: u32 where "SHT_RELA = 4"
definition SHF_ALLOC :: u32 where "SHF_ALLOC = 2"
definition R_KLAUSSCPU_NONE :: u32 where "R_KLAUSSCPU_NONE = 0"
definition R_KLAUSSCPU_ABS32 :: u32 where "R_KLAUSSCPU_ABS32 = 1"
definition R_KLAUSSCPU_ABS64 :: u32 where "R_KLAUSSCPU_ABS64 = 2"
definition R_KLAUSSCPU_PCREL32 :: u32 where "R_KLAUSSCPU_PCREL32 = 3"
definition R_KLAUSSCPU_PC32 :: u32 where "R_KLAUSSCPU_PC32 = 4"
definition R_KLAUSSCPU_PC64 :: u32 where "R_KLAUSSCPU_PC64 = 5"
definition R_KLAUSSCPU_CALL18 :: u32 where "R_KLAUSSCPU_CALL18 = 6"

definition elf_magic :: "u8 list \<Rightarrow> bool" where
  "elf_magic b \<longleftrightarrow> b ! 0 = 0x7F \<and> b ! 1 = 0x45 \<and> b ! 2 = 0x4C \<and> b ! 3 = 0x46"

text \<open>The \<open>i\<close>-th program header, if it can be read.\<close>

definition read_phdr :: "fat_file \<Rightarrow> ehdr \<Rightarrow> nat \<Rightarrow> phdr option" where
  "read_phdr f eh i =
     (case fread_at f (e_phoff eh + of_nat (i * unat (e_phentsize eh))) 32 of (ok, b) \<Rightarrow> if ok then Some (parse_phdr b) else None)"

definition link_base_of :: "fat_file \<Rightarrow> ehdr \<Rightarrow> u32" where
  "link_base_of f eh =
     fold (\<lambda>i base. case read_phdr f eh i of
         None \<Rightarrow> base
       | Some ph \<Rightarrow> if p_type ph = PT_LOAD \<and> p_vaddr ph < base then p_vaddr ph else base)
       [0..<unat (e_phnum eh)] 0xFFFFFFFF"

text \<open>One segment: what was read is in memory even if the read came up short.\<close>

definition load_segment :: "fat_file \<Rightarrow> u32 \<Rightarrow> phdr \<Rightarrow> mem \<Rightarrow> bool \<times> mem" where
  "load_segment f delta ph m =
     (let dest = ucast (p_vaddr ph + delta);
          (ok, m1) = (if p_filesz ph > 0
                      then case fread_at f (p_offset ph) (unat (p_filesz ph)) of (ok, b) \<Rightarrow> (ok, put_mem dest b m)
                      else (True, m))
      in if \<not> ok then (False, m1)
         else if p_memsz ph > p_filesz ph
         then (True, zero_mem (dest + ucast (p_filesz ph)) (unat (p_memsz ph - p_filesz ph)) m1)
         else (True, m1))"

fun load_segments :: "fat_file \<Rightarrow> ehdr \<Rightarrow> u32 \<Rightarrow> nat list \<Rightarrow> mem \<Rightarrow> bool \<times> mem" where
  "load_segments f eh delta [] m = (True, m)"
| "load_segments f eh delta (i # is) m =
     (case read_phdr f eh i of
        None \<Rightarrow> load_segments f eh delta is m
      | Some ph \<Rightarrow>
          if p_type ph \<noteq> PT_LOAD then load_segments f eh delta is m
          else case load_segment f delta ph m of (ok, m1) \<Rightarrow>
                 if ok then load_segments f eh delta is m1 else (False, m1))"

definition apply_rela :: "u32 \<Rightarrow> rela \<Rightarrow> mem \<Rightarrow> mem" where
  "apply_rela delta r m =
     (let loc = ucast (r_offset r + delta)
      in if r_info r AND 0xFF = R_KLAUSSCPU_ABS32
         then put_mem loc (st_le 4 (ld_le (get_mem loc 4 m) + delta)) m
         else if r_info r AND 0xFF = R_KLAUSSCPU_ABS64
         then put_mem loc (st_le 8 (ld_le (get_mem loc 8 m) + scast delta :: u64)) m
         else m)"

text \<open>The relocations \<open>j, j + 1, ...\<close> of a section, up to the first that cannot be read.\<close>

fun apply_section :: "fat_file \<Rightarrow> u32 \<Rightarrow> shdr \<Rightarrow> nat list \<Rightarrow> mem \<Rightarrow> mem" where
  "apply_section f delta sh [] m = m"
| "apply_section f delta sh (j # js) m =
     (case fread_at f (sh_offset sh + of_nat j * sh_entsize sh) 12 of (ok, b) \<Rightarrow>
        if \<not> ok then m else apply_section f delta sh js (apply_rela delta (parse_rela b) m))"

definition read_shdr :: "fat_file \<Rightarrow> ehdr \<Rightarrow> u32 \<Rightarrow> shdr option" where
  "read_shdr f eh off = (case fread_at f (e_shoff eh + off) 40 of (ok, b) \<Rightarrow> if ok then Some (parse_shdr b) else None)"

text \<open>The section the \<open>i\<close>-th one relocates is loaded.\<close>

definition relocates :: "fat_file \<Rightarrow> ehdr \<Rightarrow> nat \<Rightarrow> shdr option" where
  "relocates f eh i =
     (case read_shdr f eh (of_nat (i * unat (e_shentsize eh))) of
        None \<Rightarrow> None
      | Some sh \<Rightarrow>
          if sh_type sh \<noteq> SHT_RELA \<or> sh_entsize sh = 0 \<or> sh_info sh = 0 \<or> sh_info sh \<ge> ucast (e_shnum eh) then None
          else case read_shdr f eh (sh_info sh * ucast (e_shentsize eh)) of
                 None \<Rightarrow> None
               | Some target \<Rightarrow> if sh_flags target AND SHF_ALLOC = 0 then None else Some sh)"

definition apply_relocs :: "fat_file \<Rightarrow> ehdr \<Rightarrow> u32 \<Rightarrow> mem \<Rightarrow> mem" where
  "apply_relocs f eh delta m =
     fold (\<lambda>i m. case relocates f eh i of
         None \<Rightarrow> m
       | Some sh \<Rightarrow> apply_section f delta sh [0..<unat (sh_size sh div sh_entsize sh)] m) [0..<unat (e_shnum eh)] m"

text \<open>The entry point, or \<open>None\<close> for the return value -1.\<close>

definition load_elf :: "fat_file \<Rightarrow> u32 \<Rightarrow> mem \<Rightarrow> u32 option \<times> mem" where
  "load_elf f load_base m =
     (case fread_at f 0 52 of (ok, b) \<Rightarrow>
        let eh = parse_ehdr b in
        if \<not> ok \<or> \<not> elf_magic (e_ident eh) \<or> e_machine eh \<noteq> EM_KLAUSSCPU \<or>
           e_flags eh AND KLAUSSCPU_EF_ABI_MASK \<noteq> KLAUSSCPU_ABI_VERSION \<or> link_base_of f eh = 0xFFFFFFFF
        then (None, m)
        else let delta = load_base - link_base_of f eh in
             case load_segments f eh delta [0..<unat (e_phnum eh)] m of (ok, m1) \<Rightarrow>
               if \<not> ok then (None, m1)
               else (Some (e_entry eh + delta), if delta \<noteq> 0 \<and> e_shoff eh \<noteq> 0 then apply_relocs f eh delta m1 else m1))"

definition load_flat :: "fat_file \<Rightarrow> u32 \<Rightarrow> nat \<Rightarrow> mem \<Rightarrow> u32 option \<times> mem" where
  "load_flat f load_base fsize m =
     (case fread_at f 0 fsize of (ok, b) \<Rightarrow> (if ok then Some load_base else None, put_mem (ucast load_base) b m))"

definition PIC_LOAD_ADDR :: u32 where "PIC_LOAD_ADDR = 0x04000000"
definition PIC_MAX_SIZE :: nat where "PIC_MAX_SIZE = 48 * 1024 * 1024"

record card =
  mount_ok :: bool
  open_ok :: bool
  file_size :: nat
  the_file :: fat_file

text \<open>
  The return code, the LED register and the memory; \<open>run\<close> is the loaded program, started at
  its entry point.
\<close>

definition load_and_run :: "(u32 \<Rightarrow> mem \<Rightarrow> int \<times> mem) \<Rightarrow> card \<Rightarrow> u32 \<Rightarrow> mem \<Rightarrow> int \<times> u32 \<times> mem" where
  "load_and_run run c leds m =
     (if \<not> mount_ok c then (-1, leds, m)
      else let leds1 = leds OR 1 in
      if \<not> open_ok c then (-1, leds1, m)
      else let leds2 = leds1 OR 2 in
      if file_size c = 0 \<or> file_size c > PIC_MAX_SIZE then (-1, leds2, m)
      else let magic = snd (the_file c 0 4);
               (entry, m1) = (if length magic = 4 \<and> elf_magic magic
                              then load_elf (the_file c) PIC_LOAD_ADDR m
                              else load_flat (the_file c) PIC_LOAD_ADDR (file_size c) m)
           in case entry of
                None \<Rightarrow> (-1, leds2, m1)
              | Some e \<Rightarrow>
                  if e = 0 then (-1, leds2, m1)
                  else case run e m1 of (rc, m2) \<Rightarrow> (rc, leds2 OR 4 OR 8, m2))"

section \<open>Relocation of extensions\<close>

text \<open>
  The hook of the extension loader.  Where the field is and what the symbol resolves to are
  found by Zephyr: \<open>loc\<close>, the result of reading the symbol, and the result and address of
  looking it up are parameters.
\<close>

datatype reloc_rc = R_OK | R_ENOEXEC | R_ENOTSUP | R_FAILED int

definition put32 :: "u64 \<Rightarrow> u64 \<Rightarrow> mem \<Rightarrow> mem" where
  "put32 loc v m = put_mem loc (st_le 4 (ucast v :: u32)) m"

definition put64 :: "u64 \<Rightarrow> u64 \<Rightarrow> mem \<Rightarrow> mem" where
  "put64 loc v m = put_mem loc (st_le 8 v) m"

definition arch_elf_relocate :: "u64 \<Rightarrow> int \<Rightarrow> int \<times> u64 \<Rightarrow> u32 \<Rightarrow> int \<Rightarrow> mem \<Rightarrow> reloc_rc \<times> mem" where
  "arch_elf_relocate loc rd lookup info addend m =
     (let reloc_type = info AND 0xFF;
          target = snd lookup + of_int addend
      in if reloc_type = R_KLAUSSCPU_NONE then (R_OK, m)
         else if rd \<noteq> 0 then (R_FAILED rd, m)
         else if fst lookup \<noteq> 0 then (R_FAILED (fst lookup), m)
         else if reloc_type = R_KLAUSSCPU_ABS32 then (R_OK, put32 loc target m)
         else if reloc_type = R_KLAUSSCPU_ABS64 then (R_OK, put64 loc target m)
         else if reloc_type = R_KLAUSSCPU_PCREL32 then (R_OK, put32 loc (target - loc + 4) m)
         else if reloc_type = R_KLAUSSCPU_PC32 then (R_OK, put32 loc (target - loc) m)
         else if reloc_type = R_KLAUSSCPU_PC64 then (R_OK, put64 loc (target - loc) m)
         else if reloc_type = R_KLAUSSCPU_CALL18 then
           let disp = target - loc in
           if disp AND 3 \<noteq> 0 \<or> sint disp < - (2 ^ 19) \<or> sint disp \<ge> 2 ^ 19 then (R_ENOEXEC, m)
           else (R_OK, put_mem loc (st_le 4 ((ld_le (get_mem loc 4 m) AND NOT 0x3FFFF) OR
                   (ucast (signed_drop_bit 2 disp) AND 0x3FFFF) :: u32)) m)
         else (R_ENOTSUP, m))"

text \<open>The header check in front of it.\<close>

definition klausscpu_llext_check_header :: "ehdr \<Rightarrow> reloc_rc" where
  "klausscpu_llext_check_header hdr =
     (if e_machine hdr \<noteq> EM_KLAUSSCPU then R_ENOEXEC
      else if e_flags hdr AND KLAUSSCPU_EF_ABI_MASK \<noteq> KLAUSSCPU_ABI_VERSION then R_ENOEXEC
      else R_OK)"

section \<open>Fields in memory\<close>

lemma get_put: "length bs < 2 ^ 64 \<Longrightarrow> get_mem a (length bs) (put_mem a bs m) = bs"
  by (intro nth_equalityI) (simp_all add: get_mem_def put_mem_def unat_of_nat take_bit_nat_eq_self)

lemma put_other: "length bs \<le> unat (x - a) \<Longrightarrow> put_mem a bs m x = m x"
  by (simp add: put_mem_def)

lemma field_put32: "ld_le (get_mem a 4 (put_mem a (st_le 4 (v :: u32)) m)) = v"
  using get_put [of "st_le 4 v" a m] by (simp add: ld_st_le)

lemma field_put64: "ld_le (get_mem a 8 (put_mem a (st_le 8 (v :: u64)) m)) = v"
  using get_put [of "st_le 8 v" a m] by (simp add: ld_st_le)

section \<open>Relocated fields resolve\<close>

text \<open>Where the short call of word \<open>w\<close> at \<open>loc\<close> goes: an 18-bit signed count of words.\<close>

definition call18_target :: "u64 \<Rightarrow> u32 \<Rightarrow> u64" where
  "call18_target loc w =
     loc + of_int (4 * (let z = uint (w AND 0x3FFFF) in if z < 2 ^ 17 then z else z - 2 ^ 18))"

lemma low18:
  "((w AND NOT 0x3FFFF) OR (v AND 0x3FFFF) :: u32) AND 0x3FFFF = v AND 0x3FFFF"
  "((w AND NOT 0x3FFFF) OR (v AND 0x3FFFF) :: u32) AND NOT 0x3FFFF = w AND NOT 0x3FFFF"
  by (simp_all add: bit.conj_disj_distrib2 and.assoc)

lemma mask18: "(v :: u32) AND 0x3FFFF = take_bit 18 v"
  by (simp add: take_bit_eq_mask mask_eq_exp_minus_1)

lemma drop2_low: "uint (take_bit 18 (ucast (signed_drop_bit 2 (disp :: u64))) :: u32) = (sint disp div 4) mod 2 ^ 18"
proof -
  have "uint (signed_drop_bit 2 disp) = take_bit 64 (sint (signed_drop_bit 2 disp))" by (simp add: uint_sint)
  then have "uint (signed_drop_bit 2 disp) = take_bit 64 (sint disp div 4)" by (simp add: sint_signed_drop_bit_eq drop_bit_eq_div)
  then have "uint (take_bit 18 (ucast (signed_drop_bit 2 disp)) :: u32) = take_bit 18 (sint disp div 4)"
    by (simp add: unsigned_take_bit_eq unsigned_ucast_eq take_bit_take_bit)
  then show ?thesis by (simp add: take_bit_eq_mod)
qed

lemma sext18:
  assumes "- (2 ^ 17) \<le> k" and "k < 2 ^ 17"
  shows "(let z = k mod 2 ^ 18 in if z < 2 ^ 17 then z else z - 2 ^ 18) = (k :: int)"
proof (cases "0 \<le> k")
  case False
  then show ?thesis using assms mod_pos_pos_trivial [of "k + 2 ^ 18" "2 ^ 18"] by (simp add: Let_def)
qed (use assms in \<open>simp add: Let_def\<close>)

lemma call18_reaches:
  assumes "disp AND 3 = (0 :: u64)" and "- (2 ^ 19) \<le> sint disp" and "sint disp < 2 ^ 19"
  shows "call18_target loc ((w AND NOT 0x3FFFF) OR (ucast (signed_drop_bit 2 disp) AND 0x3FFFF)) = loc + disp"
proof -
  define k where "k = sint disp div 4"
  have "take_bit 2 disp = 0" using assms(1) by (simp add: take_bit_eq_mask mask_eq_exp_minus_1)
  then have "take_bit 2 (uint disp) = 0" by (metis unsigned_0 unsigned_take_bit_eq)
  then have "take_bit 2 (sint disp) = 0" by (simp add: uint_sint take_bit_take_bit)
  then have k4: "sint disp = 4 * k" unfolding k_def take_bit_eq_mod by auto
  have kr: "- (2 ^ 17) \<le> k" "k < 2 ^ 17" using assms(2,3) k4 by simp_all
  have "call18_target loc ((w AND NOT 0x3FFFF) OR (ucast (signed_drop_bit 2 disp) AND 0x3FFFF)) = loc + of_int (4 * k)"
    unfolding call18_target_def low18(1) unfolding mask18 drop2_low k_def [symmetric] sext18 [OF kr] ..
  then show ?thesis by (simp add: k4 [symmetric])
qed

lemmas reloc_types = R_KLAUSSCPU_NONE_def R_KLAUSSCPU_ABS32_def R_KLAUSSCPU_ABS64_def R_KLAUSSCPU_PCREL32_def
  R_KLAUSSCPU_PC32_def R_KLAUSSCPU_PC64_def R_KLAUSSCPU_CALL18_def

lemma ucast_ring: "ucast (x + y :: u64) = (ucast x + ucast y :: u32)" "ucast (x - y :: u64) = (ucast x - ucast y :: u32)"
proof -
  have "(of_int (uint x + uint y) :: u32) = of_int (uint (x + y))"
    by (rule word_of_int_eq_iff [THEN iffD2]) (simp add: uint_word_ariths take_bit_eq_mod mod_mod_cancel)
  then show "ucast (x + y :: u64) = (ucast x + ucast y :: u32)" by simp
  have "(of_int (uint x - uint y) :: u32) = of_int (uint (x - y))"
    by (rule word_of_int_eq_iff [THEN iffD2]) (simp add: uint_word_ariths take_bit_eq_mod mod_mod_cancel)
  then show "ucast (x - y :: u64) = (ucast x - ucast y :: u32)" by simp
qed

text \<open>
  C21: a relocated field means what the instruction set says.  If the hook succeeds, then for
  each kind of relocation the field holds the target or leads to it: an absolute field is the
  target, a call or branch immediate counted from its instruction, a data difference counted
  from the field and a short call's word count all arrive at the target, and the short call
  keeps its other bits.  Nothing outside the field changes, and a refused relocation changes
  nothing at all; a short call is refused exactly if the target is unaligned or out of reach.
\<close>

theorem reloc_resolves:
  fixes S loc :: u64 and A :: int and info :: u32
  defines "T \<equiv> S + of_int A" and "t \<equiv> info AND 0xFF"
  shows "case arch_elf_relocate loc 0 (0, S) info A m of (rc, m') \<Rightarrow>
    let w = (ld_le (get_mem loc 4 m') :: u32); d = (ld_le (get_mem loc 8 m') :: u64); w0 = (ld_le (get_mem loc 4 m) :: u32) in
    (rc = R_OK \<longrightarrow>
      (t = R_KLAUSSCPU_ABS32 \<longrightarrow> w = ucast T) \<and> (t = R_KLAUSSCPU_ABS64 \<longrightarrow> d = T) \<and>
      (t = R_KLAUSSCPU_PCREL32 \<longrightarrow> ucast (loc - 4) + w = ucast T) \<and> (t = R_KLAUSSCPU_PC32 \<longrightarrow> ucast loc + w = ucast T) \<and>
      (t = R_KLAUSSCPU_PC64 \<longrightarrow> loc + d = T) \<and>
      (t = R_KLAUSSCPU_CALL18 \<longrightarrow> call18_target loc w = T \<and> w AND NOT 0x3FFFF = w0 AND NOT 0x3FFFF)) \<and>
    (\<forall>x. (if t = R_KLAUSSCPU_ABS64 \<or> t = R_KLAUSSCPU_PC64 then 8 else 4) \<le> unat (x - loc) \<longrightarrow> m' x = m x) \<and>
    (rc \<noteq> R_OK \<longrightarrow> m' = m) \<and>
    (rc = R_ENOEXEC \<longleftrightarrow> t = R_KLAUSSCPU_CALL18 \<and> ((T - loc) AND 3 \<noteq> 0 \<or> sint (T - loc) < - (2 ^ 19) \<or> 2 ^ 19 \<le> sint (T - loc)))"
proof -
  note d = arch_elf_relocate_def t_def [symmetric] T_def [symmetric] put32_def put64_def
  consider "t = 0" | "t = 1" | "t = 2" | "t = 3" | "t = 4" | "t = 5" | "t = 6" "(T - loc) AND 3 \<noteq> 0 \<or> sint (T - loc) < - (2 ^ 19) \<or> 2 ^ 19 \<le> sint (T - loc)"
    | "t = 6" "(T - loc) AND 3 = 0" "- (2 ^ 19) \<le> sint (T - loc)" "sint (T - loc) < 2 ^ 19"
    | "t \<notin> {0, 1, 2, 3, 4, 5, 6}" by fastforce
  then show ?thesis
  proof cases
    case 8
    then show ?thesis using call18_reaches [of "T - loc" loc]
      by (simp add: d reloc_types Let_def field_put32 put_other low18 [simplified] not_less)
  qed (simp_all add: d reloc_types Let_def field_put32 field_put64 put_other ucast_ring)
qed

theorem reloc_resolves_witness:
  "call18_target 0x1000 (ld_le (get_mem 0x1000 4 (snd (arch_elf_relocate 0x1000 0 (0, 0x2000) 6 8 (\<lambda>x. 0x63))))) = 0x2008"
  using reloc_resolves [where loc = "0x1000" and S = "0x2000" and info = 6 and A = 8 and m = "\<lambda>x. 0x63"]
  by (simp add: Let_def case_prod_beta reloc_types) (simp add: arch_elf_relocate_def reloc_types Let_def)

section \<open>Segments\<close>

text \<open>The segments a program has, in order.\<close>

definition segments :: "fat_file \<Rightarrow> ehdr \<Rightarrow> phdr list" where
  "segments f eh = [ph \<leftarrow> List.map_filter (read_phdr f eh) [0..<unat (e_phnum eh)]. p_type ph = PT_LOAD]"

text \<open>The readable file with this content.\<close>

definition file_is :: "u8 list \<Rightarrow> fat_file \<Rightarrow> bool" where
  "file_is content f \<longleftrightarrow> (\<forall>off len. f off len = (True, take len (drop (unat off) content)))"

text \<open>Where a segment lands, as a number, and the byte it puts there.\<close>

definition seg_lo :: "u32 \<Rightarrow> u32 \<Rightarrow> phdr \<Rightarrow> nat" where
  "seg_lo load link ph = unat load + (unat (p_vaddr ph) - unat link)"

definition in_seg :: "u32 \<Rightarrow> u32 \<Rightarrow> phdr \<Rightarrow> nat \<Rightarrow> bool" where
  "in_seg load link ph x \<longleftrightarrow> seg_lo load link ph \<le> x \<and> x < seg_lo load link ph + unat (p_memsz ph)"

definition seg_byte :: "u8 list \<Rightarrow> phdr \<Rightarrow> nat \<Rightarrow> u8" where
  "seg_byte content ph k = (if k < unat (p_filesz ph) then content ! (unat (p_offset ph) + k) else 0)"

text \<open>The program image at its load address, over what was in memory before.\<close>

definition elf_image :: "u8 list \<Rightarrow> u32 \<Rightarrow> u32 \<Rightarrow> phdr list \<Rightarrow> mem \<Rightarrow> mem" where
  "elf_image content load link phs m x =
     (case find (\<lambda>ph. in_seg load link ph (unat x)) phs of
        None \<Rightarrow> m x
      | Some ph \<Rightarrow> seg_byte content ph (unat x - seg_lo load link ph))"

text \<open>A segment that is in the file, whose data is no longer than its memory, and that ends below 4 GiB.\<close>

definition seg_fits :: "u8 list \<Rightarrow> u32 \<Rightarrow> u32 \<Rightarrow> phdr \<Rightarrow> bool" where
  "seg_fits content load link ph \<longleftrightarrow> unat (p_offset ph) + unat (p_filesz ph) \<le> length content \<and> p_filesz ph \<le> p_memsz ph \<and>
     link \<le> p_vaddr ph \<and> seg_lo load link ph + unat (p_memsz ph) < 2 ^ 32"

lemma offset_in:
  assumes "unat a + n \<le> 2 ^ 64"
  shows "unat (x - a :: u64) < n \<longleftrightarrow> unat a \<le> unat x \<and> unat x < unat a + n"
    "unat a \<le> unat x \<Longrightarrow> unat (x - a) = unat x - unat a"
proof -
  show "unat a \<le> unat x \<Longrightarrow> unat (x - a) = unat x - unat a" by (simp add: unat_sub word_le_nat_alt)
  moreover have "\<not> unat a \<le> unat x \<Longrightarrow> n \<le> unat (x - a)"
    using assms unsigned_less [of x, where ?'a = nat] by (simp add: unat_sub_if')
  ultimately show "unat (x - a :: u64) < n \<longleftrightarrow> unat a \<le> unat x \<and> unat x < unat a + n" by linarith
qed

lemma unat_up: "unat (ucast (x :: u32) :: u64) = unat x"
  using unsigned_less [of x, where ?'a = nat] by (simp add: unsigned_ucast_eq take_bit_nat_eq_self)

lemma dest_lo:
  assumes "seg_fits content load link ph"
  shows "unat (ucast (p_vaddr ph + (load - link)) :: u64) = seg_lo load link ph"
proof -
  have l: "seg_lo load link ph < 2 ^ 32" "link \<le> p_vaddr ph" using assms by (simp_all add: seg_fits_def)
  define y where "y = p_vaddr ph - link"
  have e: "p_vaddr ph + (load - link) = load + y" by (simp add: y_def)
  have "unat y = unat (p_vaddr ph) - unat link" unfolding y_def using l(2) by (rule unat_sub)
  then show ?thesis using l(1) unfolding e unat_up by (simp add: unat_word_ariths seg_lo_def)
qed

lemma load_segment_exact:
  assumes fi: "file_is content f" and fits: "seg_fits content load link ph"
  shows "load_segment f (load - link) ph m = (True, elf_image content load link [ph] m)"
proof -
  define dest :: u64 where "dest = ucast (p_vaddr ph + (load - link))"
  let ?fs = "unat (p_filesz ph)" and ?ms = "unat (p_memsz ph)"
  let ?lo = "seg_lo load link ph" and ?data = "take (unat (p_filesz ph)) (drop (unat (p_offset ph)) content)"
  have c: "unat (p_offset ph) + ?fs \<le> length content" and fm: "?fs \<le> ?ms" and lim: "?lo + ?ms < 2 ^ 32"
    using fits by (simp_all add: seg_fits_def word_le_nat_alt)
  have d: "unat dest = ?lo" unfolding dest_def by (rule dest_lo [OF fits])
  have d2: "unat (dest + ucast (p_filesz ph)) = ?lo + ?fs"
    using lim fm by (simp add: unat_word_ariths d unat_up)
  have gap: "unat (p_memsz ph - p_filesz ph) = ?ms - ?fs" using fm by (simp add: unat_sub word_le_nat_alt)
  define m1 where "m1 = (if p_filesz ph > 0 then put_mem dest ?data m else m)"
  have r: "fread_at f (p_offset ph) ?fs = (True, ?data)" using fi c by (simp add: file_is_def fread_at_def)
  have "load_segment f (load - link) ph m =
      (True, if p_memsz ph > p_filesz ph then zero_mem (dest + ucast (p_filesz ph)) (?ms - ?fs) m1 else m1)"
    by (simp add: load_segment_def Let_def r m1_def gap dest_def)
  moreover have "(if p_memsz ph > p_filesz ph then zero_mem (dest + ucast (p_filesz ph)) (?ms - ?fs) m1 else m1) x = elf_image content load link [ph] m x" for x
  proof -
    have m1: "m1 x = (if ?lo \<le> unat x \<and> unat x < ?lo + ?fs then content ! (unat (p_offset ph) + (unat x - ?lo)) else m x)"
      using offset_in [of dest ?fs x] lim fm c by (auto simp: m1_def put_mem_def d word_less_nat_alt)
    show ?thesis
      using offset_in [of "dest + ucast (p_filesz ph)" "?ms - ?fs" x] lim fm m1
      by (auto simp: zero_mem_def d2 elf_image_def in_seg_def seg_byte_def word_less_nat_alt)
  qed
  ultimately show ?thesis by (simp add: fun_eq_iff)
qed

text \<open>Segments that do not overlap in memory.\<close>

definition segs_apart :: "u32 \<Rightarrow> u32 \<Rightarrow> phdr list \<Rightarrow> bool" where
  "segs_apart load link phs \<longleftrightarrow> sorted_wrt (\<lambda>a b. seg_lo load link a + unat (p_memsz a) \<le> seg_lo load link b \<or>
     seg_lo load link b + unat (p_memsz b) \<le> seg_lo load link a) phs"

lemma elf_image_Cons:
  assumes "segs_apart load link (ph # phs)"
  shows "elf_image content load link (ph # phs) m = elf_image content load link phs (elf_image content load link [ph] m)"
proof
  fix x :: u64
  have "find (\<lambda>p. in_seg load link p (unat x)) phs = None" if "in_seg load link ph (unat x)"
    using assms that by (auto simp: find_None_iff segs_apart_def in_seg_def)
  then show "elf_image content load link (ph # phs) m x = elf_image content load link phs (elf_image content load link [ph] m) x"
    by (auto simp: elf_image_def split: option.splits)
qed

lemma load_segments_exact:
  fixes eh :: ehdr
  assumes fi: "file_is content f"
  defines "sg \<equiv> \<lambda>is. [ph \<leftarrow> List.map_filter (read_phdr f eh) is. p_type ph = PT_LOAD]"
  shows "(\<And>ph. ph \<in> set (sg is) \<Longrightarrow> seg_fits content load link ph) \<Longrightarrow> segs_apart load link (sg is) \<Longrightarrow>
    load_segments f eh (load - link) is m = (True, elf_image content load link (sg is) m)"
proof (induction "is" arbitrary: m)
  case Nil
  then show ?case by (simp add: sg_def elf_image_def)
next
  case (Cons i "is")
  show ?case
  proof (cases "\<exists>ph. read_phdr f eh i = Some ph \<and> p_type ph = PT_LOAD")
    case True
    then obtain ph where r: "read_phdr f eh i = Some ph" "p_type ph = PT_LOAD" by blast
    have s: "sg (i # is) = ph # sg is" using r by (simp add: sg_def List.map_filter_simps)
    have ap: "segs_apart load link (sg is)" using Cons.prems(2) by (simp add: s segs_apart_def)
    have "seg_fits content load link ph" using Cons.prems(1) by (simp add: s)
    then show ?thesis
      using r Cons.IH [OF _ ap] Cons.prems(1) elf_image_Cons [of load link ph "sg is" content m] Cons.prems(2)
      by (simp add: s load_segment_exact [OF fi])
  next
    case False
    then have "sg (i # is) = sg is" by (auto simp: sg_def List.map_filter_simps split: option.splits)
    then show ?thesis using False Cons by (auto split: option.splits)
  qed
qed

section \<open>Relocations of a program\<close>

fun section_relas :: "fat_file \<Rightarrow> shdr \<Rightarrow> nat list \<Rightarrow> rela list" where
  "section_relas f sh [] = []"
| "section_relas f sh (j # js) =
     (case fread_at f (sh_offset sh + of_nat j * sh_entsize sh) 12 of (ok, b) \<Rightarrow>
        if \<not> ok then [] else parse_rela b # section_relas f sh js)"

text \<open>The relocations of the loaded sections, in order.\<close>

definition relas :: "fat_file \<Rightarrow> ehdr \<Rightarrow> rela list" where
  "relas f eh = (if e_shoff eh = 0 then [] else concat (map (\<lambda>i. case relocates f eh i of
       None \<Rightarrow> []
     | Some sh \<Rightarrow> section_relas f sh [0..<unat (sh_size sh div sh_entsize sh)]) [0..<unat (e_shnum eh)]))"

lemma apply_section_fold: "apply_section f delta sh js m = fold (apply_rela delta) (section_relas f sh js) m"
  by (induction js arbitrary: m) (auto split: prod.splits)

lemma apply_relocs_fold: "e_shoff eh \<noteq> 0 \<Longrightarrow> apply_relocs f eh delta m = fold (apply_rela delta) (relas f eh) m"
proof -
  have "fold (\<lambda>i m. case relocates f eh i of None \<Rightarrow> m | Some sh \<Rightarrow> apply_section f delta sh [0..<unat (sh_size sh div sh_entsize sh)] m) is m =
    fold (apply_rela delta) (concat (map (\<lambda>i. case relocates f eh i of None \<Rightarrow> []
      | Some sh \<Rightarrow> section_relas f sh [0..<unat (sh_size sh div sh_entsize sh)]) is)) m" for "is" m
    by (induction "is" arbitrary: m) (auto simp: apply_section_fold split: option.splits)
  then show "e_shoff eh \<noteq> 0 \<Longrightarrow> apply_relocs f eh delta m = fold (apply_rela delta) (relas f eh) m" by (simp add: apply_relocs_def relas_def)
qed

text \<open>The addresses a relocation changes: four or eight for an absolute one, none for another.\<close>

definition rela_size :: "rela \<Rightarrow> nat" where
  "rela_size r = (if r_info r AND 0xFF = R_KLAUSSCPU_ABS32 then 4 else if r_info r AND 0xFF = R_KLAUSSCPU_ABS64 then 8 else 0)"

definition rela_loc :: "u32 \<Rightarrow> rela \<Rightarrow> u64" where
  "rela_loc delta r = ucast (r_offset r + delta)"

definition field_of :: "u32 \<Rightarrow> rela \<Rightarrow> u64 list" where
  "field_of delta r = map (\<lambda>i. rela_loc delta r + of_nat i) [0..<rela_size r]"

text \<open>The field of a relocation holds what it held in \<open>m\<close>, moved by \<open>delta\<close>.\<close>

definition moved :: "u32 \<Rightarrow> rela \<Rightarrow> mem \<Rightarrow> mem \<Rightarrow> bool" where
  "moved delta r m m' \<longleftrightarrow>
     (rela_size r = 4 \<longrightarrow> ld_le (get_mem (rela_loc delta r) 4 m') = (ld_le (get_mem (rela_loc delta r) 4 m) + delta :: u32)) \<and>
     (rela_size r = 8 \<longrightarrow> ld_le (get_mem (rela_loc delta r) 8 m') = (ld_le (get_mem (rela_loc delta r) 8 m) + scast delta :: u64))"

lemma apply_rela_moved: "moved delta r m (apply_rela delta r m)"
  by (simp add: moved_def apply_rela_def rela_size_def rela_loc_def Let_def field_put32 field_put64 reloc_types)

lemma apply_rela_other: "x \<notin> set (field_of delta r) \<Longrightarrow> apply_rela delta r m x = m x"
proof -
  assume x: "x \<notin> set (field_of delta r)"
  have "rela_size r \<le> unat (x - rela_loc delta r)"
  proof (rule ccontr)
    assume "\<not> rela_size r \<le> unat (x - rela_loc delta r)"
    then have "unat (x - rela_loc delta r) \<in> set [0..<rela_size r]" by simp
    then have "rela_loc delta r + of_nat (unat (x - rela_loc delta r)) \<in> set (field_of delta r)"
      unfolding field_of_def set_map by (rule imageI)
    then show False using x by simp
  qed
  then show ?thesis by (auto simp: apply_rela_def rela_size_def rela_loc_def Let_def put_other reloc_types split: if_splits)
qed

lemma moved_cong: "(\<And>x. x \<in> set (field_of delta r) \<Longrightarrow> m x = n x \<and> m' x = n' x) \<Longrightarrow> moved delta r m m' \<longleftrightarrow> moved delta r n n'"
proof -
  assume h: "\<And>x. x \<in> set (field_of delta r) \<Longrightarrow> m x = n x \<and> m' x = n' x"
  have "get_mem (rela_loc delta r) (rela_size r) m = get_mem (rela_loc delta r) (rela_size r) n"
    "get_mem (rela_loc delta r) (rela_size r) m' = get_mem (rela_loc delta r) (rela_size r) n'"
    using h by (auto simp: get_mem_def field_of_def)
  then show "moved delta r m m' \<longleftrightarrow> moved delta r n n'" by (auto simp: moved_def)
qed

lemma relocate_all:
  "distinct (concat (map (field_of delta) rs)) \<Longrightarrow>
   (\<forall>x. x \<notin> set (concat (map (field_of delta) rs)) \<longrightarrow> fold (apply_rela delta) rs m x = m x) \<and>
   (\<forall>r \<in> set rs. moved delta r m (fold (apply_rela delta) rs m))"
proof (induction rs arbitrary: m)
  case (Cons r rs)
  let ?m1 = "apply_rela delta r m" and ?F = "set (concat (map (field_of delta) rs))"
  have d: "distinct (concat (map (field_of delta) rs))" "set (field_of delta r) \<inter> ?F = {}" using Cons.prems by auto
  define n where "n = fold (apply_rela delta) rs ?m1"
  have IH: "x \<notin> ?F \<Longrightarrow> n x = ?m1 x" "s \<in> set rs \<Longrightarrow> moved delta s ?m1 n" for x s
    using Cons.IH [OF d(1), of ?m1, folded n_def] by simp_all
  have same: "x \<in> set (field_of delta r) \<Longrightarrow> ?m1 x = n x" for x using IH(1) d(2) by (metis disjoint_iff)
  have r: "moved delta r m n"
    by (rule moved_cong [THEN iffD1, OF _ apply_rela_moved [of delta r m]]) (simp add: same)
  have o: "m x = ?m1 x" if "x \<in> set (field_of delta s)" "s \<in> set rs" for x s
  proof -
    have "x \<in> ?F" using that by auto
    then show ?thesis using d(2) apply_rela_other [of x delta r m] by (metis disjoint_iff)
  qed
  have s: "moved delta s m n" if "s \<in> set rs" for s
    by (rule moved_cong [THEN iffD2, OF _ IH(2) [OF that]]) (simp add: o [OF _ that])
  have "n x = m x" if "x \<notin> set (field_of delta r)" "x \<notin> ?F" for x
    using IH(1) [OF that(2)] apply_rela_other [OF that(1)] by simp
  then show ?case using r s by (simp add: n_def)
qed simp

section \<open>Loading a program\<close>

definition header_ok :: "ehdr \<Rightarrow> bool" where
  "header_ok eh \<longleftrightarrow> elf_magic (e_ident eh) \<and> e_machine eh = EM_KLAUSSCPU \<and> e_flags eh AND KLAUSSCPU_EF_ABI_MASK = KLAUSSCPU_ABI_VERSION"

text \<open>
  C9: a program is loaded as if it had been linked at the load address.  For a readable file
  whose segments are in the file, do not overlap and end below 4 GiB, and whose relocation
  fields do not overlap, the loader returns the moved entry point; the memory then holds
  every segment at its place moved to the load address, with the data from the file and
  zeros after it, except that every absolute field of the loaded sections is increased by the
  distance of the move; and nothing else in memory has changed.
\<close>

theorem elf_loaded:
  fixes content :: "u8 list" and load :: u32
  assumes "file_is content f" and "52 \<le> length content" and "eh = parse_ehdr (take 52 content)" and "header_ok eh"
    and "link = link_base_of f eh" and "link \<noteq> 0xFFFFFFFF"
    and "\<And>ph. ph \<in> set (segments f eh) \<Longrightarrow> seg_fits content load link ph" and "segs_apart load link (segments f eh)"
    and "distinct (concat (map (field_of (load - link)) (relas f eh)))"
  shows "\<exists>m'. load_elf f load m = (Some (e_entry eh + (load - link)), m') \<and>
    (\<forall>x. x \<notin> set (concat (map (field_of (load - link)) (relas f eh))) \<longrightarrow> m' x = elf_image content load link (segments f eh) m x) \<and>
    (\<forall>r \<in> set (relas f eh). moved (load - link) r (elf_image content load link (segments f eh) m) m')"
proof -
  let ?d = "load - link" and ?m1 = "elf_image content load link (segments f eh) m"
  have h: "fread_at f 0 52 = (True, take 52 content)" using assms(1,2) by (simp add: file_is_def fread_at_def)
  have s: "load_segments f eh ?d [0..<unat (e_phnum eh)] m = (True, ?m1)"
    using load_segments_exact [OF assms(1), of eh "[0..<unat (e_phnum eh)]" load link m] assms(7,8) by (simp add: segments_def)
  have e: "load_elf f load m = (Some (e_entry eh + ?d), if ?d \<noteq> 0 \<and> e_shoff eh \<noteq> 0 then apply_relocs f eh ?d ?m1 else ?m1)"
    using assms(4,6) s by (simp add: load_elf_def h Let_def assms(3) [symmetric] assms(5) [symmetric] header_ok_def)
  have z: "moved 0 r m m" for r and m :: mem by (simp add: moved_def)
  show ?thesis
  proof (cases "?d \<noteq> 0 \<and> e_shoff eh \<noteq> 0")
    case True
    then show ?thesis using e relocate_all [OF assms(9), of ?m1] by (simp add: apply_relocs_fold)
  next
    case False
    then have "?d = 0 \<or> relas f eh = []" by (auto simp: relas_def)
    then show ?thesis using e False z by auto
  qed
qed

text \<open>A program of one segment with eight bytes of data, four of zeros, and one absolute field.\<close>

definition sample_elf :: "u8 list" where
  "sample_elf =
     [0x7F, 0x45, 0x4C, 0x46] @ replicate 12 0 @ [0, 0, 0x43, 0x4B] @ replicate 4 0 @ [0, 1, 0, 0] @ [52, 0, 0, 0] @ [104, 0, 0, 0] @
     [3, 0, 0, 0] @ [0, 0, 32, 0, 1, 0, 40, 0, 3, 0, 0, 0] @
     [1, 0, 0, 0] @ [84, 0, 0, 0] @ [0, 1, 0, 0] @ replicate 4 0 @ [8, 0, 0, 0] @ [12, 0, 0, 0] @ replicate 8 0 @
     [0, 1, 0, 0, 5, 6, 7, 8] @
     [0, 1, 0, 0] @ [1, 0, 0, 0] @ replicate 4 0 @
     replicate 40 0 @
     replicate 4 0 @ [1, 0, 0, 0] @ [2, 0, 0, 0] @ replicate 28 0 @
     replicate 4 0 @ [4, 0, 0, 0] @ replicate 8 0 @ [92, 0, 0, 0] @ [12, 0, 0, 0] @ replicate 4 0 @ [1, 0, 0, 0] @ replicate 4 0 @ [12, 0, 0, 0]"

definition sample_fat :: fat_file where
  "sample_fat off len = (True, take len (drop (unat off) sample_elf))"

definition sample_ehdr :: ehdr where
  "sample_ehdr = parse_ehdr (take 52 sample_elf)"

lemma sample_facts:
  "header_ok sample_ehdr" "link_base_of sample_fat sample_ehdr = 0x100" "e_entry sample_ehdr = 0x100" "52 \<le> length sample_elf"
  "segments sample_fat sample_ehdr = [\<lparr>p_type = 1, p_offset = 84, p_vaddr = 0x100, p_filesz = 8, p_memsz = 12\<rparr>]"
  "relas sample_fat sample_ehdr = [\<lparr>r_offset = 0x100, r_info = 1\<rparr>]"
  "length sample_elf = 224" "sample_elf ! 84 = 0" "sample_elf ! 85 = 1" "sample_elf ! 86 = 0" "sample_elf ! 87 = 0" "sample_elf ! 88 = 5"
  by code_simp+

lemma sample_image:
  "elf_image sample_elf 0x04000000 0x100 [\<lparr>p_type = 1, p_offset = 84, p_vaddr = 0x100, p_filesz = 8, p_memsz = 12\<rparr>] m x =
     (if 0x04000000 \<le> unat x \<and> unat x < 0x0400000C then
        if unat x < 0x04000008 then sample_elf ! (84 + (unat x - 0x04000000)) else 0
      else m x)"
  by (auto simp: elf_image_def in_seg_def seg_lo_def seg_byte_def)

theorem elf_loaded_witness:
  "\<exists>m'. load_elf sample_fat 0x04000000 (\<lambda>x. 9) = (Some 0x04000000, m') \<and> m' 0x04000004 = 5 \<and> m' 0x0400000B = 0 \<and> m' 0x0400000C = 9 \<and>
    ld_le (get_mem 0x04000000 4 m') = (0x04000000 :: u32)"
proof -
  let ?ph = "\<lparr>p_type = 1, p_offset = 84, p_vaddr = 0x100, p_filesz = 8, p_memsz = 12\<rparr>" and ?r = "\<lparr>r_offset = 0x100, r_info = 1\<rparr>"
  have fi: "file_is sample_elf sample_fat" by (simp add: file_is_def sample_fat_def)
  have fits: "seg_fits sample_elf 0x04000000 0x100 ?ph" by (simp add: seg_fits_def seg_lo_def sample_facts(7))
  have "\<And>ph. ph \<in> set (segments sample_fat sample_ehdr) \<Longrightarrow> seg_fits sample_elf 0x04000000 0x100 ph"
    "segs_apart 0x04000000 0x100 (segments sample_fat sample_ehdr)"
    using fits by (simp_all add: sample_facts(5) segs_apart_def)
  moreover have "distinct (concat (map (field_of (0x04000000 - 0x100)) (relas sample_fat sample_ehdr)))"
    unfolding sample_facts(6) by (simp add: field_of_def rela_size_def rela_loc_def reloc_types upt_rec)
  moreover have "(0x100 :: u32) \<noteq> 0xFFFFFFFF" by simp
  moreover note el = elf_loaded [OF fi sample_facts(4) sample_ehdr_def sample_facts(1) sample_facts(2) [symmetric]]
  ultimately obtain m' where l: "load_elf sample_fat 0x04000000 (\<lambda>x. 9) = (Some (e_entry sample_ehdr + (0x04000000 - 0x100)), m')"
    and o: "\<And>x. x \<notin> set (concat (map (field_of (0x04000000 - 0x100)) (relas sample_fat sample_ehdr))) \<Longrightarrow>
      m' x = elf_image sample_elf 0x04000000 0x100 (segments sample_fat sample_ehdr) (\<lambda>x. 9) x"
    and mv: "\<And>r. r \<in> set (relas sample_fat sample_ehdr) \<Longrightarrow>
      moved (0x04000000 - 0x100) r (elf_image sample_elf 0x04000000 0x100 (segments sample_fat sample_ehdr) (\<lambda>x. 9)) m'"
    using el [of "0x04000000" "\<lambda>x. 9"] by blast
  have "moved (0x04000000 - 0x100) ?r (elf_image sample_elf 0x04000000 0x100 [?ph] (\<lambda>x. 9)) m'" using mv by (simp add: sample_facts(5,6))
  moreover have "ld_le (get_mem 0x04000000 4 (elf_image sample_elf 0x04000000 0x100 [?ph] (\<lambda>x. 9))) = (0x100 :: u32)"
    by (simp add: get_mem_def sample_image upt_rec sample_facts(8-11)) (simp add: ld_le_def)
  ultimately have "ld_le (get_mem 0x04000000 4 m') = (0x04000000 :: u32)"
    by (simp add: moved_def rela_size_def rela_loc_def reloc_types)
  moreover have "m' x = elf_image sample_elf 0x04000000 0x100 [?ph] (\<lambda>x. 9) x" if "x \<in> {0x04000004, 0x0400000B, 0x0400000C}" for x
    using o [of x] that unfolding sample_facts(5,6) by (auto simp: field_of_def rela_size_def rela_loc_def reloc_types upt_rec)
  moreover have "elf_image sample_elf 0x04000000 0x100 [?ph] (\<lambda>x. 9) 0x04000004 = 5" "elf_image sample_elf 0x04000000 0x100 [?ph] (\<lambda>x. 9) 0x0400000B = 0"
    "elf_image sample_elf 0x04000000 0x100 [?ph] (\<lambda>x. 9) 0x0400000C = 9"
    by (simp_all add: sample_image sample_facts(12))
  ultimately show ?thesis using l by (simp add: sample_facts(3))
qed

end
