(* ===== verification/Spec2Isabelle.thy ===== *)
theory Spec2Isabelle
  imports Rtos Webapi Vnc_Server Httpd Conn_Pool Shell_Paths Netboot Sd_Disk Psa_Driver Wolfssl_Hw Trng Elf_Loader
begin

text \<open>
  This library verifies the KlaussCPU runtime: the bare-metal kernel, drivers and loaders under
  \<^verbatim>\<open>src/src\<close> and \<^verbatim>\<open>src/baremetal\<close>, the FreeRTOS port under \<^verbatim>\<open>src/freertos\<close>, and the Zephyr
  port with its services under \<^verbatim>\<open>src/zephyr-ws/klausscpu-zephyr\<close> (\<^verbatim>\<open>Z/\<close> below).

  \<^bold>\<open>The program and its parts.\<close>
  Tasks run on a preemptive kernel (\<^verbatim>\<open>rtos.c\<close>) or on Zephyr. Over the network the board offers a
  file and API server (\<^verbatim>\<open>httpd.c\<close>, \<^verbatim>\<open>webapi.c\<close>), a screen (\<^verbatim>\<open>vnc_server.c\<close> over
  \<^verbatim>\<open>framebuffer.c\<close>), secure shells and boot over TCP. Each connection is served by a worker of a
  small pool. Requests name files on the SD card, which the disk driver reads and writes
  sector by sector. TLS and SSH reach the crypto block through PSA or wolfCrypt callbacks, all of
  which share one driver (\<^verbatim>\<open>crypto_hw.c\<close>) and its random number generator. Programs are loaded
  from the card or the network and relocated.

  \<^bold>\<open>How code is modelled.\<close>
  Every function of a modelled file is a HOL function with the source's name and branches; structs
  are records, error codes are values, and words have their width where wrap-around can matter.
  Memory is a function from addresses or a list with explicit bounds. What the code calls but the
  repository does not contain (devices, sockets, FatFs, Zephyr, wolfCrypt) is a record of
  operations over an arbitrary world \<open>'w\<close>, passed as an argument; what it is documented to do is
  a named predicate such as \<open>aes_ok\<close>, \<open>sha_ok\<close>, \<open>trng_live\<close> or \<open>sd_card_ok\<close>, and each property with
  such a hypothesis has a witness with a concrete device. Loops are structural recursion where
  they are bounded by data. A loop whose end depends on the environment (reading a file, waiting for
  random words) is a partial function into option, and the properties state that the result is not
  None. The busy-waits on the crypto units and the SPI controller, which raise their flag after a
  fixed number of cycles, are one operation of the device record.

  \<^bold>\<open>Theories.\<close>
  \<^item> \<open>Klauss_Prelude\<close>: word types, search loops over tables, and the interfaces
    \<open>invariant_system\<close> (a transition system with an invariant) and \<open>slot_table\<close> (a fixed table of
    keyed slots), which the components below interpret.
  \<^item> \<open>Rtos\<close>: \<^verbatim>\<open>src/rtos.c\<close>, \<^verbatim>\<open>rtos.h\<close> and the timer entry of \<^verbatim>\<open>context_switch.S\<close>. The task table,
    tick, semaphores and flags are one record and the step relation \<open>rtos_step\<close> has one rule per
    call and per interrupt. Shown: the reachable invariant, no starvation, no lost wake-up, exact
    sleeping across wrap-around of the tick counter, and exact counting of semaphore units.
  \<^item> \<open>Webapi\<close>: \<^verbatim>\<open>Z/ssh/webapi.c\<close>, with server threads and unregistering threads interleaved. Shown:
    longest-prefix dispatch, and that an unregister returns only after its handler is idle.
  \<^item> \<open>Framebuffer\<close>, \<open>Vnc_Pixel\<close>, \<open>Vnc_Hextile\<close>, \<open>Vnc_Server\<close>: \<^verbatim>\<open>Z/vnc/framebuffer.c\<close> and
    \<^verbatim>\<open>vnc_server.c\<close> (pixel conversion, Hextile and Raw encoders, client messages, update loop). Shown:
    the dirty box holds every change, updates cover it and stay on screen, a protocol decoder
    recovers every tile from the Hextile stream, and the three Raw paths send the same bytes.
  \<^item> \<open>Cstring\<close>, \<open>Httpd\<close>: \<^verbatim>\<open>Z/ssh/httpd.c\<close>. Shown: confinement to the document root, exact uploads and
    downloads, and that every request returns.
  \<^item> \<open>Conn_Pool\<close>: the accept loops and workers of \<^verbatim>\<open>httpd.c\<close>, \<^verbatim>\<open>httpsd.c\<close> and \<^verbatim>\<open>ssh_server.c\<close> as
    interleaved steps. Shown: slots, threads and descriptors are never mixed up or lost.
  \<^item> \<open>Shell_Paths\<close>: \<^verbatim>\<open>Z/ssh/shell_paths.c\<close>. Shown: resolved paths are canonical and fit, and the slot
    table implements a map from shells to directories.
  \<^item> \<open>Netboot\<close>: \<^verbatim>\<open>baremetal/programs/netboot.c\<close> with its relocation trampoline. Shown: an image is
    staged and launched exactly, however TCP splits it, and nothing outside the staging area is
    written before.
  \<^item> \<open>Elf_Loader\<close>: \<^verbatim>\<open>baremetal/programs/loader.c\<close>, \<^verbatim>\<open>klausscpu_elf.h\<close> and the relocation hook
    \<^verbatim>\<open>Z/arch/klausscpu/core/elf.c\<close>. Shown: a program is loaded as if it were linked at its load
    address, and every relocation resolves or is refused.
  \<^item> \<open>Sd_Disk\<close>: \<^verbatim>\<open>Z/drivers/disk/disk_klausscpu_sd.c\<close>. Shown: the pipelined receive loop equals the
    plain one, reads are exact under retries, and the card is released on every path.
  \<^item> \<open>Crypto_Unit\<close>, \<open>Sha_Driver\<close>, \<open>Aes_Driver\<close>: \<^verbatim>\<open>mmio.h\<close> and \<^verbatim>\<open>src/crypto_hw.c\<close>. \<open>Crypto_Unit\<close> states
    what each register access does to the units. Shown: all hashing paths compute SHA-256 and HMAC,
    all GCM paths compute AES-GCM and decryption rejects exactly the wrong tags.
  \<^item> \<open>Ctr_Stream\<close>, \<open>Psa_Driver\<close>, \<open>Wolfssl_Hw\<close>: \<^verbatim>\<open>Z/drivers/crypto/psa_klausscpu.c\<close> and the two
    \<^verbatim>\<open>wolfssl_hw.c\<close>. The interface \<open>stream_cipher\<close> says when calls on a context are pieces of one
    key stream; both drivers interpret it. Shown: interleaved PSA operations refine an interface
    without hardware and keep their contexts well-formed; the callbacks compute CTR and GCM, except
    the FreeRTOS counter, which a second request shows wrong.
  \<^item> \<open>Trng\<close>: the generator of \<^verbatim>\<open>crypto_hw.c\<close>, the Zephyr entropy driver and the two seed callbacks.
    Shown: words are only taken after a healthy status, requests are served, and the interrupt
    variant returns.

  \<^bold>\<open>Composition.\<close>
  \<open>Psa_Driver\<close> and \<open>Wolfssl_Hw\<close> are proved from the lemmas of \<open>Aes_Driver\<close> and \<open>Sha_Driver\<close>, and
  those from the device contract of \<open>Crypto_Unit\<close>, so their properties hold from the API down to
  the register accesses. \<open>Vnc_Server\<close> runs on the operations of \<open>Framebuffer\<close>, and
  \<open>incremental_complete\<close> joins the two. \<open>Httpd\<close> and \<open>Shell_Paths\<close> share \<open>Cstring\<close>; \<open>Conn_Pool\<close> is the
  threading around the request function that \<open>Httpd\<close> shows to return.

  \<^bold>\<open>Bounds and fuel.\<close>
  Retry and poll limits are the source's own constants. No property rests on fuel. The hypotheses
  under which the partial functions end (\<open>trng_live\<close>, files and directories that end) are stated; that
  the crypto units and the SPI controller finish is assumed by their device records.

  \<^bold>\<open>Not modelled.\<close>
  Assembly apart from the timer entry, since the instruction set is defined elsewhere; the Zephyr,
  FreeRTOS, lwIP, FatFs, wolfSSL and MicroPython code, which is third-party; glue whose every line is
  a call into them (TLS and SSH sessions, shell commands, key files, display outputs, UART and timer
  drivers); and the applications, tests and benchmarks. Compiler and memory-model effects are not
  modelled: threads interleave at the granularity of the steps of each theory. Timing is modelled
  only as order and tick counts.
\<close>

end
